(* ===== verification/Dave_Prelude.thy ===== *)
theory Dave_Prelude
  imports Main "HOL-Library.Word"
begin

text \<open>
  Shared vocabulary of the development: Go's fixed-width integers and byte slices, the
  signed 64-bit wrap-around of Go's \<open>int\<close>, bounds-checked slicing, the byte orders of
  \<open>encoding/binary\<close>, and the generic lemmas and simp collections the component theories use.

  A byte slice is a list of 8-bit words. A Go \<open>int\<close> is an integer, and every arithmetic
  result that Go would store in an \<open>int\<close> goes through \<open>goint\<close>, the wrap-around at 64 bits.
  A slice expression \<open>xs[lo:hi]\<close> is \<open>go_slice xs lo hi\<close>, which is \<open>None\<close> where the bounds are
  not within the slice (the run-time panic). Go checks the upper bound against the capacity
  and not the length; the model is the stricter of the two, and the theorems show that the
  program stays within the length.
\<close>

unbundle bit_operations_syntax

named_theorems dave_defs "definitions unfolded together when an operation is evaluated"
named_theorems byte_simps "lengths and round trips of the byte encodings"

type_synonym u8 = "8 word"
type_synonym u16 = "16 word"
type_synonym u32 = "32 word"
type_synonym u64 = "64 word"
type_synonym bytes = "8 word list"

section \<open>Go integers and slices\<close>

definition goint :: "int \<Rightarrow> int" where
  "goint x = signed_take_bit 63 x"

definition in_goint :: "int \<Rightarrow> bool" where
  "in_goint x \<longleftrightarrow> - (2 ^ 63) \<le> x \<and> x < 2 ^ 63"

definition go_slice :: "'a list \<Rightarrow> int \<Rightarrow> int \<Rightarrow> 'a list option" where
  "go_slice xs lo hi =
     (if 0 \<le> lo \<and> lo \<le> hi \<and> hi \<le> int (length xs)
      then Some (take (nat (hi - lo)) (drop (nat lo) xs)) else None)"

definition go_copy :: "'a list \<Rightarrow> int \<Rightarrow> int \<Rightarrow> 'a list \<Rightarrow> 'a list option" where
  \<comment> \<open>\<open>copy(xs[lo:hi], src)\<close>: the prefix of the window that \<open>src\<close> covers is overwritten\<close>
  "go_copy xs lo hi src =
     (if 0 \<le> lo \<and> lo \<le> hi \<and> hi \<le> int (length xs)
      then let n = min (nat (hi - lo)) (length src)
           in Some (take (nat lo) xs @ take n src @ drop (nat lo + n) xs) else None)"

section \<open>Errors as values\<close>

text \<open>An error value of code outside the repository; only its message is known.\<close>

type_synonym go_error = string

text \<open>A fallible operation returns \<open>Inl\<close> an error or \<open>Inr\<close> a result; \<open>ebind\<close> is the early return
  \<open>if err != nil { return err }\<close>.\<close>

fun ebind :: "'e + 'a \<Rightarrow> ('a \<Rightarrow> 'e + 'b) \<Rightarrow> 'e + 'b" where
  "ebind (Inl e) f = Inl e"
| "ebind (Inr x) f = f x"

fun of_option :: "'e \<Rightarrow> 'a option \<Rightarrow> 'e + 'a" where
  "of_option e None = Inl e"
| "of_option e (Some x) = Inr x"

section \<open>Byte orders of \<open>encoding/binary\<close>\<close>

definition BigEndian_PutUint32 :: "u32 \<Rightarrow> bytes" where
  "BigEndian_PutUint32 w = map (\<lambda>i. ucast (drop_bit i w)) [24, 16, 8, 0]"

definition LittleEndian_PutUint32 :: "u32 \<Rightarrow> bytes" where
  "LittleEndian_PutUint32 w = map (\<lambda>i. ucast (drop_bit i w)) [0, 8, 16, 24]"

definition BigEndian_PutUint64 :: "u64 \<Rightarrow> bytes" where
  "BigEndian_PutUint64 w = map (\<lambda>i. ucast (drop_bit i w)) [56, 48, 40, 32, 24, 16, 8, 0]"

definition LittleEndian_PutUint64 :: "u64 \<Rightarrow> bytes" where
  "LittleEndian_PutUint64 w = map (\<lambda>i. ucast (drop_bit i w)) [0, 8, 16, 24, 32, 40, 48, 56]"

definition BigEndian_Uint64 :: "bytes \<Rightarrow> u64" where
  "BigEndian_Uint64 bs = foldl (\<lambda>acc b. push_bit 8 acc OR ucast b) 0 (take 8 bs)"

section \<open>Lemmas on errors\<close>

lemma ebind_case: "ebind m f = (case m of Inl e \<Rightarrow> Inl e | Inr x \<Rightarrow> f x)"
  by (cases m) simp_all

lemma ebind_Inr_iff: "ebind m f = Inr y \<longleftrightarrow> (\<exists>x. m = Inr x \<and> f x = Inr y)"
  by (cases m) simp_all

lemma ebind_Inl_iff: "ebind m f = Inl e \<longleftrightarrow> m = Inl e \<or> (\<exists>x. m = Inr x \<and> f x = Inl e)"
  by (cases m) simp_all

lemma of_option_Inr_iff: "of_option e m = Inr x \<longleftrightarrow> m = Some x"
  by (cases m) simp_all

lemma of_option_Inl_iff: "of_option e m = Inl e' \<longleftrightarrow> m = None \<and> e' = e"
  by (cases m) auto

lemmas error_iffs = ebind_Inr_iff ebind_Inl_iff of_option_Inr_iff of_option_Inl_iff

section \<open>Lemmas on Go integers and slices\<close>

lemma goint_id [simp]: "in_goint x \<Longrightarrow> goint x = x"
  by (simp add: goint_def in_goint_def signed_take_bit_int_eq_self_iff)

lemma goint_in [simp]: "in_goint (goint x)"
  unfolding goint_def in_goint_def
  using signed_take_bit_int_greater_eq_minus_exp [of 63 x] signed_take_bit_int_less_exp [of 63 x]
  by simp

lemma in_gointI: "0 \<le> x \<Longrightarrow> x \<le> y \<Longrightarrow> in_goint y \<Longrightarrow> in_goint x"
  by (simp add: in_goint_def)

lemma in_goint_diff: "0 \<le> x \<Longrightarrow> 0 \<le> y \<Longrightarrow> in_goint x \<Longrightarrow> in_goint y \<Longrightarrow> in_goint (x - y)"
  by (simp add: in_goint_def)

lemma go_slice_some_iff:
  "go_slice xs lo hi = Some ys \<longleftrightarrow>
     0 \<le> lo \<and> lo \<le> hi \<and> hi \<le> int (length xs) \<and> ys = take (nat (hi - lo)) (drop (nat lo) xs)"
  by (auto simp: go_slice_def)

lemma go_slice_length: "go_slice xs lo hi = Some ys \<Longrightarrow> int (length ys) = hi - lo"
  by (auto simp: go_slice_some_iff)

lemma go_slice_append_mid [simp]:
  "go_slice (xs @ ys @ zs) (int (length xs)) (int (length xs) + int (length ys)) = Some ys"
  by (simp add: go_slice_def)

lemma go_slice_mid:
  "lo = int (length xs) \<Longrightarrow> hi = int (length xs) + int (length ys) \<Longrightarrow>
     go_slice (xs @ ys @ zs) lo hi = Some ys"
  by simp

lemma go_slice_suffix:
  "lo = int (length xs) \<Longrightarrow> hi = int (length xs) + int (length ys) \<Longrightarrow>
     go_slice (xs @ ys) lo hi = Some ys"
  using go_slice_mid [of lo xs hi ys "[]"] by simp

lemma go_slice_all: "go_slice xs 0 (int (length xs)) = Some xs"
  by (simp add: go_slice_def)

lemma go_copy_mid:
  assumes "lo = int (length xs)" and "hi = int (length xs) + int (length ys)"
    and "length src = length ys"
  shows "go_copy (xs @ ys @ zs) lo hi src = Some (xs @ src @ zs)"
  using assms by (simp add: go_copy_def Let_def)

lemma list_split3:
  assumes "n + k \<le> length xs"
  obtains as bs cs where "xs = as @ bs @ cs" and "length as = n" and "length bs = k"
proof -
  have "xs = take n xs @ take k (drop n xs) @ drop k (drop n xs)"
    by (simp del: drop_drop)
  then show ?thesis
    using that assms by force
qed

section \<open>Lemmas on the byte orders\<close>

lemma length_BigEndian_PutUint32 [simp, byte_simps]: "length (BigEndian_PutUint32 w) = 4"
  by (simp add: BigEndian_PutUint32_def)

lemma length_LittleEndian_PutUint32 [simp, byte_simps]: "length (LittleEndian_PutUint32 w) = 4"
  by (simp add: LittleEndian_PutUint32_def)

lemma length_BigEndian_PutUint64 [simp, byte_simps]: "length (BigEndian_PutUint64 w) = 8"
  by (simp add: BigEndian_PutUint64_def)

lemma length_LittleEndian_PutUint64 [simp, byte_simps]: "length (LittleEndian_PutUint64 w) = 8"
  by (simp add: LittleEndian_PutUint64_def)

lemma word_split_byte:
  fixes w :: u64
  shows "push_bit 8 (drop_bit (n + 8) w) OR ucast (ucast (drop_bit n w) :: u8) = drop_bit n w"
  by (rule bit_word_eqI) (auto simp: bit_simps)

lemma BigEndian_Uint64_Put [simp, byte_simps]: "BigEndian_Uint64 (BigEndian_PutUint64 w) = w"
proof -
  have top: "ucast (ucast (drop_bit 56 w) :: u8) = drop_bit 56 w"
    by (rule bit_word_eqI) (auto simp: bit_simps dest: bit_imp_le_length)
  show ?thesis
    using top word_split_byte [of 48 w] word_split_byte [of 40 w] word_split_byte [of 32 w]
      word_split_byte [of 24 w] word_split_byte [of 16 w] word_split_byte [of 8 w]
      word_split_byte [of 0 w]
    by (simp add: BigEndian_Uint64_def BigEndian_PutUint64_def)
qed

lemma BigEndian_PutUint64_inj: "BigEndian_PutUint64 v = BigEndian_PutUint64 w \<Longrightarrow> v = w"
  by (metis BigEndian_Uint64_Put)

lemma LittleEndian_PutUint64_rev: "LittleEndian_PutUint64 w = rev (BigEndian_PutUint64 w)"
  by (simp add: LittleEndian_PutUint64_def BigEndian_PutUint64_def)

text \<open>A loop counter below its bound does not wrap.\<close>

lemma unat_Suc_less: "unat (n + 1) = unat n + 1" if "n < m" for n m :: "'a::len word"
proof -
  have "unat n + 1 < 2 ^ LENGTH('a)"
    using that unsigned_less [of m, where ?'a = nat] unfolding word_less_nat_alt by linarith
  then show ?thesis by (simp add: unat_word_ariths)
qed

end
