(* ===== verification/Uleb128.thy ===== *)
theory Uleb128
  imports Dave_Prelude
begin

text \<open>
  The ULEB128 codec of \<open>frame/uleb128.go\<close> and the error values of \<open>frame/errors.go\<close>. The
  encoder's loop is a recursion on the 32-bit value; the decoder's loop is a recursion on the
  remaining input with the loop variables \<open>i\<close>, \<open>value\<close> and \<open>shift\<close> as arguments.

  The locale \<open>prefix_codec\<close> states what the frame format relies on: decoding an encoded value
  from the front of any byte string gives it back, and whatever decodes was the encoding of
  the decoded value. The first law makes the footer readable, the second makes it unique.
\<close>

section \<open>Definitions\<close>

datatype frame_error =
    ErrFrameTooShort
  | ErrInvalidMagicMarker
  | ErrInvalidSupplementalSize
  | ErrInvalidULEB128
  | ErrInvalidRanges
  | ErrInvalidKeyLength
  | ErrAuthTagMismatch
  | ErrBufferTooSmall
  | ErrAesKeySize \<comment> \<open>\<open>aes.KeySizeError\<close> of the standard library\<close>
  | GoPanic \<comment> \<open>a run-time panic: slice bounds or a negative \<open>make\<close> capacity\<close>

definition valueBits :: nat where
  "valueBits = 32"

function appendULEB128 :: "bytes \<Rightarrow> u32 \<Rightarrow> bytes" where
  "appendULEB128 dst value =
     (if 0x80 \<le> value
      then appendULEB128 (dst @ [0x80 OR ucast (value AND 0x7F)]) (drop_bit 7 value)
      else dst @ [ucast value])"
  by pat_completeness auto
termination
proof (relation "measure (\<lambda>(dst, value). unat value)")
  fix dst :: bytes and v :: u32
  assume "0x80 \<le> v"
  then have "0 < unat v"
    by (simp add: word_le_nat_alt)
  then have "unat (drop_bit 7 v) < unat v"
    by (simp only: unat_drop_bit_eq) (simp add: drop_bit_eq_div)
  then show "((dst @ [0x80 OR ucast (v AND 0x7F)], drop_bit 7 v), dst, v)
      \<in> measure (\<lambda>(dst, value). unat value)"
    by simp
qed simp

declare appendULEB128.simps [simp del]

definition EncodeULEB128 :: "u32 \<Rightarrow> bytes" where
  "EncodeULEB128 value = appendULEB128 [] value"

fun decode_loop :: "nat \<Rightarrow> u32 \<Rightarrow> nat \<Rightarrow> bytes \<Rightarrow> frame_error + u32 \<times> nat" where
  "decode_loop i value shift [] = Inl ErrInvalidULEB128"
| "decode_loop i value shift (b # bs) =
     (if 5 \<le> i then Inl ErrInvalidULEB128
      else let value' = value OR push_bit shift (ucast (b AND 0x7F)) in
        if b < 0x80 then
          (if 0 < i \<and> b = 0 then Inl ErrInvalidULEB128
           else if drop_bit (valueBits - shift) b \<noteq> 0 then Inl ErrInvalidULEB128
           else Inr (value', i + 1))
        else if 32 \<le> shift + 7 then Inl ErrInvalidULEB128
        else decode_loop (i + 1) value' (shift + 7) bs)"

definition DecodeULEB128 :: "bytes \<Rightarrow> frame_error + u32 \<times> nat" where
  "DecodeULEB128 data = (if data = [] then Inl ErrInvalidULEB128 else decode_loop 0 0 0 data)"

section \<open>The codec interface\<close>

locale prefix_codec =
  fixes enc :: "'a \<Rightarrow> 'b list"
    and dec :: "'b list \<Rightarrow> 'e + 'a \<times> nat"
  assumes dec_enc: "dec (enc v @ rest) = Inr (v, length (enc v))"
    and enc_dec: "dec bs = Inr (v, n) \<Longrightarrow> n \<le> length bs \<and> take n bs = enc v"
    and enc_nonempty: "enc v \<noteq> []"
begin

lemma dec_split:
  assumes "dec bs = Inr (v, n)"
  obtains rest where "bs = enc v @ rest" and "drop n bs = rest" and "n = length (enc v)"
proof -
  from enc_dec [OF assms] have n: "n \<le> length bs" and t: "take n bs = enc v"
    by auto
  have "bs = enc v @ drop n bs"
    using append_take_drop_id [of n bs] t by simp
  moreover have "n = length (enc v)"
    using n t by (metis length_take min.absorb2)
  ultimately show ?thesis
    using that by blast
qed

lemma enc_prefix_free: "enc v @ r = enc w @ s \<Longrightarrow> v = w \<and> r = s"
  by (metis append_eq_append_conv dec_enc old.sum.inject(2) prod.inject)

lemma enc_inj: "enc v = enc w \<Longrightarrow> v = w"
  using enc_prefix_free [of v "[]" w "[]"] by simp

lemma dec_nil: "dec [] = Inr (v, n) \<Longrightarrow> False"
  using enc_dec [of "[]" v n] enc_nonempty [of v] by simp

end

section \<open>Lemmas on the encoder\<close>

lemma appendULEB128_append: "appendULEB128 (xs @ dst) v = xs @ appendULEB128 dst v"
proof (induction dst v rule: appendULEB128.induct)
  case (1 dst v)
  then show ?case
    by (cases "0x80 \<le> v")
      (simp_all add: appendULEB128.simps [of "xs @ dst" v] appendULEB128.simps [of dst v])
qed

lemma appendULEB128_Encode: "appendULEB128 dst v = dst @ EncodeULEB128 v"
  using appendULEB128_append [of dst "[]" v] by (simp add: EncodeULEB128_def)

lemma EncodeULEB128_big:
  "0x80 \<le> v \<Longrightarrow> EncodeULEB128 v = (0x80 OR ucast (v AND 0x7F)) # EncodeULEB128 (drop_bit 7 v)"
  by (simp only: EncodeULEB128_def [of v] appendULEB128.simps [of "[]" v] if_True)
    (simp add: appendULEB128_Encode)

lemma EncodeULEB128_small: "v < 0x80 \<Longrightarrow> EncodeULEB128 v = [ucast v]"
  by (simp add: EncodeULEB128_def appendULEB128.simps [of "[]" v] linorder_not_le [symmetric])

lemma EncodeULEB128_nonempty [simp]: "EncodeULEB128 v \<noteq> []"
  by (cases "0x80 \<le> v") (simp_all add: EncodeULEB128_big EncodeULEB128_small)

text \<open>Induction along the encoder's seven-bit groups.\<close>

lemma uleb_induct [case_names small big]:
  fixes v :: u32
  assumes "\<And>v. v < 0x80 \<Longrightarrow> P v"
    and "\<And>v. 0x80 \<le> v \<Longrightarrow> P (drop_bit 7 v) \<Longrightarrow> P v"
  shows "P v"
proof -
  have "P v" for dst :: bytes
  proof (induction dst v rule: appendULEB128.induct)
    case (1 dst v)
    then show ?case
      using assms by (cases "0x80 \<le> v") auto
  qed
  then show ?thesis by simp
qed

lemma unat_drop_bit7: "unat (drop_bit 7 (v :: u32)) = unat v div 128"
  by (simp only: unat_drop_bit_eq) (simp add: drop_bit_eq_div)

lemma length_EncodeULEB128_bound:
  "unat v < 2 ^ (7 * k) \<Longrightarrow> 0 < k \<Longrightarrow> length (EncodeULEB128 v) \<le> k"
proof (induction v arbitrary: k rule: uleb_induct)
  case (small v)
  then show ?case by (simp add: EncodeULEB128_small)
next
  case (big v)
  have "\<not> k \<le> 1"
    using big by (auto simp: word_le_nat_alt le_Suc_eq)
  then obtain j where k: "k = Suc j" and j: "0 < j"
    by (cases k) auto
  have "unat v < 2 ^ (7 * j) * 128"
    using big.prems(1) by (simp add: k power_add)
  then have "unat (drop_bit 7 v) < 2 ^ (7 * j)"
    by (simp add: unat_drop_bit7 less_mult_imp_div_less)
  from big.IH [OF this j] show ?case
    by (simp add: EncodeULEB128_big [OF big.hyps] k)
qed

lemma length_EncodeULEB128: "length (EncodeULEB128 v) \<le> 5"
proof (rule length_EncodeULEB128_bound)
  show "unat v < 2 ^ (7 * 5)"
    using unsigned_less [of v, where ?'a = nat] by simp
qed simp

section \<open>Lemmas on seven-bit groups\<close>

lemma and_7F: "w AND 0x7F = take_bit 7 w" for w :: "'a::len word"
  by (simp add: take_bit_eq_mask mask_eq_exp_minus_1)

lemma or_80: "0x80 OR w = set_bit 7 w" for w :: "'a::len word"
  by (simp add: set_bit_eq_or or.commute push_bit_eq_mult)

lemma byte_less_80_iff: "b < 0x80 \<longleftrightarrow> take_bit 7 b = b" for b :: u8
proof
  assume "b < 0x80"
  then show "take_bit 7 b = b"
    by (simp add: take_bit_eq_mod mod_word_less)
next
  assume "take_bit 7 b = b"
  then have "b = b mod 0x80"
    by (simp add: take_bit_eq_mod)
  also have "\<dots> < 0x80"
    by (rule word_mod_less_divisor) simp
  finally show "b < 0x80" .
qed

lemma group_payload: "(ucast ((0x80 OR ucast (v AND 0x7F) :: u8) AND 0x7F) :: u32) = v AND 0x7F"
  for v :: u32
  unfolding and_7F or_80 by (rule bit_word_eqI) (auto simp: bit_simps)

lemma group_value: "(b :: u8) < 0x80 \<Longrightarrow> ucast (b AND 0x7F) = (ucast b :: u32)"
  by (simp add: and_7F byte_less_80_iff)

lemma byte_bit7_iff: "bit b 7 \<longleftrightarrow> \<not> b < 0x80" for b :: u8
proof
  assume "bit b 7"
  then show "\<not> b < 0x80"
    unfolding byte_less_80_iff by (metis bit_take_bit_iff less_irrefl)
next
  assume hi: "\<not> b < 0x80"
  show "bit b 7"
  proof (rule ccontr)
    assume no: "\<not> bit b 7"
    have "take_bit 7 b = b"
    proof (rule bit_word_eqI)
      fix n assume "n < LENGTH(8)"
      then show "bit (take_bit 7 b) n = bit b n"
        using no by (cases "n = 7") (auto simp: bit_take_bit_iff)
    qed
    with hi show False
      by (simp add: byte_less_80_iff)
  qed
qed

lemma group_marked: "\<not> (0x80 OR ucast (v AND 0x7F) :: u8) < 0x80" for v :: u32
  unfolding byte_bit7_iff [symmetric] or_80 by (simp add: bit_simps)

lemma group_join: "(acc OR push_bit s (v AND 0x7F)) OR push_bit (s + 7) (drop_bit 7 v) = acc OR push_bit s v"
  for acc v :: u32
proof (rule bit_word_eqI)
  fix n
  show "bit ((acc OR push_bit s (v AND 0x7F)) OR push_bit (s + 7) (drop_bit 7 v)) n
      = bit (acc OR push_bit s v) n"
    unfolding and_7F by (cases "s + 7 \<le> n") (auto simp: bit_simps)
qed

text \<open>A byte with the continuation bit and the value \<open>w\<close> of the bytes after it make up a value
  whose encoding starts with that byte and goes on with the encoding of \<open>w\<close>.\<close>

lemma group_cons:
  fixes w :: u32 and b :: u8
  assumes hi: "\<not> b < 0x80" and w: "drop_bit 25 w = 0" "w \<noteq> 0"
  defines "v \<equiv> ucast (b AND 0x7F) OR push_bit 7 w"
  shows "0x80 \<le> v" and "(0x80 OR ucast (v AND 0x7F) :: u8) = b" and "drop_bit 7 v = w"
    and "v AND 0x7F = ucast (b AND 0x7F)"
proof -
  have w25: "m < 25" if "bit w m" for m
  proof (rule ccontr)
    assume "\<not> m < 25"
    then have "bit (drop_bit 25 w) (m - 25) = bit w m"
      by (simp add: bit_drop_bit_eq)
    with w(1) that show False by simp
  qed
  show d: "drop_bit 7 v = w"
    unfolding v_def and_7F by (rule bit_word_eqI) (auto simp: bit_simps dest: w25)
  show "v AND 0x7F = ucast (b AND 0x7F)"
    unfolding v_def and_7F by (rule bit_word_eqI) (auto simp: bit_simps)
  show "(0x80 OR ucast (v AND 0x7F) :: u8) = b"
  proof (rule bit_word_eqI)
    fix n assume n: "n < LENGTH(8)"
    show "bit (0x80 OR ucast (v AND 0x7F) :: u8) n = bit b n"
      unfolding or_80 v_def and_7F using n hi [folded byte_bit7_iff]
      by (cases "n = 7") (auto simp: bit_simps)
  qed
  have "unat v div 128 \<noteq> 0"
    using d w(2) by (metis unat_drop_bit7 unat_eq_zero)
  then show "0x80 \<le> v"
    by (simp add: word_le_nat_alt)
qed

section \<open>Lemmas on the decoder\<close>

lemma unat_ucast_u8: "unat (ucast x :: u32) = unat x" for x :: u8
  using unsigned_less [of x, where ?'a = nat] by (simp add: unsigned_ucast_eq take_bit_nat_eq_self)

lemma small_byte:
  fixes v :: u32
  assumes "v < 0x80"
  shows "(ucast v :: u8) < 0x80" and "ucast (ucast v :: u8) = v"
proof -
  have u: "unat (ucast v :: u8) = unat v"
    using assms by (simp add: unsigned_ucast_eq take_bit_nat_eq_self_iff word_less_nat_alt)
  show "(ucast v :: u8) < 0x80"
    using assms u by (simp add: word_less_nat_alt)
  show "ucast (ucast v :: u8) = v"
    by (metis u unat_ucast_u8 word_unat_eq_iff)
qed

text \<open>What fits into the groups that are left: the low group of a small value, and a large value only before the last group.\<close>

lemma group_fits: "drop_bit n v = 0 \<Longrightarrow> drop_bit n (ucast v :: u8) = 0" for v :: u32
proof (rule bit_word_eqI)
  fix m
  assume "drop_bit n v = 0"
  then have "\<not> bit (drop_bit n v) m" by simp
  then show "bit (drop_bit n (ucast v :: u8)) m = bit 0 m" by (simp add: bit_simps)
qed

lemma last_group:
  fixes v :: u32
  assumes "i \<le> 4" "drop_bit (32 - 7 * i) v = 0" "128 \<le> v"
  shows "i \<le> 3"
proof (rule ccontr)
  assume "\<not> i \<le> 3"
  with assms have "drop_bit 4 v = 0" by (auto simp: le_Suc_eq numeral_eq_Suc)
  then have "drop_bit 4 (unat v) = 0" by (metis unat_0 unat_drop_bit_eq)
  then have "unat v div 16 = 0" by (simp add: drop_bit_eq_div)
  with assms(3) show False by (simp add: word_le_nat_alt)
qed

lemma decode_loop_Encode:
  assumes "i \<le> 4" and "drop_bit (32 - 7 * i) v = 0" and "i = 0 \<or> v \<noteq> 0"
  shows "decode_loop i acc (7 * i) (EncodeULEB128 v @ rest)
    = Inr (acc OR push_bit (7 * i) v, i + length (EncodeULEB128 v))"
  using assms
proof (induction v arbitrary: i acc rule: uleb_induct)
  case (small v)
  note b = small_byte [OF small.hyps]
  note ov = group_fits [OF small.prems(2)]
  have nz: "(ucast v :: u8) = 0 \<Longrightarrow> v = 0"
    using b(2) by simp
  show ?case
    using small.prems b ov nz
    by (auto simp: EncodeULEB128_small [OF small.hyps] group_value valueBits_def)
next
  case (big v)
  have i: "i \<le> 3" by (rule last_group [OF big.prems(1,2) big.hyps])
  have d: "drop_bit (32 - 7 * Suc i) (drop_bit 7 v) = 0"
    using big.prems(2) i by (simp add: drop_bit_drop_bit)
  have "unat v div 128 \<noteq> 0"
    using big.hyps by (simp add: word_le_nat_alt)
  then have nz: "drop_bit 7 v \<noteq> 0"
    by (metis unat_drop_bit7 unat_0)
  have ih: "decode_loop (Suc i) (acc OR push_bit (7 * i) (v AND 0x7F)) (7 * Suc i)
      (EncodeULEB128 (drop_bit 7 v) @ rest)
    = Inr (acc OR push_bit (7 * i) v, Suc i + length (EncodeULEB128 (drop_bit 7 v)))"
    using big.IH [of "Suc i"] i d nz group_join [of acc "7 * i" v]
    by (simp add: add.commute)
  show ?case
    using ih i group_marked [of v]
    by (simp add: EncodeULEB128_big [OF big.hyps] group_payload Let_def add.commute)
qed

lemma EncodeULEB128_byte:
  fixes b :: u8
  assumes "b < 0x80"
  shows "EncodeULEB128 (ucast b) = [b]"
proof -
  have "(ucast b :: u32) < 0x80"
    using assms by (simp add: word_less_nat_alt unat_ucast_u8)
  moreover have "ucast (ucast b :: u32) = b"
    by (rule bit_word_eqI) (simp add: bit_simps)
  ultimately show ?thesis
    by (simp add: EncodeULEB128_small)
qed

lemma ucast_u8_drop_bit_0: "drop_bit k b = 0 \<Longrightarrow> drop_bit k (ucast b :: u32) = 0" for b :: u8
  by (metis unat_ucast_u8 unat_0 unat_drop_bit_eq word_unat_eq_iff)

lemma ucast_u8_eq_0: "(ucast b :: u32) = 0 \<longleftrightarrow> b = 0" for b :: u8
  by (metis unat_ucast_u8 unat_0 word_unat_eq_iff)

text \<open>One byte with the continuation bit in front of a canonical tail.\<close>

lemma canonical_cons:
  assumes hi: "\<not> b < 0x80" and i: "i \<le> 3" and n: "Suc i < n" "n - Suc i \<le> length bs"
    and tail: "take (n - Suc i) bs = EncodeULEB128 v'" "drop_bit (32 - 7 * Suc i) v' = 0" "v' \<noteq> 0"
  shows "\<exists>v. (acc OR push_bit (7 * i) (ucast (b AND 0x7F))) OR push_bit (7 * Suc i) v'
      = acc OR push_bit (7 * i) v \<and> take (n - i) (b # bs) = EncodeULEB128 v \<and>
    drop_bit (32 - 7 * i) v = 0 \<and> v \<noteq> 0"
proof -
  have "drop_bit (7 * i) (drop_bit (32 - 7 * Suc i) v') = 0"
    using tail(2) by simp
  then have d25: "drop_bit 25 v' = 0"
    using i by (simp add: drop_bit_drop_bit)
  define v :: u32 where "v = ucast (b AND 0x7F) OR push_bit 7 v'"
  note g = group_cons [OF hi d25 tail(3), folded v_def]
  have "n - i = Suc (n - Suc i)"
    using n(1) by simp
  then have "take (n - i) (b # bs) = EncodeULEB128 v"
    using EncodeULEB128_big [OF g(1)] g(2,3) tail(1) by simp
  moreover have "(acc OR push_bit (7 * i) (ucast (b AND 0x7F))) OR push_bit (7 * Suc i) v'
      = acc OR push_bit (7 * i) v"
    using group_join [of acc "7 * i" v] unfolding g(3,4) by (simp only: mult_Suc_right add.commute)
  moreover have "drop_bit (32 - 7 * i) v = drop_bit (32 - 7 * Suc i) (drop_bit 7 v)"
    using i by (simp add: drop_bit_drop_bit)
  moreover have "v \<noteq> 0"
    using g(1) by auto
  ultimately show ?thesis
    using g(3) tail(2) by auto
qed

lemma decode_loop_canonical:
  assumes "decode_loop i acc (7 * i) bs = Inr (w, n)" and "i \<le> 4"
  shows "\<exists>v. w = acc OR push_bit (7 * i) v \<and> i < n \<and> n - i \<le> length bs \<and>
    take (n - i) bs = EncodeULEB128 v \<and> drop_bit (32 - 7 * i) v = 0 \<and> (i = 0 \<or> v \<noteq> 0)"
  using assms
proof (induction bs arbitrary: i acc)
  case Nil
  then show ?case by simp
next
  case (Cons b bs)
  show ?case
  proof (cases "b < 0x80")
    case True
    then have "w = acc OR push_bit (7 * i) (ucast b)" "n = Suc i" "i = 0 \<or> b \<noteq> 0"
        "drop_bit (32 - 7 * i) b = 0"
      using Cons.prems by (auto simp: Let_def group_value valueBits_def split: if_splits)
    then show ?thesis
      using EncodeULEB128_byte [OF True]
      by (intro exI [of _ "ucast b"]) (simp add: ucast_u8_drop_bit_0 ucast_u8_eq_0)
  next
    case False
    then have i: "i \<le> 3" and rec: "decode_loop (Suc i)
        (acc OR push_bit (7 * i) (ucast (b AND 0x7F))) (7 * Suc i) bs = Inr (w, n)"
      using Cons.prems by (auto simp: Let_def add.commute split: if_splits)
    from Cons.IH [OF rec] i obtain v' where v':
        "w = (acc OR push_bit (7 * i) (ucast (b AND 0x7F))) OR push_bit (7 * Suc i) v'" "Suc i < n"
        "n - Suc i \<le> length bs" "take (n - Suc i) bs = EncodeULEB128 v'"
        "drop_bit (32 - 7 * Suc i) v' = 0" "v' \<noteq> 0"
      by auto
    from canonical_cons [OF False i v'(2-6), of acc] v'(1-3) show ?thesis
      by auto
  qed
qed

lemma DecodeULEB128_Encode: "DecodeULEB128 (EncodeULEB128 v @ rest) = Inr (v, length (EncodeULEB128 v))"
proof -
  have "drop_bit 32 v = 0"
    by (rule bit_word_eqI) (auto simp: bit_simps dest: bit_imp_le_length)
  then show ?thesis
    using decode_loop_Encode [of 0 v 0 rest] by (simp add: DecodeULEB128_def)
qed

lemma DecodeULEB128_canonical:
  assumes "DecodeULEB128 bs = Inr (v, n)"
  shows "n \<le> length bs \<and> take n bs = EncodeULEB128 v"
  using decode_loop_canonical [of 0 0 bs v n] assms
  by (auto simp: DecodeULEB128_def split: if_splits)

lemma DecodeULEB128_error: "DecodeULEB128 bs = Inl e \<Longrightarrow> e = ErrInvalidULEB128"
proof -
  have "decode_loop i value shift bs = Inl e \<Longrightarrow> e = ErrInvalidULEB128" for i "value" shift
    by (induction i "value" shift bs rule: decode_loop.induct) (auto simp: Let_def split: if_splits)
  then show "DecodeULEB128 bs = Inl e \<Longrightarrow> e = ErrInvalidULEB128"
    by (auto simp: DecodeULEB128_def split: if_splits)
qed

interpretation uleb: prefix_codec EncodeULEB128 DecodeULEB128
  by unfold_locales (simp_all add: DecodeULEB128_Encode DecodeULEB128_canonical)

section \<open>Properties\<close>

text \<open>C34 uleb128_decode_iff. \<open>DecodeULEB128\<close> accepts a byte string with value \<open>v\<close> and length \<open>n\<close> exactly when the
  string starts with the encoding of \<open>v\<close>, of length \<open>n\<close>: encoded values are read back whatever follows
  them, and no second encoding of a value (padded, or overflowing 32 bits) is accepted.\<close>

theorem uleb128_decode_iff:
  "DecodeULEB128 bs = Inr (v, n) \<longleftrightarrow>
     (\<exists>rest. bs = EncodeULEB128 v @ rest \<and> n = length (EncodeULEB128 v))"
  using uleb.dec_enc uleb.dec_split by (metis (no_types, lifting))

text \<open>A value below \<open>2 ^ (7 * k)\<close> takes at most \<open>k\<close> bytes, and no value takes more than the
  five bytes that the encoder's stack buffer and the decoder's loop allow.\<close>

theorem uleb128_length:
  assumes "0 < k" and "unat v < 2 ^ (7 * k)"
  shows "length (EncodeULEB128 v) \<le> min k 5"
  using length_EncodeULEB128_bound [OF assms(2,1)] length_EncodeULEB128 [of v] by simp

text \<open>Witness of \<open>uleb128_length\<close>: 300 takes two bytes.\<close>

theorem uleb128_length_witness:
  "(0 :: nat) < 2 \<and> unat (300 :: u32) < 2 ^ (7 * 2) \<and> length (EncodeULEB128 300) \<le> min 2 5"
proof -
  have "(0 :: nat) < 2" "unat (300 :: u32) < 2 ^ (7 * 2)" by simp_all
  with uleb128_length [OF this] show ?thesis by simp
qed

end
