(* ===== verification/Ranges.thy ===== *)
theory Ranges
  imports Uleb128
begin

text \<open>
  Unencrypted ranges: \<open>frame/ranges.go\<close>, the \<open>Range\<close> struct of \<open>frame/frame.go\<close>, and the two
  helpers \<open>buildAAD\<close> and \<open>appendInterleaved\<close> of \<open>frame/encrypt.go\<close> that walk a range list.

  The operations keep Go's \<open>int\<close> arithmetic (\<open>goint\<close>) and its bounds checks (\<open>None\<close> is a panic).
  Their specification is a mask over the frame's positions, \<open>True\<close> where a byte stays
  unencrypted: extracting is selecting the \<open>False\<close> positions, the additional data is the
  selection of the \<open>True\<close> ones, and interleaving overwrites the \<open>False\<close> positions in order.
\<close>

section \<open>Definitions\<close>

record Range =
  Offset :: int
  Length :: int

fun validate_loop :: "nat \<Rightarrow> int \<Rightarrow> Range list \<Rightarrow> int \<Rightarrow> frame_error + unit" where
  "validate_loop i prevEnd [] sz = Inr ()"
| "validate_loop i prevEnd (r # rs) sz =
     (if Offset r < 0 \<or> Length r < 0 then Inl ErrInvalidRanges
      else if goint (sz - Offset r) < Length r then Inl ErrInvalidRanges
      else if 0 < i \<and> Offset r < prevEnd then Inl ErrInvalidRanges
      else validate_loop (i + 1) (goint (Offset r + Length r)) rs sz)"

definition ValidateRanges :: "Range list \<Rightarrow> int \<Rightarrow> frame_error + unit" where
  "ValidateRanges ranges sz = validate_loop 0 0 ranges sz"

definition ContiguousPlaintextSize :: "int \<Rightarrow> Range list \<Rightarrow> int" where
  "ContiguousPlaintextSize frameSize ranges = foldl (\<lambda>sz r. goint (sz - Length r)) frameSize ranges"

text \<open>The loop that \<open>ReconstructPlaintext\<close> and \<open>appendInterleaved\<close> share: \<open>out\<close>, \<open>cipherPos\<close>
  and \<open>last\<close> are the loop variables, \<open>src\<close> the decrypted bytes or the ciphertext.\<close>

fun interleave_loop :: "bytes \<Rightarrow> int \<Rightarrow> int \<Rightarrow> Range list \<Rightarrow> bytes \<Rightarrow> (bytes \<times> int \<times> int) option" where
  "interleave_loop out cipherPos lst [] src = Some (out, cipherPos, lst)"
| "interleave_loop out cipherPos lst (r # rs) src =
     (if lst < Offset r then
        (let n = goint (Offset r - lst) in
         case go_slice src cipherPos (goint (cipherPos + n)) of
           None \<Rightarrow> None
         | Some seg \<Rightarrow>
             (case go_copy out lst (Offset r) seg of
                None \<Rightarrow> None
              | Some out' \<Rightarrow>
                  interleave_loop out' (goint (cipherPos + n)) (goint (Offset r + Length r)) rs src))
      else interleave_loop out cipherPos (goint (Offset r + Length r)) rs src)"

definition interleave_tail :: "bytes \<Rightarrow> int \<Rightarrow> int \<Rightarrow> bytes \<Rightarrow> bytes option" where
  "interleave_tail out cipherPos lst src =
     (if lst < int (length out) then
        (case go_slice src cipherPos (int (length src)) of
           None \<Rightarrow> None
         | Some seg \<Rightarrow> go_copy out lst (int (length out)) seg)
      else Some out)"

definition ReconstructPlaintext :: "bytes \<Rightarrow> bytes \<Rightarrow> Range list \<Rightarrow> bytes option" where
  "ReconstructPlaintext interleaved decrypted ranges =
     (case interleave_loop interleaved 0 0 ranges decrypted of
        None \<Rightarrow> None
      | Some (out, cipherPos, lst) \<Rightarrow> interleave_tail out cipherPos lst decrypted)"

definition appendInterleaved :: "bytes \<Rightarrow> bytes \<Rightarrow> Range list \<Rightarrow> bytes \<Rightarrow> bytes option" where
  "appendInterleaved dst original ranges ciphertext =
     (case interleave_loop original 0 0 ranges ciphertext of
        None \<Rightarrow> None
      | Some (out, cipherPos, lst) \<Rightarrow>
          map_option (\<lambda>out'. dst @ out') (interleave_tail out cipherPos lst ciphertext))"

fun extract_loop :: "bytes \<Rightarrow> bytes \<Rightarrow> int \<Rightarrow> Range list \<Rightarrow> (bytes \<times> int) option" where
  "extract_loop interleaved out lst [] = Some (out, lst)"
| "extract_loop interleaved out lst (r # rs) =
     (if lst < Offset r then
        (case go_slice interleaved lst (Offset r) of
           None \<Rightarrow> None
         | Some seg \<Rightarrow> extract_loop interleaved (out @ seg) (goint (Offset r + Length r)) rs)
      else extract_loop interleaved out (goint (Offset r + Length r)) rs)"

definition ExtractCiphertext :: "bytes \<Rightarrow> Range list \<Rightarrow> bytes option" where
  "ExtractCiphertext interleaved ranges =
     (if ContiguousPlaintextSize (int (length interleaved)) ranges < 0 then None
      else case extract_loop interleaved [] 0 ranges of
        None \<Rightarrow> None
      | Some (out, lst) \<Rightarrow>
          if lst < int (length interleaved) then
            map_option (\<lambda>seg. out @ seg) (go_slice interleaved lst (int (length interleaved)))
          else Some out)"

fun buildAAD_loop :: "bytes \<Rightarrow> bytes \<Rightarrow> Range list \<Rightarrow> bytes option" where
  "buildAAD_loop frame aad [] = Some aad"
| "buildAAD_loop frame aad (r # rs) =
     (case go_slice frame (Offset r) (goint (Offset r + Length r)) of
        None \<Rightarrow> None
      | Some seg \<Rightarrow> buildAAD_loop frame (aad @ seg) rs)"

definition buildAAD :: "bytes \<Rightarrow> Range list \<Rightarrow> bytes option" where
  "buildAAD frame ranges = buildAAD_loop frame [] ranges"

section \<open>Specification: masks over frame positions\<close>

text \<open>What \<open>ValidateRanges\<close> promises, in unbounded arithmetic.\<close>

fun ranges_wf :: "int \<Rightarrow> int \<Rightarrow> Range list \<Rightarrow> bool" where
  "ranges_wf lo sz [] \<longleftrightarrow> lo \<le> sz"
| "ranges_wf lo sz (r # rs) \<longleftrightarrow>
     lo \<le> Offset r \<and> 0 \<le> Length r \<and> ranges_wf (Offset r + Length r) sz rs"

definition range_fields :: "Range list \<Rightarrow> bool" where
  \<comment> \<open>the fields are Go ints\<close>
  "range_fields rs \<longleftrightarrow> list_all (\<lambda>r. in_goint (Offset r) \<and> in_goint (Length r)) rs"

fun range_mask :: "int \<Rightarrow> int \<Rightarrow> Range list \<Rightarrow> bool list" where
  "range_mask pos sz [] = replicate (nat (sz - pos)) False"
| "range_mask pos sz (r # rs) =
     replicate (nat (Offset r - pos)) False @ replicate (nat (Length r)) True @
     range_mask (Offset r + Length r) sz rs"

definition frame_mask :: "bytes \<Rightarrow> Range list \<Rightarrow> bool list" where
  "frame_mask frame rs = range_mask 0 (int (length frame)) rs"

definition mask_select :: "bool \<Rightarrow> bool list \<Rightarrow> 'a list \<Rightarrow> 'a list" where
  "mask_select keep ms xs = map snd (filter (\<lambda>(m, x). m = keep) (zip ms xs))"

fun mask_fill :: "bool list \<Rightarrow> 'a list \<Rightarrow> 'a list \<Rightarrow> 'a list" where
  "mask_fill (True # ms) (x # xs) src = x # mask_fill ms xs src"
| "mask_fill (False # ms) (x # xs) (y # ys) = y # mask_fill ms xs ys"
| "mask_fill ms xs src = xs"

section \<open>Lemmas on masks\<close>

lemma mask_select_Nil [simp]: "mask_select b [] xs = []" "mask_select b ms [] = []"
  by (simp_all add: mask_select_def)

lemma mask_select_Cons [simp]:
  "mask_select b (m # ms) (x # xs) = (if m = b then x # mask_select b ms xs else mask_select b ms xs)"
  by (simp add: mask_select_def)

lemma mask_select_append:
  "mask_select b (ms @ ns) xs = mask_select b ms xs @ mask_select b ns (drop (length ms) xs)"
proof (induction ms arbitrary: xs)
  case (Cons m ms)
  then show ?case by (cases xs) simp_all
qed simp

lemma mask_select_replicate:
  "mask_select b (replicate n m) xs = (if m = b then take n xs else [])"
proof (induction n arbitrary: xs)
  case (Suc n)
  then show ?case by (cases xs; cases m; cases b) simp_all
qed simp

lemma mask_fill_Nil [simp]: "mask_fill [] xs src = xs" "mask_fill ms [] src = []"
  by (cases ms; simp)+

lemma mask_fill_True_append:
  "n \<le> length xs \<Longrightarrow> mask_fill (replicate n True @ ms) xs src = take n xs @ mask_fill ms (drop n xs) src"
proof (induction n arbitrary: xs)
  case (Suc n)
  then show ?case by (cases xs) simp_all
qed simp

lemma mask_fill_False_append:
  "n \<le> length xs \<Longrightarrow> n \<le> length src \<Longrightarrow>
     mask_fill (replicate n False @ ms) xs src = take n src @ mask_fill ms (drop n xs) (drop n src)"
proof (induction n arbitrary: xs src)
  case (Suc n)
  then show ?case by (cases xs; cases src) simp_all
qed simp

lemma length_mask_fill [simp]: "length (mask_fill ms xs src) = length xs"
  by (induction ms xs src rule: mask_fill.induct) auto

lemma select_fill_True: "mask_select True ms (mask_fill ms xs src) = mask_select True ms xs"
  by (induction ms xs src rule: mask_fill.induct) auto

lemma select_fill_False:
  "length ms = length xs \<Longrightarrow> length src = length (mask_select False ms xs) \<Longrightarrow>
     mask_select False ms (mask_fill ms xs src) = src"
  by (induction ms xs src rule: mask_fill.induct) auto

lemma fill_restore:
  "length ms = length xs \<Longrightarrow> length src = length (mask_select False ms xs) \<Longrightarrow>
     mask_fill ms (mask_fill ms xs src) (mask_select False ms xs) = xs"
  by (induction ms xs src rule: mask_fill.induct) auto

lemma fill_select: "length ms = length xs \<Longrightarrow> mask_fill ms xs (mask_select False ms xs) = xs"
proof (induction ms arbitrary: xs)
  case (Cons m ms)
  then show ?case by (cases xs; cases m) simp_all
qed simp

lemma length_select_False: "length ms = length xs \<Longrightarrow>
    length (mask_select False ms xs) = length (filter Not ms)"
proof (induction ms arbitrary: xs)
  case (Cons m ms)
  then show ?case by (cases xs; cases m) simp_all
qed simp

section \<open>Lemmas on validated ranges\<close>

lemma ranges_wf_le: "ranges_wf lo sz rs \<Longrightarrow> lo \<le> sz"
  by (induction rs arbitrary: lo) force+

lemma ranges_wf_fields: "0 \<le> lo \<Longrightarrow> ranges_wf lo sz rs \<Longrightarrow> in_goint sz \<Longrightarrow> range_fields rs"
proof (induction rs arbitrary: lo)
  case (Cons r rs)
  then have "Offset r + Length r \<le> sz"
    using ranges_wf_le [of "Offset r + Length r" sz rs] by simp
  moreover have "range_fields rs"
    using Cons.prems by (intro Cons.IH [of "Offset r + Length r"]) auto
  ultimately show ?case
    using Cons.prems by (auto simp: range_fields_def in_goint_def)
qed (simp add: range_fields_def)

lemma validate_loop_iff:
  assumes "range_fields rs" and "0 \<le> sz" and "in_goint sz"
    and "0 \<le> prevEnd" and "prevEnd \<le> sz" and "i = 0 \<longrightarrow> prevEnd = 0"
  shows "validate_loop i prevEnd rs sz = Inr () \<longleftrightarrow> ranges_wf prevEnd sz rs"
  using assms
proof (induction rs arbitrary: i prevEnd)
  case Nil
  then show ?case by simp
next
  case (Cons r rs)
  show ?case
  proof (cases "0 \<le> Offset r \<and> 0 \<le> Length r \<and> Offset r + Length r \<le> sz")
    case True
    then have g: "goint (sz - Offset r) = sz - Offset r" "goint (Offset r + Length r) = Offset r + Length r"
      using Cons.prems by (auto intro!: goint_id intro: in_gointI in_goint_diff simp: in_goint_def)
    have "validate_loop (i + 1) (Offset r + Length r) rs sz = Inr ()
        \<longleftrightarrow> ranges_wf (Offset r + Length r) sz rs"
      using True Cons.prems by (intro Cons.IH) (auto simp: range_fields_def)
    then show ?thesis
      using True Cons.prems g by auto
  next
    case False
    then have "\<not> ranges_wf prevEnd sz (r # rs)"
      using Cons.prems ranges_wf_le by fastforce
    moreover have "goint (sz - Offset r) = sz - Offset r" if "0 \<le> Offset r"
      using that Cons.prems by (intro goint_id in_goint_diff) (auto simp: range_fields_def)
    ultimately show ?thesis
      using False by auto
  qed
qed

lemma ValidateRanges_wf:
  "range_fields rs \<Longrightarrow> 0 \<le> sz \<Longrightarrow> in_goint sz \<Longrightarrow>
     ValidateRanges rs sz = Inr () \<longleftrightarrow> ranges_wf 0 sz rs"
  unfolding ValidateRanges_def by (intro validate_loop_iff) simp_all

lemma validate_loop_error: "validate_loop i p rs sz = Inl e \<Longrightarrow> e = ErrInvalidRanges"
  by (induction i p rs sz rule: validate_loop.induct) (auto split: if_splits)

section \<open>The operations implement the mask specification\<close>

text \<open>One step of the walk: the arithmetic stays in range and the mask splits into the gap before
  the range, the range, and the rest.\<close>

lemma wf_step:
  assumes "0 \<le> lo" and "ranges_wf lo sz (r # rs)" and "in_goint sz"
  shows "lo \<le> Offset r" and "0 \<le> Length r" and "Offset r + Length r \<le> sz"
    and "ranges_wf (Offset r + Length r) sz rs"
    and "goint (Offset r + Length r) = Offset r + Length r" and "goint (Offset r - lo) = Offset r - lo"
proof -
  show w: "lo \<le> Offset r" "0 \<le> Length r" "ranges_wf (Offset r + Length r) sz rs"
    using assms(2) by auto
  show le: "Offset r + Length r \<le> sz"
    using w(3) by (rule ranges_wf_le)
  show "goint (Offset r + Length r) = Offset r + Length r" "goint (Offset r - lo) = Offset r - lo"
    using w le assms by (auto intro!: goint_id simp: in_goint_def)
qed

lemma length_range_mask:
  "0 \<le> lo \<Longrightarrow> ranges_wf lo sz rs \<Longrightarrow> length (range_mask lo sz rs) = nat (sz - lo)"
proof (induction rs arbitrary: lo)
  case (Cons r rs)
  have "Offset r + Length r \<le> sz"
    using Cons.prems ranges_wf_le [of "Offset r + Length r" sz rs] by simp
  moreover have "length (range_mask (Offset r + Length r) sz rs) = nat (sz - (Offset r + Length r))"
    using Cons.prems by (intro Cons.IH) auto
  ultimately show ?case
    using Cons.prems by auto
qed simp

lemma length_frame_mask:
  "ranges_wf 0 (int (length frame)) rs \<Longrightarrow> length (frame_mask frame rs) = length frame"
  using length_range_mask [of 0 "int (length frame)" rs] by (simp add: frame_mask_def)

lemma extract_loop_mask:
  assumes "0 \<le> lo" and "ranges_wf lo (int (length frame)) rs" and "in_goint (int (length frame))"
  shows "\<exists>out' lst. extract_loop frame out lo rs = Some (out', lst) \<and>
    lo \<le> lst \<and> lst \<le> int (length frame) \<and>
    out' @ drop (nat lst) frame
      = out @ mask_select False (range_mask lo (int (length frame)) rs) (drop (nat lo) frame)"
  using assms
proof (induction rs arbitrary: lo out)
  case Nil
  then show ?case
    by (simp add: mask_select_replicate)
next
  case (Cons r rs)
  note w = wf_step [OF Cons.prems]
  define seg where "seg = take (nat (Offset r - lo)) (drop (nat lo) frame)"
  have seg: "extract_loop frame out lo (r # rs)
      = extract_loop frame (out @ seg) (Offset r + Length r) rs"
    using w Cons.prems(1) by (auto simp: go_slice_def seg_def)
  have split: "mask_select False (range_mask lo (int (length frame)) (r # rs)) (drop (nat lo) frame)
      = seg @ mask_select False (range_mask (Offset r + Length r) (int (length frame)) rs)
          (drop (nat (Offset r + Length r)) frame)"
    using w Cons.prems(1)
    by (simp add: mask_select_append mask_select_replicate seg_def nat_diff_distrib' nat_add_distrib add.commute)
  have "\<exists>out' lst. extract_loop frame (out @ seg) (Offset r + Length r) rs = Some (out', lst) \<and>
      Offset r + Length r \<le> lst \<and> lst \<le> int (length frame) \<and>
      out' @ drop (nat lst) frame = (out @ seg) @
        mask_select False (range_mask (Offset r + Length r) (int (length frame)) rs)
          (drop (nat (Offset r + Length r)) frame)"
    using w Cons.prems by (intro Cons.IH) auto
  then show ?case
    using w unfolding seg split by auto
qed

lemma ContiguousPlaintextSize_bounds:
  assumes "0 \<le> lo" and "ranges_wf lo sz rs" and "in_goint sz" and "sz - lo \<le> n" and "n \<le> sz"
  shows "0 \<le> ContiguousPlaintextSize n rs"
  using assms
proof (induction rs arbitrary: lo n)
  case Nil
  then show ?case by (simp add: ContiguousPlaintextSize_def)
next
  case (Cons r rs)
  note w = wf_step [OF Cons.prems(1-3)]
  have "goint (n - Length r) = n - Length r"
    using w Cons.prems by (intro goint_id) (auto simp: in_goint_def)
  moreover have "0 \<le> ContiguousPlaintextSize (n - Length r) rs"
    using w Cons.prems by (intro Cons.IH [of "Offset r + Length r"]) auto
  ultimately show ?case
    by (simp add: ContiguousPlaintextSize_def)
qed

lemma ExtractCiphertext_mask:
  assumes wf: "ranges_wf 0 (int (length frame)) rs" and sz: "in_goint (int (length frame))"
  shows "ExtractCiphertext frame rs = Some (mask_select False (frame_mask frame rs) frame)"
proof -
  obtain out lst where l: "extract_loop frame [] 0 rs = Some (out, lst)" "0 \<le> lst"
      "lst \<le> int (length frame)"
      "out @ drop (nat lst) frame = mask_select False (frame_mask frame rs) frame"
    using extract_loop_mask [OF _ wf sz, of "[]"] by (auto simp: frame_mask_def)
  have "0 \<le> ContiguousPlaintextSize (int (length frame)) rs"
    using ContiguousPlaintextSize_bounds [OF _ wf sz] by simp
  then show ?thesis
    using l by (auto simp: ExtractCiphertext_def go_slice_def)
qed

lemma buildAAD_loop_mask:
  assumes "0 \<le> lo" and "ranges_wf lo (int (length frame)) rs" and "in_goint (int (length frame))"
  shows "buildAAD_loop frame aad rs
    = Some (aad @ mask_select True (range_mask lo (int (length frame)) rs) (drop (nat lo) frame))"
  using assms
proof (induction rs arbitrary: lo aad)
  case Nil
  then show ?case by (simp add: mask_select_replicate)
next
  case (Cons r rs)
  note w = wf_step [OF Cons.prems]
  show ?case
    using w Cons.prems Cons.IH [of "Offset r + Length r"]
    by (simp add: go_slice_def mask_select_append mask_select_replicate nat_diff_distrib'
        nat_add_distrib add.commute)
qed

lemma buildAAD_mask:
  assumes "ranges_wf 0 (int (length frame)) rs" and "in_goint (int (length frame))"
  shows "buildAAD frame rs = Some (mask_select True (frame_mask frame rs) frame)"
  using buildAAD_loop_mask [OF _ assms, of "[]"] by (simp add: buildAAD_def frame_mask_def)

text \<open>The interleaving walk, with \<open>don\<close> the part of the buffer behind \<open>last\<close>, \<open>gap\<close> the bytes up
  to the next range and \<open>mid\<close> the range itself.\<close>

lemma interleave_tail_all:
  assumes "length rest = length src - c" and "c \<le> length src"
  shows "interleave_tail (don @ rest) (int c) (int (length don)) src = Some (don @ drop c src)"
proof (cases "rest = []")
  case True
  then show ?thesis
    using assms by (simp add: interleave_tail_def)
next
  case False
  have "go_slice src (int c) (int (length src)) = Some (drop c src)"
    using assms(2) by (simp add: go_slice_def nat_diff_distrib')
  moreover have "go_copy (don @ rest) (int (length don)) (int (length (don @ rest))) (drop c src)
      = Some (don @ drop c src)"
    using go_copy_mid [of "int (length don)" don "int (length (don @ rest))" rest "drop c src" "[]"] assms
    by simp
  ultimately show ?thesis
    using False by (simp add: interleave_tail_def)
qed

lemma interleave_step:
  assumes "Offset r = int (length don + length gap)" and "Length r = int (length mid)"
    and "length gap \<le> length src - c" and "c \<le> length src"
    and "in_goint (int (length don + length gap + length mid))" and "in_goint (int (length src))"
  shows "interleave_loop (don @ gap @ mid @ rest) (int c) (int (length don)) (r # rs) src
    = interleave_loop ((don @ take (length gap) (drop c src) @ mid) @ rest) (int (c + length gap))
        (int (length (don @ take (length gap) (drop c src) @ mid))) rs src"
proof -
  have g: "goint (Offset r + Length r) = int (length don) + int (length gap) + int (length mid)"
      "goint (Offset r - int (length don)) = int (length gap)"
      "goint (int c + int (length gap)) = int c + int (length gap)"
    using assms by (auto intro!: goint_id simp: in_goint_def)
  have sl: "go_slice src (int c) (int c + int (length gap)) = Some (take (length gap) (drop c src))"
    using assms(3,4) by (simp add: go_slice_def)
  have cp: "go_copy (don @ gap @ mid @ rest) (int (length don)) (Offset r) (take (length gap) (drop c src))
      = Some (don @ take (length gap) (drop c src) @ mid @ rest)"
    using assms(1,3) by (intro go_copy_mid) auto
  have len: "int (length (don @ take (length gap) (drop c src) @ mid))
      = int (length don) + int (length gap) + int (length mid)"
    using assms(3) by simp
  show ?thesis
  proof (cases "gap = []")
    case True
    then show ?thesis
      using assms(1) g(1) len by simp
  next
    case False
    then have "int (length don) < Offset r"
      using assms(1) by simp
    then show ?thesis
      unfolding interleave_loop.simps Let_def g len by (simp add: g sl cp)
  qed
qed

text \<open>The first of the remaining ranges splits what is left of the frame: the gap before it, its bytes, the rest.\<close>

lemma first_range:
  fixes don rest :: bytes
  assumes "ranges_wf (int (length don)) (int (length don + length rest)) (r # rs)" "in_goint (int (length don + length rest))"
  obtains gap mid rest' where "rest = gap @ mid @ rest'" "Offset r = int (length don + length gap)" "Length r = int (length mid)"
    "ranges_wf (int (length don + length gap + length mid)) (int (length don + length rest)) rs"
proof -
  note w = wf_step [OF of_nat_0_le_iff assms]
  obtain gap mid rest' where rest: "rest = gap @ mid @ rest'" "length gap = nat (Offset r - int (length don))" "length mid = nat (Length r)"
    using w by (auto intro: list_split3 [of "nat (Offset r - int (length don))" "nat (Length r)" rest])
  then have off: "Offset r = int (length don + length gap)" "Length r = int (length mid)" using w by auto
  show thesis by (rule that [OF rest(1) off]) (use w(4) off in \<open>simp only: of_nat_add\<close>)
qed

lemma interleave_loop_mask:
  fixes don rest src :: bytes
  defines "sz \<equiv> int (length don + length rest)"
  assumes "ranges_wf (int (length don)) sz rs" and "in_goint sz" and "in_goint (int (length src))"
    and "length (mask_select False (range_mask (int (length don)) sz rs) rest) = length src - c"
    and "c \<le> length src"
  shows "\<exists>out cipherPos lst.
    interleave_loop (don @ rest) (int c) (int (length don)) rs src = Some (out, cipherPos, lst) \<and>
    interleave_tail out cipherPos lst src
      = Some (don @ mask_fill (range_mask (int (length don)) sz rs) rest (drop c src))"
  using assms(2-6) unfolding sz_def
proof (induction rs arbitrary: don rest c)
  case Nil
  then have len: "length rest = length src - c"
    by (simp add: mask_select_replicate)
  then have "mask_fill (replicate (length rest) False) rest (drop c src) = drop c src"
    using mask_fill_False_append [of "length rest" rest "drop c src" "[]"] by simp
  then show ?case
    using interleave_tail_all [OF len Nil.prems(5)] by simp
next
  case (Cons r rs)
  from Cons.prems(1,2) obtain gap mid rest' where rest: "rest = gap @ mid @ rest'"
      and off: "Offset r = int (length don + length gap)" "Length r = int (length mid)"
      and w: "ranges_wf (int (length don + length gap + length mid)) (int (length don + length rest)) rs"
    by (rule first_range)
  let ?don' = "don @ take (length gap) (drop c src) @ mid"
  have m: "range_mask (int (length don)) (int (length don + length rest)) (r # rs)
      = replicate (length gap) False @ replicate (length mid) True @
        range_mask (int (length don + length gap + length mid)) (int (length don + length rest)) rs"
    by (simp add: off add.assoc)
  have n: "length gap + length (mask_select False (range_mask (int (length don + length gap + length mid))
      (int (length don + length rest)) rs) rest') = length src - c"
    using Cons.prems(4) unfolding m by (simp add: rest mask_select_append mask_select_replicate)
  have l: "length ?don' = length don + length gap + length mid"
      "length ?don' + length rest' = length don + length rest"
    using n by (auto simp: rest)
  have "ranges_wf (int (length ?don')) (int (length ?don' + length rest')) rs"
    using w unfolding l(2) unfolding l(1) .
  moreover have "in_goint (int (length ?don' + length rest'))"
    using Cons.prems(2) unfolding l(2) .
  moreover have "length (mask_select False (range_mask (int (length ?don'))
      (int (length ?don' + length rest')) rs) rest') = length src - (c + length gap)"
    unfolding l(2) unfolding l(1) using n by simp
  moreover have "c + length gap \<le> length src"
    using n Cons.prems(5) by simp
  ultimately have "\<exists>out cipherPos lst.
      interleave_loop (?don' @ rest') (int (c + length gap)) (int (length ?don')) rs src
        = Some (out, cipherPos, lst) \<and> interleave_tail out cipherPos lst src
        = Some (?don' @ mask_fill (range_mask (int (length ?don')) (int (length ?don' + length rest')) rs)
            rest' (drop (c + length gap) src))"
    using Cons.prems(3) by (intro Cons.IH)
  moreover have "interleave_loop (don @ rest) (int c) (int (length don)) (r # rs) src
      = interleave_loop (?don' @ rest') (int (c + length gap)) (int (length ?don')) rs src"
    unfolding rest using Cons.prems n off
    by (intro interleave_step) (auto simp: in_goint_def rest)
  moreover have "mask_fill (range_mask (int (length don)) (int (length don + length rest)) (r # rs)) rest (drop c src)
      = take (length gap) (drop c src) @ mid @ mask_fill (range_mask (int (length ?don'))
          (int (length ?don' + length rest')) rs) rest' (drop (c + length gap) src)"
    unfolding m l(2) unfolding l(1) using n
    by (simp add: rest mask_fill_False_append mask_fill_True_append add.commute)
  ultimately show ?case
    by simp
qed

lemma ReconstructPlaintext_mask:
  assumes "ranges_wf 0 (int (length frame)) rs" and "in_goint (int (length frame))"
    and "length src = length (mask_select False (frame_mask frame rs) frame)"
  shows "ReconstructPlaintext frame src rs = Some (mask_fill (frame_mask frame rs) frame src)"
proof -
  have "length src \<le> length frame"
    using assms(3) length_filter_le [of _ "zip (frame_mask frame rs) frame"]
    by (simp add: mask_select_def)
  then have "in_goint (int (length src))"
    using assms(2) by (simp add: in_goint_def)
  from interleave_loop_mask [of "[]" frame rs src 0] this assms show ?thesis
    by (auto simp: ReconstructPlaintext_def frame_mask_def)
qed

lemma appendInterleaved_Reconstruct:
  "appendInterleaved dst frame rs src = map_option (\<lambda>out. dst @ out) (ReconstructPlaintext frame src rs)"
  by (simp add: appendInterleaved_def ReconstructPlaintext_def split: option.split)

section \<open>The layout interface\<close>

text \<open>
  What the frame transforms rely on: on valid ranges the encrypted bytes of a frame can be taken
  out and any byte string of that length can be put in their place, which changes neither the
  additional data nor the frame's length and can be undone.
\<close>

locale interleaving =
  fixes valid :: "'r \<Rightarrow> nat \<Rightarrow> bool"
    and take_out :: "bytes \<Rightarrow> 'r \<Rightarrow> bytes option"
    and aad :: "bytes \<Rightarrow> 'r \<Rightarrow> bytes option"
    and weave :: "bytes \<Rightarrow> bytes \<Rightarrow> 'r \<Rightarrow> bytes option"
  assumes take_out_total: "valid rs (length f) \<Longrightarrow> \<exists>c. take_out f rs = Some c"
    and aad_total: "valid rs (length f) \<Longrightarrow> \<exists>a. aad f rs = Some a"
    and weave_total: "valid rs (length f) \<Longrightarrow> take_out f rs = Some c \<Longrightarrow> length c' = length c \<Longrightarrow>
      \<exists>g. weave f c' rs = Some g"
    and weave_laws: "valid rs (length f) \<Longrightarrow> take_out f rs = Some c \<Longrightarrow> length c' = length c \<Longrightarrow>
      weave f c' rs = Some g \<Longrightarrow>
      length g = length f \<and> take_out g rs = Some c' \<and> aad g rs = aad f rs \<and> weave g c rs = Some f"
begin

lemma weaveE:
  assumes "valid rs (length f)" and "take_out f rs = Some c" and "length c' = length c"
  obtains g where "weave f c' rs = Some g" and "length g = length f" and "take_out g rs = Some c'"
    and "aad g rs = aad f rs" and "weave g c rs = Some f"
  using weave_total [OF assms] weave_laws [OF assms] by blast

text \<open>Filling in and taking out determine each other, so a frame is its three parts.\<close>

lemma weave_swap:
  assumes "valid rs (length f)" and "take_out f rs = Some c" and "length c' = length c"
    and "weave f c' rs = Some g"
  shows "weave g c rs = Some f \<and> take_out g rs = Some c' \<and> length g = length f"
  using weave_laws [OF assms] by simp

end

definition layout_valid :: "Range list \<Rightarrow> nat \<Rightarrow> bool" where
  "layout_valid rs n \<longleftrightarrow> ranges_wf 0 (int n) rs \<and> in_goint (int n)"

lemma frame_mask_length_cong: "length f = length g \<Longrightarrow> frame_mask f rs = frame_mask g rs"
  by (simp add: frame_mask_def)

interpretation layout: interleaving layout_valid ExtractCiphertext buildAAD ReconstructPlaintext
proof
  fix rs and f :: bytes
  assume v: "layout_valid rs (length f)"
  then have wf: "ranges_wf 0 (int (length f)) rs" "in_goint (int (length f))"
    by (simp_all add: layout_valid_def)
  show "\<exists>c. ExtractCiphertext f rs = Some c" "\<exists>a. buildAAD f rs = Some a"
    by (simp_all add: ExtractCiphertext_mask buildAAD_mask wf)
  fix c c' g :: bytes
  assume c: "ExtractCiphertext f rs = Some c" "length c' = length c"
  then have c': "c = mask_select False (frame_mask f rs) f"
    by (simp add: ExtractCiphertext_mask wf)
  note len = length_frame_mask [OF wf(1)]
  show "\<exists>g. ReconstructPlaintext f c' rs = Some g"
    using c c' by (simp add: ReconstructPlaintext_mask wf)
  assume "ReconstructPlaintext f c' rs = Some g"
  then have g: "g = mask_fill (frame_mask f rs) f c'"
    using c c' by (simp add: ReconstructPlaintext_mask wf)
  then have lg: "length g = length f" and mg: "frame_mask g rs = frame_mask f rs"
    by (simp_all add: frame_mask_def)
  then have wg: "ranges_wf 0 (int (length g)) rs" "in_goint (int (length g))"
    using wf by simp_all
  have sel: "mask_select False (frame_mask f rs) g = c'"
    using c c' g len by (simp add: select_fill_False)
  have "ExtractCiphertext g rs = Some c'"
    using sel by (simp add: ExtractCiphertext_mask [OF wg] mg)
  moreover have "buildAAD g rs = buildAAD f rs"
    by (simp add: buildAAD_mask [OF wg] buildAAD_mask [OF wf] mg) (simp add: g select_fill_True)
  moreover have "ReconstructPlaintext g c rs = Some f"
    using ReconstructPlaintext_mask [OF wg, of c] c sel
    by (simp add: mg) (use c c' g len in \<open>simp add: fill_restore\<close>)
  ultimately show "length g = length f \<and> ExtractCiphertext g rs = Some c' \<and>
      buildAAD g rs = buildAAD f rs \<and> ReconstructPlaintext g c rs = Some f"
    using lg by simp
qed

section \<open>Validated ranges, declaratively\<close>

lemma ranges_wf_iff:
  "ranges_wf lo sz rs \<longleftrightarrow> lo \<le> sz \<and>
     (\<forall>r\<in>set rs. lo \<le> Offset r \<and> 0 \<le> Length r \<and> Offset r + Length r \<le> sz) \<and>
     sorted_wrt (\<lambda>a b. Offset a + Length a \<le> Offset b) rs"
proof (induction rs arbitrary: lo)
  case (Cons r rs)
  show ?case
    unfolding ranges_wf.simps Cons.IH by (auto; force)
qed simp

lemma sorted_ranges_wf:
  "0 \<le> sz \<Longrightarrow> ranges_wf 0 sz rs \<longleftrightarrow>
     (\<forall>r\<in>set rs. 0 \<le> Offset r \<and> 0 \<le> Length r \<and> Offset r + Length r \<le> sz) \<and>
     sorted_wrt (\<lambda>a b. Offset a + Length a \<le> Offset b) rs"
  by (simp add: ranges_wf_iff)

section \<open>Properties\<close>

text \<open>C35 validate_ranges_iff. With any 64-bit fields, even ones whose sum overflows, \<open>ValidateRanges\<close> accepts exactly
  the range lists that are within the frame, in ascending order and free of overlap: each range ends
  before the next one starts. Empty ranges satisfy this with an equal one next to them, so that a
  list may contain an empty range twice, although the comment on the function and the protocol ask
  for distinct ranges.\<close>

theorem validate_ranges_iff:
  assumes "range_fields rs" and "0 \<le> sz" and "in_goint sz"
  shows "ValidateRanges rs sz = Inr () \<longleftrightarrow>
    (\<forall>r\<in>set rs. 0 \<le> Offset r \<and> 0 \<le> Length r \<and> Offset r + Length r \<le> sz) \<and>
    sorted_wrt (\<lambda>a b. Offset a + Length a \<le> Offset b) rs"
  using assms by (simp add: ValidateRanges_wf sorted_ranges_wf)

text \<open>Witness of \<open>validate_ranges_iff\<close>: a range whose end overflows is rejected, two adjacent ranges
  are accepted, and so is an empty range that occurs twice.\<close>

theorem validate_ranges_iff_witness:
  "ValidateRanges [\<lparr>Offset = 2 ^ 63 - 1, Length = 2 ^ 63 - 1\<rparr>] 10 \<noteq> Inr () \<and>
   ValidateRanges [\<lparr>Offset = 0, Length = 4\<rparr>, \<lparr>Offset = 4, Length = 6\<rparr>] 10 = Inr () \<and>
   ValidateRanges [\<lparr>Offset = 4, Length = 0\<rparr>, \<lparr>Offset = 4, Length = 0\<rparr>] 10 = Inr ()"
  using validate_ranges_iff [of "[\<lparr>Offset = 2 ^ 63 - 1, Length = 2 ^ 63 - 1\<rparr>]" 10]
    validate_ranges_iff [of "[\<lparr>Offset = 0, Length = 4\<rparr>, \<lparr>Offset = 4, Length = 6\<rparr>]" 10]
    validate_ranges_iff [of "[\<lparr>Offset = 4, Length = 0\<rparr>, \<lparr>Offset = 4, Length = 0\<rparr>]" 10]
  by (simp add: range_fields_def in_goint_def)

text \<open>C36 ranges_refine_mask. On ranges that pass validation none of the range walks panics, and each computes its
  mask specification: \<open>ExtractCiphertext\<close> the bytes outside the ranges, \<open>buildAAD\<close> the bytes inside
  them, \<open>appendInterleaved\<close> and \<open>ReconstructPlaintext\<close> the frame with the outside bytes replaced.\<close>

theorem ranges_refine_mask:
  assumes "ValidateRanges rs (int (length f)) = Inr ()" and "range_fields rs"
    and "in_goint (int (length f))" and "length c = length (mask_select False (frame_mask f rs) f)"
  shows "ExtractCiphertext f rs = Some (mask_select False (frame_mask f rs) f) \<and>
    buildAAD f rs = Some (mask_select True (frame_mask f rs) f) \<and>
    ReconstructPlaintext f c rs = Some (mask_fill (frame_mask f rs) f c) \<and>
    appendInterleaved dst f rs c = Some (dst @ mask_fill (frame_mask f rs) f c)"
  using assms
  by (simp add: ValidateRanges_wf ExtractCiphertext_mask buildAAD_mask ReconstructPlaintext_mask
      appendInterleaved_Reconstruct)

text \<open>Witness of \<open>ranges_refine_mask\<close>: a four-byte frame whose second byte is in the clear.\<close>

theorem ranges_refine_mask_witness:
  "ExtractCiphertext [10, 20, 30, 40] [\<lparr>Offset = 1, Length = 1\<rparr>] = Some [10, 30, 40] \<and>
   buildAAD [10, 20, 30, 40] [\<lparr>Offset = 1, Length = 1\<rparr>] = Some [20] \<and>
   ReconstructPlaintext [10, 20, 30, 40] [7, 8, 9] [\<lparr>Offset = 1, Length = 1\<rparr>] = Some [7, 20, 8, 9] \<and>
   appendInterleaved [1] [10, 20, 30, 40] [\<lparr>Offset = 1, Length = 1\<rparr>] [7, 8, 9] = Some [1, 7, 20, 8, 9]"
  using ranges_refine_mask [of "[\<lparr>Offset = 1, Length = 1\<rparr>]" "[10, 20, 30, 40]" "[7, 8, 9]" "[1]"]
  by (simp add: ValidateRanges_def in_goint_def range_fields_def frame_mask_def mask_select_def numeral_eq_Suc)

end
