(* ===== verification/Std_Crypto.thy ===== *)
theory Std_Crypto
  imports Dave_Prelude
begin

text \<open>
  The part of Go's standard library that \<open>frame/gcm8.go\<close> calls: \<open>crypto/aes\<close> (the block cipher
  of FIPS 197, for its three key sizes) and \<open>crypto/cipher\<close>'s GCM (NIST SP 800-38D, 96-bit
  nonces and 16-byte tags). Both are written out, so the frame theorems rest on no assumption
  about the cipher. What the frame code needs of GCM is the interface \<open>stream_aead\<close>: the
  ciphertext is the plaintext combined with a key stream that depends on the nonce alone, and the
  tag is a function of nonce, ciphertext and additional data.

  GCM refuses plaintexts above 64 GiB with a panic; that limit is not modelled.
\<close>

section \<open>Definitions: AES\<close>

definition xor_bytes :: "bytes \<Rightarrow> bytes \<Rightarrow> bytes" where
  "xor_bytes xs ys = map2 (XOR) xs ys"

definition sbox :: bytes where
  "sbox =
    [0x63, 0x7c, 0x77, 0x7b, 0xf2, 0x6b, 0x6f, 0xc5, 0x30, 0x01, 0x67, 0x2b, 0xfe, 0xd7, 0xab, 0x76,
     0xca, 0x82, 0xc9, 0x7d, 0xfa, 0x59, 0x47, 0xf0, 0xad, 0xd4, 0xa2, 0xaf, 0x9c, 0xa4, 0x72, 0xc0,
     0xb7, 0xfd, 0x93, 0x26, 0x36, 0x3f, 0xf7, 0xcc, 0x34, 0xa5, 0xe5, 0xf1, 0x71, 0xd8, 0x31, 0x15,
     0x04, 0xc7, 0x23, 0xc3, 0x18, 0x96, 0x05, 0x9a, 0x07, 0x12, 0x80, 0xe2, 0xeb, 0x27, 0xb2, 0x75,
     0x09, 0x83, 0x2c, 0x1a, 0x1b, 0x6e, 0x5a, 0xa0, 0x52, 0x3b, 0xd6, 0xb3, 0x29, 0xe3, 0x2f, 0x84,
     0x53, 0xd1, 0x00, 0xed, 0x20, 0xfc, 0xb1, 0x5b, 0x6a, 0xcb, 0xbe, 0x39, 0x4a, 0x4c, 0x58, 0xcf,
     0xd0, 0xef, 0xaa, 0xfb, 0x43, 0x4d, 0x33, 0x85, 0x45, 0xf9, 0x02, 0x7f, 0x50, 0x3c, 0x9f, 0xa8,
     0x51, 0xa3, 0x40, 0x8f, 0x92, 0x9d, 0x38, 0xf5, 0xbc, 0xb6, 0xda, 0x21, 0x10, 0xff, 0xf3, 0xd2,
     0xcd, 0x0c, 0x13, 0xec, 0x5f, 0x97, 0x44, 0x17, 0xc4, 0xa7, 0x7e, 0x3d, 0x64, 0x5d, 0x19, 0x73,
     0x60, 0x81, 0x4f, 0xdc, 0x22, 0x2a, 0x90, 0x88, 0x46, 0xee, 0xb8, 0x14, 0xde, 0x5e, 0x0b, 0xdb,
     0xe0, 0x32, 0x3a, 0x0a, 0x49, 0x06, 0x24, 0x5c, 0xc2, 0xd3, 0xac, 0x62, 0x91, 0x95, 0xe4, 0x79,
     0xe7, 0xc8, 0x37, 0x6d, 0x8d, 0xd5, 0x4e, 0xa9, 0x6c, 0x56, 0xf4, 0xea, 0x65, 0x7a, 0xae, 0x08,
     0xba, 0x78, 0x25, 0x2e, 0x1c, 0xa6, 0xb4, 0xc6, 0xe8, 0xdd, 0x74, 0x1f, 0x4b, 0xbd, 0x8b, 0x8a,
     0x70, 0x3e, 0xb5, 0x66, 0x48, 0x03, 0xf6, 0x0e, 0x61, 0x35, 0x57, 0xb9, 0x86, 0xc1, 0x1d, 0x9e,
     0xe1, 0xf8, 0x98, 0x11, 0x69, 0xd9, 0x8e, 0x94, 0x9b, 0x1e, 0x87, 0xe9, 0xce, 0x55, 0x28, 0xdf,
     0x8c, 0xa1, 0x89, 0x0d, 0xbf, 0xe6, 0x42, 0x68, 0x41, 0x99, 0x2d, 0x0f, 0xb0, 0x54, 0xbb, 0x16]"

definition sub_byte :: "u8 \<Rightarrow> u8" where
  "sub_byte b = sbox ! unat b"

definition xtime :: "u8 \<Rightarrow> u8" where
  "xtime b = push_bit 1 b XOR (if bit b 7 then 0x1b else 0)"

definition add_round_key :: "bytes \<Rightarrow> bytes \<Rightarrow> bytes" where
  "add_round_key s rk = map (\<lambda>i. s ! i XOR rk ! i) [0..<16]"

definition sub_bytes :: "bytes \<Rightarrow> bytes" where
  "sub_bytes s = map sub_byte s"

text \<open>The state is column-major: byte \<open>4 * c + r\<close> is row \<open>r\<close> of column \<open>c\<close>.\<close>

definition shift_rows :: "bytes \<Rightarrow> bytes" where
  "shift_rows s = map (\<lambda>i. s ! (4 * ((i div 4 + i mod 4) mod 4) + i mod 4)) [0..<16]"

definition mix_columns :: "bytes \<Rightarrow> bytes" where
  "mix_columns s = map (\<lambda>i.
     let c = 4 * (i div 4);
         a = (\<lambda>k. s ! (c + (i + k) mod 4))
     in xtime (a 0) XOR (xtime (a 1) XOR a 1) XOR a 2 XOR a 3) [0..<16]"

definition rot_word :: "bytes \<Rightarrow> bytes" where
  "rot_word w = tl w @ [hd w]"

primrec rcon :: "nat \<Rightarrow> u8" where
  "rcon 0 = 0x8d"
| "rcon (Suc n) = xtime (rcon n)"

primrec expand_key :: "nat \<Rightarrow> nat \<Rightarrow> bytes list \<Rightarrow> bytes list" where
  "expand_key nk 0 ws = ws"
| "expand_key nk (Suc n) ws =
     (let i = length ws;
          t = ws ! (i - 1);
          t' = (if i mod nk = 0 then xor_bytes (map sub_byte (rot_word t)) [rcon (i div nk), 0, 0, 0]
                else if 6 < nk \<and> i mod nk = 4 then map sub_byte t
                else t)
      in expand_key nk n (ws @ [xor_bytes (ws ! (i - nk)) t']))"

definition key_words :: "bytes \<Rightarrow> bytes list" where
  "key_words key = map (\<lambda>i. take 4 (drop (4 * i) key)) [0..<length key div 4]"

definition round_keys :: "bytes \<Rightarrow> bytes list" where
  "round_keys key =
     (let nk = length key div 4;
          ws = expand_key nk (4 * (nk + 7) - nk) (key_words key)
      in map (\<lambda>r. concat (take 4 (drop (4 * r) ws))) [0..<nk + 7])"

definition aes_round :: "bytes \<Rightarrow> bytes \<Rightarrow> bytes" where
  "aes_round s rk = add_round_key (mix_columns (shift_rows (sub_bytes s))) rk"

definition aes_encrypt :: "bytes \<Rightarrow> bytes \<Rightarrow> bytes" where
  "aes_encrypt key block =
     (let rks = round_keys key;
          s = foldl aes_round (add_round_key block (hd rks)) (butlast (tl rks))
      in add_round_key (shift_rows (sub_bytes s)) (last rks))"

section \<open>Definitions: GCM over a block cipher\<close>

type_synonym u128 = "128 word"

primrec gf_mult_loop :: "nat \<Rightarrow> u128 \<Rightarrow> u128 \<Rightarrow> u128 \<Rightarrow> u128" where
  "gf_mult_loop 0 x z v = z"
| "gf_mult_loop (Suc n) x z v =
     gf_mult_loop n x (if bit x n then z XOR v else z)
       (if bit v 0 then drop_bit 1 v XOR 0xe1000000000000000000000000000000 else drop_bit 1 v)"

definition gf_mult :: "u128 \<Rightarrow> u128 \<Rightarrow> u128" where
  "gf_mult x y = gf_mult_loop 128 x 0 y"

definition block_word :: "bytes \<Rightarrow> u128" where
  "block_word bs = foldl (\<lambda>acc b. push_bit 8 acc OR ucast b) 0 bs"

definition word_block :: "u128 \<Rightarrow> bytes" where
  "word_block w = map (\<lambda>i. ucast (drop_bit (120 - 8 * i) w)) [0..<16]"

definition pad16 :: "bytes \<Rightarrow> bytes" where
  "pad16 bs = bs @ replicate ((16 - length bs mod 16) mod 16) 0"

definition chunks16 :: "bytes \<Rightarrow> bytes list" where
  "chunks16 bs = map (\<lambda>i. take 16 (drop (16 * i) bs)) [0..<length bs div 16]"

definition ghash :: "u128 \<Rightarrow> bytes \<Rightarrow> u128" where
  "ghash h bs = foldl (\<lambda>y b. gf_mult (y XOR block_word b) h) 0 (chunks16 bs)"

definition bit_length :: "bytes \<Rightarrow> bytes" where
  "bit_length bs = BigEndian_PutUint64 (of_nat (8 * length bs))"

definition gcm_counter :: "bytes \<Rightarrow> u32 \<Rightarrow> bytes" where
  "gcm_counter nonce ctr = nonce @ BigEndian_PutUint32 ctr"

definition gcm_keystream :: "(bytes \<Rightarrow> bytes) \<Rightarrow> bytes \<Rightarrow> nat \<Rightarrow> bytes" where
  "gcm_keystream E nonce n =
     take n (concat (map (\<lambda>j. E (gcm_counter nonce (of_nat (j + 2)))) [0..<(n + 15) div 16]))"

definition gcm_tag :: "(bytes \<Rightarrow> bytes) \<Rightarrow> bytes \<Rightarrow> bytes \<Rightarrow> bytes \<Rightarrow> bytes" where
  "gcm_tag E nonce ct aad =
     word_block (block_word (E (gcm_counter nonce 1)) XOR
       ghash (block_word (E (replicate 16 0))) (pad16 aad @ pad16 ct @ bit_length aad @ bit_length ct))"

definition gcm_seal :: "(bytes \<Rightarrow> bytes) \<Rightarrow> bytes \<Rightarrow> bytes \<Rightarrow> bytes \<Rightarrow> bytes" where
  "gcm_seal E nonce pt aad =
     (let ct = xor_bytes pt (gcm_keystream E nonce (length pt)) in ct @ gcm_tag E nonce ct aad)"

section \<open>The interface of a nonce-based stream AEAD\<close>

locale stream_aead =
  fixes seal :: "bytes \<Rightarrow> bytes \<Rightarrow> bytes \<Rightarrow> bytes"
    and keystream :: "bytes \<Rightarrow> nat \<Rightarrow> bytes"
    and tag :: "bytes \<Rightarrow> bytes \<Rightarrow> bytes \<Rightarrow> bytes"
  assumes seal_eq: "seal nonce pt aad =
      xor_bytes pt (keystream nonce (length pt)) @ tag nonce (xor_bytes pt (keystream nonce (length pt))) aad"
    and length_keystream: "length (keystream nonce n) = n"
    and length_tag: "length (tag nonce ct aad) = 16"
begin

lemma length_seal: "length (seal nonce pt aad) = length pt + 16"
  by (simp add: seal_eq length_tag length_keystream xor_bytes_def)

end

section \<open>Lemmas\<close>

lemma length_xor_bytes [simp]: "length (xor_bytes xs ys) = min (length xs) (length ys)"
  by (simp add: xor_bytes_def)

lemma xor_bytes_zeros: "length ys = n \<Longrightarrow> xor_bytes (replicate n 0) ys = ys"
  by (rule nth_equalityI) (simp_all add: xor_bytes_def)

lemma xor_bytes_cancel: "length xs = length ys \<Longrightarrow> xor_bytes (xor_bytes xs ys) ys = xs"
  by (rule nth_equalityI) (simp_all add: xor_bytes_def xor.assoc)

lemma length_aes_encrypt [simp]: "length (aes_encrypt key block) = 16"
  by (simp add: aes_encrypt_def add_round_key_def Let_def)

lemma length_gcm_tag [simp]: "length (gcm_tag E nonce ct aad) = 16"
  by (simp add: gcm_tag_def word_block_def)

lemma length_gcm_keystream:
  assumes "\<And>b. length (E b) = 16"
  shows "length (gcm_keystream E nonce n) = n"
proof -
  have "length (concat (map (\<lambda>j. E (gcm_counter nonce (of_nat (j + 2)))) xs)) = 16 * length xs" for xs
    by (induction xs) (simp_all add: assms)
  then show ?thesis
    by (simp add: gcm_keystream_def)
qed

text \<open>GCM over AES is such an AEAD for every key.\<close>

interpretation aes_gcm: stream_aead "gcm_seal (aes_encrypt key)" "gcm_keystream (aes_encrypt key)"
    "gcm_tag (aes_encrypt key)" for key
  by unfold_locales (simp_all add: gcm_seal_def Let_def length_gcm_keystream)

end
