(* ===== verification/Gcm8.thy ===== *)
theory Gcm8
  imports Std_Crypto Uleb128
begin

text \<open>
  \<open>frame/gcm8.go\<close>: AES-GCM with the tag cut to 8 bytes. A value of Go's \<open>cipher.AEAD\<close> interface
  is a record of its methods. \<open>Seal\<close> appends to \<open>dst\<close>; \<open>Open\<close> recovers the key stream by sealing
  zeros, decrypts with it, and checks the tag by sealing the result again. The lemmas of
  the context \<open>stream_aead\<close> show that this construction is right over any stream AEAD, and the
  interpretation \<open>aes_gcm\<close> gives them for the cipher that \<open>newGCM8\<close> builds.
\<close>

section \<open>Definitions\<close>

record AEAD =
  NonceSize :: int
  Overhead :: int
  Seal :: "bytes \<Rightarrow> bytes \<Rightarrow> bytes \<Rightarrow> bytes \<Rightarrow> bytes"
  Open :: "bytes \<Rightarrow> bytes \<Rightarrow> bytes \<Rightarrow> bytes \<Rightarrow> frame_error + bytes"

fun ct_diff :: "u8 \<Rightarrow> bytes \<Rightarrow> bytes \<Rightarrow> u8" where
  "ct_diff diff (a # as) (b # bs) = ct_diff (diff OR (a XOR b)) as bs"
| "ct_diff diff as bs = diff"

definition constantTimeEqual :: "bytes \<Rightarrow> bytes \<Rightarrow> bool" where
  "constantTimeEqual a b = (if length a \<noteq> length b then False else ct_diff 0 a b = 0)"

text \<open>The \<open>inner\<close> field of the struct is represented by its \<open>Seal\<close> method, the only one called
  besides \<open>NonceSize\<close>.\<close>

definition gcm8_Seal :: "(bytes \<Rightarrow> bytes \<Rightarrow> bytes \<Rightarrow> bytes) \<Rightarrow> bytes \<Rightarrow> bytes \<Rightarrow> bytes \<Rightarrow> bytes \<Rightarrow> bytes" where
  "gcm8_Seal inner dst nonce plaintext aad =
     (let sealed = dst @ inner nonce plaintext aad;
          tagStart = length sealed - 16
      in take tagStart sealed @ take 8 (drop tagStart sealed))"

definition gcm8_Open :: "(bytes \<Rightarrow> bytes \<Rightarrow> bytes \<Rightarrow> bytes) \<Rightarrow> bytes \<Rightarrow> bytes \<Rightarrow> bytes \<Rightarrow> bytes \<Rightarrow> frame_error + bytes" where
  "gcm8_Open inner dst nonce ciphertext aad =
     (if length ciphertext < 8 then Inl ErrAuthTagMismatch
      else let data = take (length ciphertext - 8) ciphertext;
               receivedTag = drop (length ciphertext - 8) ciphertext;
               keystream = take (length data) (inner nonce (replicate (length data) 0) aad);
               plaintext = xor_bytes data keystream;
               fullSealed = inner nonce plaintext aad;
               fullTag = drop (length fullSealed - 16) fullSealed
           in if \<not> constantTimeEqual receivedTag (take 8 fullTag) then Inl ErrAuthTagMismatch
              else Inr (dst @ plaintext))"

definition aes_NewCipher :: "bytes \<Rightarrow> frame_error + (bytes \<Rightarrow> bytes)" where
  "aes_NewCipher key =
     (if length key = 16 \<or> length key = 24 \<or> length key = 32 then Inr (aes_encrypt key)
      else Inl ErrAesKeySize)"

definition gcm8 :: "(bytes \<Rightarrow> bytes \<Rightarrow> bytes \<Rightarrow> bytes) \<Rightarrow> AEAD" where
  "gcm8 inner = \<lparr>NonceSize = 12, Overhead = 8, Seal = gcm8_Seal inner, Open = gcm8_Open inner\<rparr>"

definition newGCM8 :: "bytes \<Rightarrow> frame_error + AEAD" where
  "newGCM8 key =
     (case aes_NewCipher key of
        Inl e \<Rightarrow> Inl e
      | Inr block \<Rightarrow> Inr (gcm8 (gcm_seal block)))"

definition NewGCM8 :: "bytes \<Rightarrow> frame_error + AEAD" where
  "NewGCM8 key = newGCM8 key"

section \<open>Lemmas\<close>

lemma ct_diff_or: "ct_diff d as bs = d OR ct_diff 0 as bs"
proof (induction as arbitrary: d bs)
  case (Cons a as)
  show ?case
  proof (cases bs)
    case (Cons b bs')
    then show ?thesis
      using Cons.IH [of "d OR (a XOR b)" bs'] Cons.IH [of "a XOR b" bs'] by (simp add: or.assoc)
  qed simp
qed simp

lemma xor_zero_iff: "a XOR b = 0 \<longleftrightarrow> a = b" for a b :: u8
proof
  assume "a XOR b = 0"
  then have "(a XOR b) XOR b = 0 XOR b" by simp
  then show "a = b" by (simp add: xor.assoc)
qed simp

lemma ct_diff_zero_iff: "length as = length bs \<Longrightarrow> ct_diff 0 as bs = 0 \<longleftrightarrow> as = bs"
proof (induction as bs rule: list_induct2)
  case (Cons a as b bs)
  have "ct_diff 0 (a # as) (b # bs) = (a XOR b) OR ct_diff 0 as bs"
    using ct_diff_or [of "a XOR b" as bs] by simp
  then show ?case
    using Cons.IH by (simp add: or_eq_0_iff xor_zero_iff)
qed simp

lemma constantTimeEqual_iff [simp]: "constantTimeEqual a b \<longleftrightarrow> a = b"
  by (auto simp: constantTimeEqual_def ct_diff_zero_iff)

context stream_aead
begin

lemma gcm8_Seal_eq:
  "gcm8_Seal seal dst nonce pt aad = dst @ xor_bytes pt (keystream nonce (length pt)) @
     take 8 (tag nonce (xor_bytes pt (keystream nonce (length pt))) aad)"
  by (simp add: gcm8_Seal_def Let_def seal_eq length_tag length_keystream)

lemma gcm8_Open_eq:
  assumes "length t = 8"
  shows "gcm8_Open seal dst nonce (ct @ t) aad =
    (if t = take 8 (tag nonce ct aad)
     then Inr (dst @ xor_bytes ct (keystream nonce (length ct))) else Inl ErrAuthTagMismatch)"
proof -
  let ?ks = "keystream nonce (length ct)"
  have ks: "take (length ct) (seal nonce (replicate (length ct) 0) aad) = ?ks"
    by (simp add: seal_eq length_keystream xor_bytes_zeros)
  have "xor_bytes (xor_bytes ct ?ks) ?ks = ct"
    by (simp add: xor_bytes_cancel length_keystream)
  then have full: "seal nonce (xor_bytes ct ?ks) aad = ct @ tag nonce ct aad"
    by (simp add: seal_eq length_keystream)
  show ?thesis
    using assms by (simp add: gcm8_Open_def Let_def ks full length_tag)
qed

lemma gcm8_Open_Seal:
  "gcm8_Open seal dst nonce (gcm8_Seal seal [] nonce pt aad) aad = Inr (dst @ pt)"
  by (simp add: gcm8_Seal_eq gcm8_Open_eq length_tag length_keystream xor_bytes_cancel)

lemma gcm8_Seal_Open:
  assumes "gcm8_Open seal [] nonce sealed aad = Inr pt"
  shows "gcm8_Seal seal [] nonce pt aad = sealed \<and> length sealed = length pt + 8"
proof -
  have "8 \<le> length sealed"
    using assms by (auto simp: gcm8_Open_def split: if_splits)
  then obtain ct t where s: "sealed = ct @ t" "length t = 8"
    by (metis append_take_drop_id diff_diff_cancel length_drop)
  then have "t = take 8 (tag nonce ct aad)" "pt = xor_bytes ct (keystream nonce (length ct))"
    using assms by (auto simp: gcm8_Open_eq split: if_splits)
  then show ?thesis
    using s by (simp add: gcm8_Seal_eq length_keystream xor_bytes_cancel)
qed

lemma length_gcm8_Seal: "length (gcm8_Seal seal [] nonce pt aad) = length pt + 8"
  by (simp add: gcm8_Seal_eq length_tag length_keystream)

end

lemma newGCM8_eq:
  "newGCM8 key = (if length key = 16 \<or> length key = 24 \<or> length key = 32
     then Inr (gcm8 (gcm_seal (aes_encrypt key))) else Inl ErrAesKeySize)"
  by (simp add: newGCM8_def aes_NewCipher_def)

section \<open>Properties\<close>

text \<open>C31 gcm8_open_iff_seal. For every AES key, \<open>Open\<close> of the 8-byte-tag GCM accepts a message exactly
  when it is the \<open>Seal\<close> of the plaintext that \<open>Open\<close> returns, under the same nonce and additional
  data: sealing and opening are inverse, and nothing else is accepted.\<close>

theorem gcm8_open_iff_seal:
  "gcm8_Open (gcm_seal (aes_encrypt key)) [] nonce sealed aad = Inr pt \<longleftrightarrow>
     gcm8_Seal (gcm_seal (aes_encrypt key)) [] nonce pt aad = sealed"
  using aes_gcm.gcm8_Open_Seal [of key "[]" nonce pt aad] aes_gcm.gcm8_Seal_Open [of key nonce sealed aad pt]
  by auto

end
