(* ===== verification/Frame.thy ===== *)
theory Frame
  imports Ranges Gcm8
begin

text \<open>
  \<open>frame/encrypt.go\<close> and the structs of \<open>frame/frame.go\<close>: encryption of a media frame into the DAVE
  format, parsing of the footer, and decryption.

  The functions that write into a caller's buffer (\<open>EncryptInto\<close>, \<open>EncryptWithCipherInto\<close>) return
  the bytes \<open>dst[:n]\<close> that they report as written; of the buffer they are given only the length
  matters here. The theory \<open>Frame_Buffer\<close> has the writes to the buffer itself and shows that these
  definitions are what the in-place functions compute.
\<close>

section \<open>Definitions\<close>

record EncryptParams =
  Plaintext :: bytes
  Key :: bytes
  TruncatedNonce :: u32
  UnencryptedRanges :: "Range list"

record DecryptParams =
  dp_Ciphertext :: bytes
  dp_Key :: bytes

record ParsedFrame =
  InterleavedFrame :: bytes
  Tag :: bytes
  pf_TruncatedNonce :: u32
  pf_UnencryptedRanges :: "Range list"
  SupplementalSize :: u8

record EncryptWithCipherParams =
  cp_Plaintext :: bytes
  Cipher :: "AEAD option" \<comment> \<open>\<open>None\<close> is the nil interface\<close>
  cp_TruncatedNonce :: u32
  cp_UnencryptedRanges :: "Range list"

definition tagLen :: nat where "tagLen = 8"
definition supplSizeLen :: nat where "supplSizeLen = 1"
definition magicLen :: nat where "magicLen = 2"
definition magicByte :: u8 where "magicByte = 0xFA"
definition maxSupplSize :: nat where "maxSupplSize = 255"

definition full_nonce :: "u32 \<Rightarrow> bytes" where
  "full_nonce truncatedNonce = replicate 8 0 @ LittleEndian_PutUint32 truncatedNonce"

fun append_ranges :: "bytes \<Rightarrow> Range list \<Rightarrow> bytes" where
  "append_ranges out [] = out"
| "append_ranges out (r # rs) =
     append_ranges (appendULEB128 (appendULEB128 out (word_of_int (Offset r))) (word_of_int (Length r))) rs"

definition encryptCoreAppend :: "bytes \<Rightarrow> AEAD \<Rightarrow> bytes \<Rightarrow> u32 \<Rightarrow> Range list \<Rightarrow> frame_error + bytes" where
  "encryptCoreAppend dst gcm plaintext truncatedNonce unencryptedRanges =
     (let nonce = full_nonce truncatedNonce;
          nonceBytes = appendULEB128 [] truncatedNonce
      in if length unencryptedRanges = 0 then
           let out = Seal gcm dst nonce plaintext [];
               supplSize = of_nat (tagLen + length nonceBytes + supplSizeLen + magicLen)
           in Inr (out @ nonceBytes @ [supplSize] @ [0xFA, 0xFA])
         else
           ebind (of_option GoPanic (ExtractCiphertext plaintext unencryptedRanges)) (\<lambda>ciphertext.
           ebind (of_option GoPanic (buildAAD plaintext unencryptedRanges)) (\<lambda>aad.
           let sealed = Seal gcm [] nonce ciphertext aad in
           ebind (of_option GoPanic (go_slice sealed 0 (int (length sealed) - 8))) (\<lambda>ciphertextOut.
           ebind (of_option GoPanic (go_slice sealed (int (length sealed) - 8) (int (length sealed)))) (\<lambda>tag.
           ebind (of_option GoPanic (appendInterleaved dst plaintext unencryptedRanges ciphertextOut)) (\<lambda>out1.
           let out2 = out1 @ tag @ nonceBytes;
               out3 = append_ranges out2 unencryptedRanges;
               rangesLen = length out3 - length out2;
               supplSize = tagLen + length nonceBytes + rangesLen + supplSizeLen + magicLen
           in if maxSupplSize < supplSize then Inl ErrInvalidSupplementalSize
              else Inr (out3 @ [of_nat supplSize] @ [0xFA, 0xFA])))))))"

definition encryptInto :: "bytes \<Rightarrow> AEAD \<Rightarrow> bytes \<Rightarrow> u32 \<Rightarrow> Range list \<Rightarrow> frame_error + bytes" where
  "encryptInto dst gcm plaintext truncatedNonce unencryptedRanges =
     ebind (encryptCoreAppend [] gcm plaintext truncatedNonce unencryptedRanges) (\<lambda>out.
     if length dst < length out then Inl ErrBufferTooSmall else Inr out)"

definition EncryptWithCipher :: "EncryptWithCipherParams \<Rightarrow> frame_error + bytes" where
  "EncryptWithCipher params =
     (case Cipher params of
        None \<Rightarrow> Inl ErrInvalidKeyLength
      | Some gcm \<Rightarrow>
          ebind (ValidateRanges (cp_UnencryptedRanges params) (int (length (cp_Plaintext params)))) (\<lambda>_.
          encryptCoreAppend [] gcm (cp_Plaintext params) (cp_TruncatedNonce params)
            (cp_UnencryptedRanges params)))"

definition EncryptWithCipherInto :: "bytes \<Rightarrow> EncryptWithCipherParams \<Rightarrow> frame_error + bytes" where
  "EncryptWithCipherInto dst params =
     (case Cipher params of
        None \<Rightarrow> Inl ErrInvalidKeyLength
      | Some gcm \<Rightarrow>
          ebind (ValidateRanges (cp_UnencryptedRanges params) (int (length (cp_Plaintext params)))) (\<lambda>_.
          encryptInto dst gcm (cp_Plaintext params) (cp_TruncatedNonce params)
            (cp_UnencryptedRanges params)))"

definition Encrypt :: "EncryptParams \<Rightarrow> frame_error + bytes" where
  "Encrypt params =
     (if length (Key params) \<noteq> 16 then Inl ErrInvalidKeyLength
      else ebind (ValidateRanges (UnencryptedRanges params) (int (length (Plaintext params)))) (\<lambda>_.
           ebind (newGCM8 (Key params)) (\<lambda>gcm.
           encryptCoreAppend [] gcm (Plaintext params) (TruncatedNonce params) (UnencryptedRanges params))))"

definition EncryptInto :: "bytes \<Rightarrow> EncryptParams \<Rightarrow> frame_error + bytes" where
  "EncryptInto dst params =
     (if length (Key params) \<noteq> 16 then Inl ErrInvalidKeyLength
      else ebind (ValidateRanges (UnencryptedRanges params) (int (length (Plaintext params)))) (\<lambda>_.
           ebind (newGCM8 (Key params)) (\<lambda>gcm.
           encryptInto dst gcm (Plaintext params) (TruncatedNonce params) (UnencryptedRanges params))))"

definition LooksLikeDAVEFrame :: "bytes \<Rightarrow> bool" where
  "LooksLikeDAVEFrame packet =
     (if length packet < 11 then False
      else if packet ! (length packet - 2) \<noteq> 0xFA \<or> packet ! (length packet - 1) \<noteq> 0xFA then False
      else True)"

function parse_ranges :: "bytes \<Rightarrow> Range list \<Rightarrow> frame_error + Range list" where
  "parse_ranges rangesData ranges =
     (if 0 < length rangesData then
        (case DecodeULEB128 rangesData of
           Inl e \<Rightarrow> Inl e
         | Inr (offset, n1) \<Rightarrow>
             (case DecodeULEB128 (drop n1 rangesData) of
                Inl e \<Rightarrow> Inl e
              | Inr (length', n2) \<Rightarrow>
                  parse_ranges (drop n2 (drop n1 rangesData))
                    (ranges @ [\<lparr>Offset = uint offset, Length = uint length'\<rparr>])))
      else Inr ranges)"
  by pat_completeness auto
termination
proof (relation "measure (\<lambda>(rangesData, ranges). length rangesData)")
  fix rangesData ranges x offset n1 y length' n2
  assume d: "DecodeULEB128 rangesData = Inr x" "(offset, n1) = x"
  then have "DecodeULEB128 rangesData = Inr (offset, n1)" by simp
  then obtain rest where "rangesData = EncodeULEB128 offset @ rest" "drop n1 rangesData = rest"
    by (rule uleb.dec_split)
  then have "length (drop n1 rangesData) < length rangesData"
    by simp
  then show "((drop n2 (drop n1 rangesData), ranges @ [\<lparr>Offset = uint offset, Length = uint length'\<rparr>]),
      rangesData, ranges) \<in> measure (\<lambda>(rangesData, ranges). length rangesData)"
    by simp
qed simp

declare parse_ranges.simps [simp del]

definition Parse :: "bytes \<Rightarrow> frame_error + ParsedFrame" where
  "Parse packet =
     (if length packet < 11 then Inl ErrFrameTooShort
      else if packet ! (length packet - 2) \<noteq> 0xFA \<or> packet ! (length packet - 1) \<noteq> 0xFA
      then Inl ErrInvalidMagicMarker
      else let supplSize = unat (packet ! (length packet - 3)) in
        if supplSize < 11 \<or> length packet < supplSize then Inl ErrInvalidSupplementalSize
        else let footerStart = int (length packet) - int supplSize in
          if footerStart < 0 then Inl ErrInvalidSupplementalSize
          else
            ebind (of_option GoPanic (go_slice packet footerStart (int (length packet) - 3))) (\<lambda>footer.
            if length footer \<noteq> supplSize - 3 then Inl ErrInvalidSupplementalSize
            else
              ebind (of_option GoPanic (go_slice footer 0 8)) (\<lambda>tag.
              ebind (of_option GoPanic (go_slice footer 8 (int (length footer)))) (\<lambda>rest.
              ebind (DecodeULEB128 rest) (\<lambda>(nonce, n).
              ebind (of_option GoPanic (go_slice footer (8 + int n) (int (length footer)))) (\<lambda>rangesData.
              ebind (parse_ranges rangesData []) (\<lambda>ranges.
              ebind (of_option GoPanic (go_slice packet 0 footerStart)) (\<lambda>interleaved.
              ebind (ValidateRanges ranges (int (length interleaved))) (\<lambda>_.
              Inr \<lparr>InterleavedFrame = interleaved, Tag = tag, pf_TruncatedNonce = nonce,
                   pf_UnencryptedRanges = ranges, SupplementalSize = of_nat supplSize\<rparr>)))))))))"

definition Decrypt :: "DecryptParams \<Rightarrow> frame_error + bytes \<times> u32" where
  "Decrypt params =
     (if length (dp_Key params) \<noteq> 16 then Inl ErrInvalidKeyLength
      else if \<not> LooksLikeDAVEFrame (dp_Ciphertext params) then Inl ErrFrameTooShort
      else
        ebind (Parse (dp_Ciphertext params)) (\<lambda>parsed.
        ebind (newGCM8 (dp_Key params)) (\<lambda>gcm.
        let nonce = full_nonce (pf_TruncatedNonce parsed) in
        ebind (of_option GoPanic
          (ExtractCiphertext (InterleavedFrame parsed) (pf_UnencryptedRanges parsed))) (\<lambda>ciphertext.
        ebind (of_option GoPanic (buildAAD (InterleavedFrame parsed) (pf_UnencryptedRanges parsed))) (\<lambda>aad.
        let sealed = ciphertext @ Tag parsed in
        ebind (Open gcm [] nonce sealed aad) (\<lambda>plaintext.
        ebind (of_option GoPanic
          (ReconstructPlaintext (InterleavedFrame parsed) plaintext (pf_UnencryptedRanges parsed))) (\<lambda>result.
        Inr (result, pf_TruncatedNonce parsed))))))))"

section \<open>Specification: the frame as its parts\<close>

definition ranges_bytes :: "Range list \<Rightarrow> bytes" where
  "ranges_bytes rs =
     concat (map (\<lambda>r. EncodeULEB128 (word_of_int (Offset r)) @ EncodeULEB128 (word_of_int (Length r))) rs)"

definition suppl_size :: "u32 \<Rightarrow> Range list \<Rightarrow> nat" where
  "suppl_size tn rs = 8 + length (EncodeULEB128 tn) + length (ranges_bytes rs) + 3"

definition dave_frame :: "bytes \<Rightarrow> bytes \<Rightarrow> u32 \<Rightarrow> Range list \<Rightarrow> bytes" where
  "dave_frame interleaved tag tn rs =
     interleaved @ tag @ EncodeULEB128 tn @ ranges_bytes rs @ [of_nat (suppl_size tn rs), 0xFA, 0xFA]"

definition ranges_u32 :: "Range list \<Rightarrow> bool" where
  "ranges_u32 rs \<longleftrightarrow> list_all (\<lambda>r. 0 \<le> Offset r \<and> Offset r < 2 ^ 32 \<and> 0 \<le> Length r \<and> Length r < 2 ^ 32) rs"

section \<open>Lemmas on the footer\<close>

lemmas size_consts [simp] = tagLen_def supplSizeLen_def magicLen_def magicByte_def maxSupplSize_def

lemma ranges_bytes_Nil [simp]: "ranges_bytes [] = []"
  by (simp add: ranges_bytes_def)

lemma ranges_bytes_Cons [simp]:
  "ranges_bytes (r # rs) = EncodeULEB128 (word_of_int (Offset r)) @
     EncodeULEB128 (word_of_int (Length r)) @ ranges_bytes rs"
  by (simp add: ranges_bytes_def)

lemma append_ranges_eq: "append_ranges out rs = out @ ranges_bytes rs"
  by (induction rs arbitrary: out) (simp_all add: appendULEB128_Encode)

lemma length_full_nonce [simp]: "length (full_nonce tn) = 12"
  by (simp add: full_nonce_def)

lemma uint_word_of_int_u32: "0 \<le> x \<Longrightarrow> x < 2 ^ 32 \<Longrightarrow> uint (word_of_int x :: u32) = x"
  by (simp add: unsigned_of_int take_bit_int_eq_self)

lemma parse_ranges_bytes: "ranges_u32 rs \<Longrightarrow> parse_ranges (ranges_bytes rs) acc = Inr (acc @ rs)"
proof (induction rs arbitrary: acc)
  case Nil
  then show ?case by (simp add: parse_ranges.simps)
next
  case (Cons r rs)
  then show ?case
    by (subst parse_ranges.simps)
      (simp add: DecodeULEB128_Encode ranges_u32_def uint_word_of_int_u32)
qed

lemma parse_ranges_inv:
  "parse_ranges bs acc = Inr out \<Longrightarrow> \<exists>rs. out = acc @ rs \<and> bs = ranges_bytes rs \<and> ranges_u32 rs"
proof (induction bs acc rule: parse_ranges.induct)
  case (1 bs acc)
  show ?case
  proof (cases "bs = []")
    case True
    then show ?thesis
      using "1.prems" by (intro exI [of _ "[]"]) (simp add: parse_ranges.simps ranges_u32_def)
  next
    case False
    with "1.prems" obtain off n1 len n2 where d1: "DecodeULEB128 bs = Inr (off, n1)"
        and d2: "DecodeULEB128 (drop n1 bs) = Inr (len, n2)"
        and rec: "parse_ranges (drop n2 (drop n1 bs)) (acc @ [\<lparr>Offset = uint off, Length = uint len\<rparr>]) = Inr out"
      by (subst (asm) parse_ranges.simps) (auto split: sum.splits prod.splits)
    let ?r = "\<lparr>Offset = uint off, Length = uint len\<rparr>"
    from "1.IH" [OF _ d1 refl d2 refl rec] False obtain rs where
        rs: "out = (acc @ [?r]) @ rs" "drop n2 (drop n1 bs) = ranges_bytes rs" "ranges_u32 rs"
      by auto
    obtain r1 where r1: "bs = EncodeULEB128 off @ r1" "drop n1 bs = r1"
      by (rule uleb.dec_split [OF d1])
    obtain r2 where r2: "drop n1 bs = EncodeULEB128 len @ r2" "drop n2 (drop n1 bs) = r2"
      by (rule uleb.dec_split [OF d2])
    have "bs = ranges_bytes (?r # rs)"
      using r1 r2 rs(2) by simp
    moreover have "ranges_u32 (?r # rs)"
      using rs(3) unsigned_less [of off, where ?'a = int] unsigned_less [of len, where ?'a = int]
      by (simp add: ranges_u32_def)
    ultimately show ?thesis
      using rs(1) by (intro exI [of _ "?r # rs"]) simp
  qed
qed

section \<open>Lemmas on parsing\<close>

lemma ranges_wf_u32:
  assumes "ranges_wf 0 (int n) rs" and "n < 2 ^ 32"
  shows "ranges_u32 rs"
proof -
  have "int n < 2 ^ 32"
    using assms(2) by (metis of_nat_less_iff of_nat_numeral of_nat_power)
  then show ?thesis
    using assms(1) by (auto simp: ranges_wf_iff ranges_u32_def list_all_iff)
qed

lemma ranges_u32_fields: "ranges_u32 rs \<Longrightarrow> range_fields rs"
  by (auto simp: ranges_u32_def range_fields_def list_all_iff in_goint_def)

lemma suppl_size_ge: "12 \<le> suppl_size tn rs"
  using EncodeULEB128_nonempty [of tn] by (cases "EncodeULEB128 tn") (simp_all add: suppl_size_def)

lemma dave_frame_nth:
  fixes body tag :: bytes and tn :: u32 and rs :: "Range list"
  assumes "length tag = 8"
  defines "f \<equiv> dave_frame body tag tn rs"
  shows "length f = length body + suppl_size tn rs" and "f ! (length f - 1) = 0xFA"
    and "f ! (length f - 2) = 0xFA" and "f ! (length f - 3) = of_nat (suppl_size tn rs)"
proof -
  show len: "length f = length body + suppl_size tn rs"
    using assms by (simp add: dave_frame_def suppl_size_def)
  let ?p = "body @ tag @ EncodeULEB128 tn @ ranges_bytes rs"
  have f: "f = ?p @ [of_nat (suppl_size tn rs), 0xFA, 0xFA]"
    by (simp add: f_def dave_frame_def)
  have "length f = length ?p + 3"
    by (simp add: f)
  then show "f ! (length f - 1) = 0xFA" "f ! (length f - 2) = 0xFA"
      "f ! (length f - 3) = of_nat (suppl_size tn rs)"
    by (simp_all add: f nth_append)
qed

lemma Parse_dave_frame:
  assumes tag: "length tag = 8" and sz: "suppl_size tn rs \<le> 255"
    and wf: "ranges_wf 0 (int (length body)) rs" and len: "length body < 2 ^ 32"
  shows "Parse (dave_frame body tag tn rs) = Inr \<lparr>InterleavedFrame = body, Tag = tag,
    pf_TruncatedNonce = tn, pf_UnencryptedRanges = rs, SupplementalSize = of_nat (suppl_size tn rs)\<rparr>"
proof -
  let ?f = "dave_frame body tag tn rs" and ?s = "suppl_size tn rs"
  let ?footer = "tag @ EncodeULEB128 tn @ ranges_bytes rs"
  note nth = dave_frame_nth [OF tag, of body tn rs]
  have s: "unat (of_nat ?s :: u8) = ?s"
    using sz by (simp add: unat_of_nat take_bit_nat_eq_self)
  have fl: "?s = length ?footer + 3"
    using tag by (simp add: suppl_size_def)
  have f: "?f = body @ ?footer @ [of_nat ?s, 0xFA, 0xFA]"
    by (simp add: dave_frame_def)
  have sl: "go_slice ?f (int (length body)) (int (length body) + int ?s - 3) = Some ?footer"
      "go_slice ?footer 0 8 = Some tag"
      "go_slice ?footer 8 (int ?s - 3) = Some (EncodeULEB128 tn @ ranges_bytes rs)"
      "go_slice ?footer (8 + int (length (EncodeULEB128 tn))) (int ?s - 3) = Some (ranges_bytes rs)"
      "go_slice ?f 0 (int (length body)) = Some body"
    using tag fl by (auto simp: f go_slice_some_iff)
  have fl': "8 + (length (EncodeULEB128 tn) + length (ranges_bytes rs)) = ?s - 3"
      "8 + (int (length (EncodeULEB128 tn)) + int (length (ranges_bytes rs))) = int ?s - 3"
    using fl tag by simp_all
  have "int (length body) < 2 ^ 32"
    using len by (metis of_nat_less_iff of_nat_numeral of_nat_power)
  then have v: "ValidateRanges rs (int (length body)) = Inr ()"
    using wf ranges_wf_fields [OF _ wf] by (subst ValidateRanges_wf) (auto simp: in_goint_def)
  note r = parse_ranges_bytes [OF ranges_wf_u32 [OF wf len]]
  show ?thesis
    using nth s tag suppl_size_ge [of tn rs]
    by (simp add: Parse_def Let_def sl fl' DecodeULEB128_Encode r v)
qed

lemma drop_last3:
  assumes "3 \<le> length xs"
  shows "drop (length xs - 3) xs = [xs ! (length xs - 3), xs ! (length xs - 2), xs ! (length xs - 1)]"
  using assms by (intro nth_equalityI) (auto simp: nth_Cons' numeral_eq_Suc less_Suc_eq)

text \<open>What the parser found, as a split of the packet.\<close>

lemma Parse_parts:
  assumes "Parse packet = Inr p"
  obtains s footer rest where "s \<le> 255" "11 \<le> s" "s \<le> length packet" "packet = InterleavedFrame p @ footer @ [of_nat s, 0xFA, 0xFA]"
    "length footer = s - 3" "footer = Tag p @ EncodeULEB128 (pf_TruncatedNonce p) @ rest" "length (Tag p) = 8"
    "parse_ranges rest [] = Inr (pf_UnencryptedRanges p)"
    "ValidateRanges (pf_UnencryptedRanges p) (int (length (InterleavedFrame p))) = Inr ()"
proof -
  define s where "s = unat (packet ! (length packet - 3))"
  obtain footer rest rangesData n where
      len: "11 \<le> length packet" "11 \<le> s" "s \<le> length packet"
    and magic: "packet ! (length packet - 2) = 0xFA" "packet ! (length packet - 1) = 0xFA"
    and sl: "go_slice packet (int (length packet) - int s) (int (length packet) - 3) = Some footer"
      "go_slice footer 0 8 = Some (Tag p)"
    and dec: "go_slice footer 8 (int (length footer)) = Some rest" "DecodeULEB128 rest = Inr (pf_TruncatedNonce p, n)"
    and rd: "go_slice footer (8 + int n) (int (length footer)) = Some rangesData"
      "parse_ranges rangesData [] = Inr (pf_UnencryptedRanges p)"
    and il: "go_slice packet 0 (int (length packet) - int s) = Some (InterleavedFrame p)"
    and v: "ValidateRanges (pf_UnencryptedRanges p) (int (length (InterleavedFrame p))) = Inr ()"
    using assms unfolding Parse_def Let_def s_def by (auto simp: error_iffs split: if_splits prod.splits)
  have body: "InterleavedFrame p = take (length packet - s) packet"
    and footer: "footer = take (s - 3) (drop (length packet - s) packet)"
    using sl(1) il len by (auto simp: go_slice_some_iff nat_diff_distrib')
  have "packet = InterleavedFrame p @ footer @ drop (length packet - 3) packet"
    using len append_take_drop_id [of "length packet - s" packet]
      append_take_drop_id [of "s - 3" "drop (length packet - s) packet"]
    by (simp add: body footer)
  then have packet: "packet = InterleavedFrame p @ footer @ [of_nat s, 0xFA, 0xFA]"
    using len magic by (simp add: drop_last3 s_def)
  have f8: "footer = Tag p @ rest" "rangesData = drop n rest"
    using sl(2) dec(1) rd(1) by (auto simp: go_slice_some_iff nat_add_distrib add.commute)
  obtain rest' where r: "rest = EncodeULEB128 (pf_TruncatedNonce p) @ rest'" "drop n rest = rest'"
    by (rule uleb.dec_split [OF dec(2)])
  show thesis
  proof (rule that [OF _ len(2,3) packet])
    show "s \<le> 255" using unsigned_less [of "packet ! (length packet - 3)", where ?'a = nat] by (simp add: s_def)
    show "length footer = s - 3" using len by (simp add: footer)
    show "footer = Tag p @ EncodeULEB128 (pf_TruncatedNonce p) @ rest'" using f8 r by simp
    show "length (Tag p) = 8" using sl(2) by (auto simp: go_slice_some_iff)
    show "parse_ranges rest' [] = Inr (pf_UnencryptedRanges p)" using rd(2) f8(2) r(2) by simp
  qed (rule v)
qed

lemma Parse_inv:
  assumes "Parse packet = Inr p" and big: "in_goint (int (length packet))"
  defines "rs \<equiv> pf_UnencryptedRanges p" and "tn \<equiv> pf_TruncatedNonce p"
  shows "packet = dave_frame (InterleavedFrame p) (Tag p) tn rs" and "length (Tag p) = 8"
    and "suppl_size tn rs \<le> 255" and "ranges_wf 0 (int (length (InterleavedFrame p))) rs"
    and "ranges_u32 rs" and "in_goint (int (length (InterleavedFrame p)))"
proof -
  from assms(1) obtain s footer rest where len: "s \<le> 255" "11 \<le> s" "s \<le> length packet"
    and packet: "packet = InterleavedFrame p @ footer @ [of_nat s, 0xFA, 0xFA]"
    and footer: "length footer = s - 3" "footer = Tag p @ EncodeULEB128 tn @ rest" and tag: "length (Tag p) = 8"
    and rd: "parse_ranges rest [] = Inr rs" and v: "ValidateRanges rs (int (length (InterleavedFrame p))) = Inr ()"
    unfolding rs_def tn_def by (rule Parse_parts)
  from parse_ranges_inv [OF rd] have rb: "rest = ranges_bytes rs" and u: "ranges_u32 rs" by auto
  have s: "suppl_size tn rs = s" using footer rb tag len(2) by (simp add: suppl_size_def)
  show "packet = dave_frame (InterleavedFrame p) (Tag p) tn rs"
    using packet footer(2) rb by (simp add: dave_frame_def s)
  show "length (Tag p) = 8" by (rule tag)
  show "suppl_size tn rs \<le> 255" using len(1) by (simp add: s)
  show "ranges_u32 rs" by (rule u)
  have "length (InterleavedFrame p) \<le> length packet" by (subst packet) simp
  then show g: "in_goint (int (length (InterleavedFrame p)))" using big by (auto simp: in_goint_def)
  show "ranges_wf 0 (int (length (InterleavedFrame p))) rs"
    using v g ranges_u32_fields [OF u] by (simp add: ValidateRanges_wf)
qed

section \<open>Lemmas on encryption\<close>

text \<open>The AES-GCM instance that \<open>newGCM8\<close> builds for a key.\<close>

abbreviation key_gcm :: "bytes \<Rightarrow> AEAD" where
  "key_gcm key \<equiv> gcm8 (gcm_seal (aes_encrypt key))"

lemma gcm8_sel [simp]: "Seal (gcm8 f) = gcm8_Seal f" "Open (gcm8 f) = gcm8_Open f"
  by (simp_all add: gcm8_def)

lemma frame_mask_no_ranges: "frame_mask f [] = replicate (length f) False"
  by (simp add: frame_mask_def)

lemma no_ranges:
  "in_goint (int (length f)) \<Longrightarrow> ExtractCiphertext f [] = Some f"
  "in_goint (int (length f)) \<Longrightarrow> buildAAD f [] = Some []"
  "in_goint (int (length f)) \<Longrightarrow> length c = length f \<Longrightarrow> ReconstructPlaintext f c [] = Some c"
proof -
  assume g: "in_goint (int (length f))"
  show "ExtractCiphertext f [] = Some f"
    using g by (simp add: ExtractCiphertext_mask frame_mask_no_ranges mask_select_replicate)
  show "buildAAD f [] = Some []"
    by (simp add: buildAAD_def)
  assume "length c = length f"
  then show "ReconstructPlaintext f c [] = Some c"
    using g mask_fill_False_append [of "length f" f c "[]"]
    by (simp add: ReconstructPlaintext_mask frame_mask_no_ranges mask_select_replicate)
qed

text \<open>Both branches of \<open>encryptCoreAppend\<close> produce the frame of its parts: the encrypted bytes woven
  into the plaintext, the cut tag, the nonce and the ranges.\<close>

lemma encryptCoreAppend_frame:
  assumes v: "layout_valid rs (length pt)" and ex: "ExtractCiphertext pt rs = Some ct"
    and aad: "buildAAD pt rs = Some aad"
    and sealed: "gcm8_Seal (gcm_seal (aes_encrypt key)) [] (full_nonce tn) ct aad = c @ t" "length t = 8"
    and weave: "ReconstructPlaintext pt c rs = Some body"
  shows "encryptCoreAppend [] (key_gcm key) pt tn rs =
    (if rs \<noteq> [] \<and> 255 < suppl_size tn rs then Inl ErrInvalidSupplementalSize
     else Inr (dave_frame body t tn rs))"
proof (cases "rs = []")
  case True
  have "in_goint (int (length pt))"
    using v by (simp add: layout_valid_def)
  moreover have "length (c @ t) = length ct + 8"
    using sealed(1) by (metis aes_gcm.length_gcm8_Seal)
  ultimately have "ct = pt" "aad = []" "body = c"
    using ex aad weave sealed(2) True by (auto simp: no_ranges)
  then show ?thesis
    using sealed True
    by (simp add: encryptCoreAppend_def Let_def EncodeULEB128_def [symmetric] dave_frame_def suppl_size_def)
next
  case False
  have sl: "go_slice (c @ t) 0 (int (length (c @ t)) - 8) = Some c"
      "go_slice (c @ t) (int (length (c @ t)) - 8) (int (length (c @ t))) = Some t"
    using sealed(2) by (auto simp: go_slice_some_iff)
  show ?thesis
    using False sl sealed
    by (simp add: encryptCoreAppend_def Let_def ex aad weave appendInterleaved_Reconstruct
        append_ranges_eq EncodeULEB128_def [symmetric] dave_frame_def suppl_size_def)
qed

text \<open>Every valid plaintext has such parts, and decryption undoes each of them.\<close>

lemma frame_parts:
  assumes v: "layout_valid rs (length pt)"
  obtains ct aad c t body where "ExtractCiphertext pt rs = Some ct" "buildAAD pt rs = Some aad"
    "gcm8_Seal (gcm_seal (aes_encrypt key)) [] (full_nonce tn) ct aad = c @ t" "length t = 8"
    "ReconstructPlaintext pt c rs = Some body" "length body = length pt"
    "ExtractCiphertext body rs = Some c" "buildAAD body rs = Some aad"
    "ReconstructPlaintext body ct rs = Some pt"
proof -
  obtain ct aad where ca: "ExtractCiphertext pt rs = Some ct" "buildAAD pt rs = Some aad"
    using layout.take_out_total [OF v] layout.aad_total [OF v] by auto
  let ?sealed = "gcm8_Seal (gcm_seal (aes_encrypt key)) [] (full_nonce tn) ct aad"
  define c t where "c = take (length ct) ?sealed" and "t = drop (length ct) ?sealed"
  have l: "length ?sealed = length ct + 8"
    by (rule aes_gcm.length_gcm8_Seal)
  then have "length c = length ct" "length t = 8" "?sealed = c @ t"
    by (simp_all add: c_def t_def)
  moreover from layout.weaveE [OF v ca(1) this(1)] obtain body where
    "ReconstructPlaintext pt c rs = Some body" "length body = length pt"
    "ExtractCiphertext body rs = Some c" "buildAAD body rs = buildAAD pt rs"
    "ReconstructPlaintext body ct rs = Some pt" .
  ultimately show ?thesis
    using that ca by simp
qed

lemma Encrypt_eq:
  "Encrypt p = (if length (Key p) \<noteq> 16 then Inl ErrInvalidKeyLength else
     ebind (ValidateRanges (UnencryptedRanges p) (int (length (Plaintext p)))) (\<lambda>_.
     encryptCoreAppend [] (key_gcm (Key p)) (Plaintext p) (TruncatedNonce p) (UnencryptedRanges p)))"
  by (simp add: Encrypt_def newGCM8_eq)

lemma Decrypt_dave_frame:
  assumes k: "length key = 16" and v: "layout_valid rs (length body)" and l: "length body < 2 ^ 32"
    and t: "length t = 8" "suppl_size tn rs \<le> 255"
    and e: "ExtractCiphertext body rs = Some c" "buildAAD body rs = Some aad"
  shows "Decrypt \<lparr>dp_Ciphertext = dave_frame body t tn rs, dp_Key = key\<rparr> =
    ebind (gcm8_Open (gcm_seal (aes_encrypt key)) [] (full_nonce tn) (c @ t) aad) (\<lambda>ct.
    ebind (of_option GoPanic (ReconstructPlaintext body ct rs)) (\<lambda>result. Inr (result, tn)))"
proof -
  have "LooksLikeDAVEFrame (dave_frame body t tn rs)"
    using dave_frame_nth [OF t(1), of body tn rs] suppl_size_ge [of tn rs]
    by (simp add: LooksLikeDAVEFrame_def)
  moreover have "ranges_wf 0 (int (length body)) rs"
    using v by (simp add: layout_valid_def)
  ultimately show ?thesis
    using k t by (simp add: Decrypt_def newGCM8_eq Parse_dave_frame [OF t(1,2) _ l] e Let_def)
qed

lemma layout_validI:
  assumes "ValidateRanges rs (int n) = Inr ()" and "range_fields rs" and "in_goint (int n)"
  shows "layout_valid rs n"
  using assms by (simp add: layout_valid_def ValidateRanges_wf)

lemma suppl_size_no_ranges: "suppl_size tn [] \<le> 16"
  using length_EncodeULEB128 [of tn] by (simp add: suppl_size_def)

lemma in_goint_u32: "n < 2 ^ 32 \<Longrightarrow> in_goint (int n)"
  by (simp add: in_goint_def)

text \<open>What encryption of valid parameters amounts to.\<close>

lemma encryptCoreAppend_total:
  assumes v: "layout_valid rs (length pt)" and sz: "suppl_size tn rs \<le> 255"
  shows "\<exists>out. encryptCoreAppend [] (key_gcm key) pt tn rs = Inr out \<and>
    length out = length pt + suppl_size tn rs \<and>
    (length key = 16 \<longrightarrow> length pt < 2 ^ 32 \<longrightarrow>
      Decrypt \<lparr>dp_Ciphertext = out, dp_Key = key\<rparr> = Inr (pt, tn))"
proof -
  obtain ct aad c t body where parts: "ExtractCiphertext pt rs = Some ct" "buildAAD pt rs = Some aad"
    "gcm8_Seal (gcm_seal (aes_encrypt key)) [] (full_nonce tn) ct aad = c @ t" "length t = 8"
    "ReconstructPlaintext pt c rs = Some body" "length body = length pt"
    "ExtractCiphertext body rs = Some c" "buildAAD body rs = Some aad"
    "ReconstructPlaintext body ct rs = Some pt"
    by (rule frame_parts [OF v])
  have out: "encryptCoreAppend [] (key_gcm key) pt tn rs = Inr (dave_frame body t tn rs)"
    using encryptCoreAppend_frame [OF v parts(1-5)] sz by simp
  have "gcm8_Open (gcm_seal (aes_encrypt key)) [] (full_nonce tn) (c @ t) aad = Inr ct"
    using aes_gcm.gcm8_Open_Seal [of key "[]" "full_nonce tn" ct aad] parts(3) by simp
  then have "Decrypt \<lparr>dp_Ciphertext = dave_frame body t tn rs, dp_Key = key\<rparr> = Inr (pt, tn)"
    if "length key = 16" "length pt < 2 ^ 32"
    using Decrypt_dave_frame [OF that(1) _ _ parts(4) sz parts(7,8)] v that(2) parts(6,9) by simp
  then show ?thesis
    using out dave_frame_nth(1) [OF parts(4), of body tn rs] parts(6) by auto
qed

lemma encryptCoreAppend_too_big:
  assumes v: "layout_valid rs (length pt)" and sz: "255 < suppl_size tn rs"
  shows "encryptCoreAppend [] (key_gcm key) pt tn rs = Inl ErrInvalidSupplementalSize"
proof -
  have "rs \<noteq> []"
    using sz suppl_size_no_ranges [of tn] by auto
  then show ?thesis
    using encryptCoreAppend_frame [OF v] sz by (metis frame_parts [OF v])
qed

lemma encryptCoreAppend_looks:
  assumes v: "layout_valid rs (length pt)" and out: "encryptCoreAppend [] (key_gcm key) pt tn rs = Inr out"
  shows "LooksLikeDAVEFrame out"
proof -
  obtain ct aad c t body where parts: "ExtractCiphertext pt rs = Some ct" "buildAAD pt rs = Some aad"
    "gcm8_Seal (gcm_seal (aes_encrypt key)) [] (full_nonce tn) ct aad = c @ t" "length t = 8"
    "ReconstructPlaintext pt c rs = Some body"
    by (rule frame_parts [OF v])
  then have "out = dave_frame body t tn rs"
    using out encryptCoreAppend_frame [OF v parts] by (auto split: if_splits)
  then show ?thesis
    using dave_frame_nth [OF parts(4), of body tn rs] suppl_size_ge [of tn rs]
    by (simp add: LooksLikeDAVEFrame_def)
qed

text \<open>A decrypted frame is made of parts that satisfy the layout laws, and encrypting the result
  with the parsed ranges gives the frame back.\<close>

lemma Decrypt_inv:
  assumes "Decrypt \<lparr>dp_Ciphertext = f, dp_Key = key\<rparr> = Inr (pt, tn)" and "in_goint (int (length f))"
  shows "\<exists>rs. length key = 16 \<and> layout_valid rs (length pt) \<and> range_fields rs \<and>
    encryptCoreAppend [] (key_gcm key) pt tn rs = Inr f"
proof -
  obtain p c aad ct where k: "length key = 16" and p: "Parse f = Inr p"
    and e: "ExtractCiphertext (InterleavedFrame p) (pf_UnencryptedRanges p) = Some c"
      "buildAAD (InterleavedFrame p) (pf_UnencryptedRanges p) = Some aad"
    and op: "gcm8_Open (gcm_seal (aes_encrypt key)) [] (full_nonce tn) (c @ Tag p) aad = Inr ct"
    and rec: "ReconstructPlaintext (InterleavedFrame p) ct (pf_UnencryptedRanges p) = Some pt"
    and tn: "tn = pf_TruncatedNonce p"
    using assms(1) by (auto simp: Decrypt_def newGCM8_eq Let_def error_iffs split: if_splits)
  let ?body = "InterleavedFrame p" and ?rs = "pf_UnencryptedRanges p"
  note inv = Parse_inv [OF p assms(2), folded tn]
  have v: "layout_valid ?rs (length ?body)"
    using inv by (simp add: layout_valid_def)
  from aes_gcm.gcm8_Seal_Open [OF op] inv(2)
  have seal: "gcm8_Seal (gcm_seal (aes_encrypt key)) [] (full_nonce tn) ct aad = c @ Tag p"
    and l: "length ct = length c"
    by auto
  from layout.weave_laws [OF v e(1) l rec]
  have pt: "length pt = length ?body" "ExtractCiphertext pt ?rs = Some ct" "buildAAD pt ?rs = Some aad"
    "ReconstructPlaintext pt c ?rs = Some ?body"
    using e(2) by auto
  have "encryptCoreAppend [] (key_gcm key) pt tn ?rs = Inr (dave_frame ?body (Tag p) tn ?rs)"
    using encryptCoreAppend_frame [OF _ pt(2,3) seal inv(2) pt(4)] v pt(1) inv(3) by simp
  then show ?thesis
    using k v pt(1) inv(1) ranges_u32_fields [OF inv(5)] by metis
qed

text \<open>An encrypted frame is accepted, and its footer names the ranges it was made with.\<close>

lemma Encrypt_accepted:
  assumes e: "Encrypt \<lparr>Plaintext = pt, Key = key, TruncatedNonce = tn, UnencryptedRanges = rs\<rparr> = Inr f"
    and r: "range_fields rs" and l: "length pt < 2 ^ 32"
  shows "Decrypt \<lparr>dp_Ciphertext = f, dp_Key = key\<rparr> = Inr (pt, tn)"
    and "map_option pf_UnencryptedRanges (case Parse f of Inl _ \<Rightarrow> None | Inr p \<Rightarrow> Some p) = Some rs"
proof -
  have k: "length key = 16" and v: "layout_valid rs (length pt)"
    and out: "encryptCoreAppend [] (key_gcm key) pt tn rs = Inr f"
    using e layout_validI [OF _ r in_goint_u32 [OF l]] by (auto simp: Encrypt_eq error_iffs split: if_splits)
  have sz: "suppl_size tn rs \<le> 255"
    using encryptCoreAppend_too_big [OF v] out by (metis Inl_Inr_False not_le_imp_less)
  show "Decrypt \<lparr>dp_Ciphertext = f, dp_Key = key\<rparr> = Inr (pt, tn)"
    using encryptCoreAppend_total [OF v sz, of key] k l out by auto
  obtain ct aad c t body where parts: "ExtractCiphertext pt rs = Some ct" "buildAAD pt rs = Some aad"
    "gcm8_Seal (gcm_seal (aes_encrypt key)) [] (full_nonce tn) ct aad = c @ t" "length t = 8"
    "ReconstructPlaintext pt c rs = Some body" "length body = length pt"
    by (rule frame_parts [OF v])
  then have "f = dave_frame body t tn rs"
    using out encryptCoreAppend_frame [OF v parts(1-5)] by (auto split: if_splits)
  then show "map_option pf_UnencryptedRanges (case Parse f of Inl _ \<Rightarrow> None | Inr p \<Rightarrow> Some p) = Some rs"
    using Parse_dave_frame [OF parts(4) sz] v parts(6) l by (simp add: layout_valid_def)
qed

section \<open>Lemmas on errors\<close>

lemma ValidateRanges_error: "ValidateRanges rs sz = Inl e \<Longrightarrow> e = ErrInvalidRanges"
  by (simp add: ValidateRanges_def validate_loop_error)

lemma parse_ranges_error: "parse_ranges bs acc = Inl e \<Longrightarrow> e = ErrInvalidULEB128"
proof (induction bs acc rule: parse_ranges.induct)
  case (1 bs acc)
  have IH: "e = ErrInvalidULEB128" if "bs \<noteq> []" "DecodeULEB128 bs = Inr (off, n1)"
      "DecodeULEB128 (drop n1 bs) = Inr (len, n2)"
      "parse_ranges (drop n2 (drop n1 bs)) (acc @ [\<lparr>Offset = uint off, Length = uint len\<rparr>]) = Inl e"
    for off n1 len n2
    using that "1.IH" by auto
  from "1.prems" show ?case
    unfolding parse_ranges.simps [of bs acc]
    by (auto split: if_splits sum.splits prod.splits dest: DecodeULEB128_error IH simp del: drop_drop)
qed

lemma go_slice_Some: "0 \<le> lo \<Longrightarrow> lo \<le> hi \<Longrightarrow> hi \<le> int (length xs) \<Longrightarrow> go_slice xs lo hi \<noteq> None"
  by (simp add: go_slice_def)

lemma footer_slices:
  assumes "go_slice f (int (length f) - int s) (int (length f) - 3) = Some footer" and "11 \<le> s"
  shows "go_slice footer 0 8 \<noteq> None" and "go_slice footer 8 (int (length footer)) \<noteq> None"
    and "go_slice footer 8 (int (length footer)) = Some rest \<Longrightarrow> DecodeULEB128 rest = Inr (v, n) \<Longrightarrow>
      go_slice footer (8 + int n) (int (length footer)) \<noteq> None"
proof -
  have l: "int (length footer) = int s - 3"
    using go_slice_length [OF assms(1)] by simp
  then show "go_slice footer 0 8 \<noteq> None" "go_slice footer 8 (int (length footer)) \<noteq> None"
    using assms(2) by (auto simp: go_slice_def)
  assume r: "go_slice footer 8 (int (length footer)) = Some rest" and d: "DecodeULEB128 rest = Inr (v, n)"
  have "n \<le> length rest"
    using DecodeULEB128_canonical [OF d] by simp
  then show "go_slice footer (8 + int n) (int (length footer)) \<noteq> None"
    using r by (intro go_slice_Some) (auto simp: go_slice_some_iff)
qed

lemma Parse_error:
  assumes "Parse f = Inl e"
  shows "e \<in> {ErrFrameTooShort, ErrInvalidMagicMarker, ErrInvalidSupplementalSize, ErrInvalidULEB128,
    ErrInvalidRanges}"
proof -
  define s where "s = unat (f ! (length f - 3))"
  have outer: "go_slice f (int (length f) - int s) (int (length f) - 3) \<noteq> None"
      "go_slice f 0 (int (length f) - int s) \<noteq> None" if "11 \<le> s" "s \<le> length f"
    using that by (auto simp: go_slice_def)
  show ?thesis
    using assms outer footer_slices [of f s] unfolding Parse_def Let_def s_def [symmetric]
    by (auto simp: error_iffs split: if_splits prod.splits
        dest: DecodeULEB128_error parse_ranges_error ValidateRanges_error)
qed

lemma Parse_magic: "LooksLikeDAVEFrame f \<Longrightarrow> Parse f = Inl e \<Longrightarrow> e \<noteq> ErrInvalidMagicMarker"
  by (auto simp: LooksLikeDAVEFrame_def Parse_def Let_def error_iffs split: if_splits prod.splits
      dest: DecodeULEB128_error parse_ranges_error ValidateRanges_error)

lemma gcm8_Open_error: "gcm8_Open f dst nonce c aad = Inl e \<Longrightarrow> e = ErrAuthTagMismatch"
  by (auto simp: gcm8_Open_def Let_def split: if_splits)

text \<open>Once the footer has parsed, the authentication tag is the only thing that can fail.\<close>

lemma Decrypt_parsed:
  assumes k: "length key = 16" and l: "LooksLikeDAVEFrame f" and p: "Parse f = Inr p"
    and g: "in_goint (int (length f))"
    and err: "Decrypt \<lparr>dp_Ciphertext = f, dp_Key = key\<rparr> = Inl e"
  shows "e = ErrAuthTagMismatch"
proof -
  let ?body = "InterleavedFrame p" and ?rs = "pf_UnencryptedRanges p"
  note inv = Parse_inv [OF p g]
  have v: "layout_valid ?rs (length ?body)"
    using inv by (simp add: layout_valid_def)
  then obtain c aad where e: "ExtractCiphertext ?body ?rs = Some c" "buildAAD ?body ?rs = Some aad"
    using layout.take_out_total layout.aad_total by blast
  have "ReconstructPlaintext ?body ct ?rs \<noteq> None"
    if "gcm8_Open (gcm_seal (aes_encrypt key)) [] (full_nonce (pf_TruncatedNonce p)) (c @ Tag p) aad = Inr ct" for ct
    using layout.weave_total [OF v e(1)] aes_gcm.gcm8_Seal_Open [OF that] inv(2) by force
  then show ?thesis
    using err k l p
    by (auto simp: Decrypt_def newGCM8_eq Let_def e error_iffs dest: gcm8_Open_error)
qed

section \<open>Properties\<close>

text \<open>C25 frame_round_trip. Encrypting a frame under a 16-byte key with ranges that pass validation and fit
  the one-byte supplemental size succeeds, and decrypting the result under the same key
  gives back the plaintext and the nonce. The size bound is the width of the footer's offsets.\<close>

theorem frame_round_trip:
  assumes "length (Key p) = 16" and "length (Plaintext p) < 2 ^ 32"
    and "range_fields (UnencryptedRanges p)"
    and "ValidateRanges (UnencryptedRanges p) (int (length (Plaintext p))) = Inr ()"
    and "suppl_size (TruncatedNonce p) (UnencryptedRanges p) \<le> 255"
  shows "\<exists>out. Encrypt p = Inr out \<and>
    Decrypt \<lparr>dp_Ciphertext = out, dp_Key = Key p\<rparr> = Inr (Plaintext p, TruncatedNonce p)"
proof -
  have "layout_valid (UnencryptedRanges p) (length (Plaintext p))"
    using assms by (intro layout_validI in_goint_u32)
  from encryptCoreAppend_total [OF this assms(5), of "Key p"] show ?thesis
    using assms by (auto simp: Encrypt_eq)
qed

text \<open>Witness of \<open>frame_round_trip\<close>: a three-byte frame with its first byte in the clear.\<close>

theorem frame_round_trip_witness:
  "\<exists>out. Encrypt \<lparr>Plaintext = [1, 2, 3], Key = replicate 16 7, TruncatedNonce = 300,
       UnencryptedRanges = [\<lparr>Offset = 0, Length = 1\<rparr>]\<rparr> = Inr out \<and>
     Decrypt \<lparr>dp_Ciphertext = out, dp_Key = replicate 16 7\<rparr> = Inr ([1, 2, 3], 300)"
proof -
  let ?p = "\<lparr>Plaintext = [1, 2, 3], Key = replicate 16 7, TruncatedNonce = 300,
       UnencryptedRanges = [\<lparr>Offset = 0, Length = 1\<rparr>]\<rparr> :: EncryptParams"
  have "\<exists>out. Encrypt ?p = Inr out \<and>
      Decrypt \<lparr>dp_Ciphertext = out, dp_Key = Key ?p\<rparr> = Inr (Plaintext ?p, TruncatedNonce ?p)"
  proof (rule frame_round_trip)
    show "ValidateRanges (UnencryptedRanges ?p) (int (length (Plaintext ?p))) = Inr ()"
      by (simp add: ValidateRanges_def in_goint_def)
    show "suppl_size (TruncatedNonce ?p) (UnencryptedRanges ?p) \<le> 255"
      using length_EncodeULEB128 [of 300] length_EncodeULEB128 [of 0] length_EncodeULEB128 [of 1]
      by (simp add: suppl_size_def)
  qed (simp_all add: range_fields_def in_goint_def)
  then show ?thesis by simp
qed

text \<open>C26 decrypt_iff_encrypted. \<open>Decrypt\<close> accepts exactly the frames that \<open>Encrypt\<close> produces: it returns a
  plaintext and a nonce for \<open>f\<close> if and only if some list of ranges makes \<open>Encrypt\<close> turn them into
  \<open>f\<close> under the same key, and that list is the only one. An accepted frame with another byte is
  therefore the encryption of another plaintext, nonce or list of ranges. The ranges are part
  of the frame: a plaintext has one frame for each way to split its clear bytes into ranges.\<close>

theorem decrypt_iff_encrypted:
  assumes "in_goint (int (length f))" and "length pt < 2 ^ 32"
  shows "Decrypt \<lparr>dp_Ciphertext = f, dp_Key = key\<rparr> = Inr (pt, tn) \<longleftrightarrow>
    (\<exists>!rs. range_fields rs \<and>
       Encrypt \<lparr>Plaintext = pt, Key = key, TruncatedNonce = tn, UnencryptedRanges = rs\<rparr> = Inr f)"
proof
  assume "Decrypt \<lparr>dp_Ciphertext = f, dp_Key = key\<rparr> = Inr (pt, tn)"
  from Decrypt_inv [OF this assms(1)] obtain rs where rs: "length key = 16" "layout_valid rs (length pt)"
      "range_fields rs" "encryptCoreAppend [] (key_gcm key) pt tn rs = Inr f"
    by auto
  then have "ValidateRanges rs (int (length pt)) = Inr ()"
    by (simp add: layout_valid_def ValidateRanges_wf)
  with rs have e: "Encrypt \<lparr>Plaintext = pt, Key = key, TruncatedNonce = tn, UnencryptedRanges = rs\<rparr> = Inr f"
    by (simp add: Encrypt_eq)
  show "\<exists>!rs. range_fields rs \<and>
      Encrypt \<lparr>Plaintext = pt, Key = key, TruncatedNonce = tn, UnencryptedRanges = rs\<rparr> = Inr f"
  proof (rule ex1I [of _ rs])
    fix qs
    assume "range_fields qs \<and>
      Encrypt \<lparr>Plaintext = pt, Key = key, TruncatedNonce = tn, UnencryptedRanges = qs\<rparr> = Inr f"
    with Encrypt_accepted(2) [OF e rs(3) assms(2)] Encrypt_accepted(2) [of pt key tn qs f, OF _ _ assms(2)]
    show "qs = rs"
      by simp
  qed (use e rs(3) in simp)
next
  assume "\<exists>!rs. range_fields rs \<and>
    Encrypt \<lparr>Plaintext = pt, Key = key, TruncatedNonce = tn, UnencryptedRanges = rs\<rparr> = Inr f"
  then show "Decrypt \<lparr>dp_Ciphertext = f, dp_Key = key\<rparr> = Inr (pt, tn)"
    using Encrypt_accepted(1) [OF _ _ assms(2)] by blast
qed

text \<open>Witness of \<open>decrypt_iff_encrypted\<close>: two frames of one packet, nonce and key, whose ranges split the
  two clear bytes in different ways; both are accepted.\<close>

theorem decrypt_iff_encrypted_witness:
  "\<exists>f g. f \<noteq> g \<and>
     Decrypt \<lparr>dp_Ciphertext = f, dp_Key = replicate 16 7\<rparr> = Inr ([1, 2, 3], 9) \<and>
     Decrypt \<lparr>dp_Ciphertext = g, dp_Key = replicate 16 7\<rparr> = Inr ([1, 2, 3], 9) \<and>
     (\<exists>!rs. range_fields rs \<and> Encrypt \<lparr>Plaintext = [1, 2, 3], Key = replicate 16 7, TruncatedNonce = 9,
        UnencryptedRanges = rs\<rparr> = Inr f)"
proof -
  let ?one = "[\<lparr>Offset = 0, Length = 2\<rparr>]" and ?two = "[\<lparr>Offset = 0, Length = 1\<rparr>, \<lparr>Offset = 1, Length = 1\<rparr>]"
  let ?enc = "\<lambda>rs. Encrypt \<lparr>Plaintext = [1, 2, 3], Key = replicate 16 7, TruncatedNonce = 9, UnencryptedRanges = rs\<rparr>"
  have v1: "range_fields ?one" "ValidateRanges ?one (int (length [1, 2, 3 :: u8])) = Inr ()" "suppl_size 9 ?one \<le> 255"
    and v2: "range_fields ?two" "ValidateRanges ?two (int (length [1, 2, 3 :: u8])) = Inr ()" "suppl_size 9 ?two \<le> 255"
    using length_EncodeULEB128 [of 9] length_EncodeULEB128 [of 0] length_EncodeULEB128 [of 1]
      length_EncodeULEB128 [of 2]
    by (simp_all add: in_goint_def range_fields_def ValidateRanges_def suppl_size_def)
  have ex: "\<exists>f. ?enc rs = Inr f \<and> length f = 3 + suppl_size 9 rs" if "range_fields rs"
      "ValidateRanges rs (int (length [1, 2, 3 :: u8])) = Inr ()" "suppl_size 9 rs \<le> 255" for rs
  proof -
    have "layout_valid rs (length [1, 2, 3 :: u8])"
      using that by (intro layout_validI) (simp_all add: in_goint_def)
    from encryptCoreAppend_total [OF this that(3), of "replicate 16 7"] that(2) show ?thesis
      by (auto simp: Encrypt_eq)
  qed
  obtain f where f: "?enc ?one = Inr f" "length f = 3 + suppl_size 9 ?one"
    using ex [OF v1] by blast
  obtain g where g: "?enc ?two = Inr g" "length g = 3 + suppl_size 9 ?two"
    using ex [OF v2] by blast
  have "length [1, 2, 3 :: u8] < 2 ^ 32"
    by simp
  note acc = Encrypt_accepted [OF f(1) v1(1) this] Encrypt_accepted [OF g(1) v2(1) this]
  have "f \<noteq> g"
    using acc(2,4) by auto
  moreover have "in_goint (int (length f))"
    using f(2) v1(3) by (simp add: in_goint_def)
  ultimately show ?thesis
    using decrypt_iff_encrypted [of f "[1, 2, 3]" "replicate 16 7" 9] acc(1,3)
    by (intro exI [of _ f] exI [of _ g]) simp
qed

text \<open>\<open>Decrypt\<close> on any bytes and any key returns a plaintext or one of the package's errors, and never
  panics: every slice it takes is within bounds, whatever the footer claims.\<close>

theorem decrypt_errors:
  assumes "Decrypt \<lparr>dp_Ciphertext = f, dp_Key = key\<rparr> = Inl e" and "in_goint (int (length f))"
  shows "e \<in> {ErrInvalidKeyLength, ErrFrameTooShort, ErrInvalidSupplementalSize, ErrInvalidULEB128,
    ErrInvalidRanges, ErrAuthTagMismatch}"
proof (cases "length key = 16 \<and> LooksLikeDAVEFrame f")
  case False
  then show ?thesis
    using assms(1) by (auto simp: Decrypt_def split: if_splits)
next
  case True
  show ?thesis
  proof (cases "Parse f")
    case (Inl e')
    then have "e = e'"
      using assms(1) True by (simp add: Decrypt_def)
    moreover have "e' \<noteq> ErrInvalidMagicMarker"
      using Inl True by (rule_tac Parse_magic) auto
    ultimately show ?thesis
      using Parse_error [OF Inl] by auto
  next
    case (Inr p)
    from Decrypt_parsed [OF _ _ Inr assms(2)] True assms(1) show ?thesis
      by auto
  qed
qed

text \<open>Witness of \<open>decrypt_errors\<close>: a footer that claims more bytes than the frame has.\<close>

theorem decrypt_errors_witness:
  "Decrypt \<lparr>dp_Ciphertext = replicate 9 0 @ [200, 0xFA, 0xFA], dp_Key = replicate 16 0\<rparr>
     = Inl ErrInvalidSupplementalSize \<and>
   ErrInvalidSupplementalSize \<in> {ErrInvalidKeyLength, ErrFrameTooShort, ErrInvalidSupplementalSize,
     ErrInvalidULEB128, ErrInvalidRanges, ErrAuthTagMismatch}"
proof -
  have d: "Decrypt \<lparr>dp_Ciphertext = replicate 9 0 @ [200, 0xFA, 0xFA], dp_Key = replicate 16 0\<rparr>
      = Inl ErrInvalidSupplementalSize"
    by (simp add: Decrypt_def LooksLikeDAVEFrame_def Parse_def nth_append)
  have "in_goint (int (length (replicate 9 0 @ [200, 0xFA, 0xFA :: u8])))"
    by (simp add: in_goint_def)
  from decrypt_errors [OF d this] d show ?thesis
    by simp
qed

text \<open>C32 encrypt_outcome. Every outcome of \<open>Encrypt\<close>: the three errors occur exactly for a key that is not 16 bytes,
  for ranges that validation rejects, and for a footer that does not fit its size byte;
  otherwise the frame is the plaintext's size plus the supplemental data and is recognised as a
  DAVE frame. It never panics.\<close>

theorem encrypt_outcome:
  assumes "range_fields (UnencryptedRanges p)" and "in_goint (int (length (Plaintext p)))"
  shows "case Encrypt p of
      Inl e \<Rightarrow>
        (e = ErrInvalidKeyLength \<and> length (Key p) \<noteq> 16) \<or>
        (e = ErrInvalidRanges \<and> ValidateRanges (UnencryptedRanges p) (int (length (Plaintext p))) \<noteq> Inr ()) \<or>
        (e = ErrInvalidSupplementalSize \<and> 255 < suppl_size (TruncatedNonce p) (UnencryptedRanges p))
    | Inr out \<Rightarrow>
        length (Key p) = 16 \<and> LooksLikeDAVEFrame out \<and>
        ValidateRanges (UnencryptedRanges p) (int (length (Plaintext p))) = Inr () \<and>
        length out = length (Plaintext p) + suppl_size (TruncatedNonce p) (UnencryptedRanges p) \<and>
        suppl_size (TruncatedNonce p) (UnencryptedRanges p) \<le> 255"
proof (cases "length (Key p) = 16 \<and> ValidateRanges (UnencryptedRanges p) (int (length (Plaintext p))) = Inr ()")
  case False
  then show ?thesis
    by (cases "ValidateRanges (UnencryptedRanges p) (int (length (Plaintext p)))")
      (auto simp: Encrypt_eq dest: ValidateRanges_error)
next
  case True
  then have v: "layout_valid (UnencryptedRanges p) (length (Plaintext p))"
    using assms by (simp add: layout_validI)
  show ?thesis
    using True encryptCoreAppend_total [OF v] encryptCoreAppend_too_big [OF v] encryptCoreAppend_looks [OF v]
    by (cases "suppl_size (TruncatedNonce p) (UnencryptedRanges p) \<le> 255")
      (fastforce simp: Encrypt_eq split: sum.splits)+
qed

text \<open>Witness of \<open>encrypt_outcome\<close>: overlapping ranges.\<close>

theorem encrypt_outcome_witness:
  "Encrypt \<lparr>Plaintext = [1, 2, 3], Key = replicate 16 0, TruncatedNonce = 0,
     UnencryptedRanges = [\<lparr>Offset = 0, Length = 2\<rparr>, \<lparr>Offset = 1, Length = 1\<rparr>]\<rparr> = Inl ErrInvalidRanges"
proof -
  let ?p = "\<lparr>Plaintext = [1, 2, 3], Key = replicate 16 0, TruncatedNonce = 0,
     UnencryptedRanges = [\<lparr>Offset = 0, Length = 2\<rparr>, \<lparr>Offset = 1, Length = 1\<rparr>]\<rparr> :: EncryptParams"
  have "ValidateRanges (UnencryptedRanges ?p) (int (length (Plaintext ?p))) = Inl ErrInvalidRanges"
    by (simp add: ValidateRanges_def in_goint_def)
  moreover have "range_fields (UnencryptedRanges ?p)" "in_goint (int (length (Plaintext ?p)))"
    by (simp_all add: range_fields_def in_goint_def)
  ultimately show ?thesis
    using encrypt_outcome [of ?p] by (simp add: Encrypt_eq)
qed

end
