(* ===== verification/Frame_Buffer.thy ===== *)
theory Frame_Buffer
  imports Frame
begin

text \<open>
  The buffer-writing variants of \<open>frame/encrypt.go\<close> at the level of memory. \<open>Frame\<close> describes
  \<open>EncryptInto\<close> and \<open>EncryptWithCipherInto\<close> by the bytes they report as written; here the
  caller's buffer is an array that the code writes to.

  The array \<open>mem\<close> reaches from the first byte of the caller's \<open>dst\<close> to its capacity, and the
  first \<open>n\<close> bytes are \<open>dst\<close> itself. A slice of the program either starts at the front of that
  array, with a length and a capacity of its own, or has moved to an array that \<open>append\<close>
  allocated and that nobody else sees. An operation maps the array before to its result and the
  array after. The plaintext and the ranges are values: the Go comment requires that the
  plaintext does not overlap \<open>dst\<close>.

  The predicate \<open>implements\<close> relates an operation on the array to the operation of \<open>Frame\<close> on
  contents: the results agree, errors included, and no byte of the array from \<open>n\<close> on changes.
\<close>

section \<open>Definitions\<close>

subsection \<open>Slices, \<open>append\<close> and \<open>copy\<close>\<close>

datatype slice =
    Shared nat nat \<comment> \<open>the first bytes of the caller's array: length and capacity\<close>
  | Owned bytes \<comment> \<open>an array allocated by \<open>append\<close>\<close>

type_synonym 'a st = "bytes \<Rightarrow> (frame_error + 'a) \<times> bytes"

definition st_return :: "'a \<Rightarrow> 'a st" where
  "st_return x mem = (Inr x, mem)"

definition st_lift :: "frame_error + 'a \<Rightarrow> 'a st" where
  "st_lift r mem = (r, mem)"

definition st_bind :: "'a st \<Rightarrow> ('a \<Rightarrow> 'b st) \<Rightarrow> 'b st" where
  "st_bind m k mem = (case m mem of (Inl e, mem') \<Rightarrow> (Inl e, mem') | (Inr x, mem') \<Rightarrow> k x mem')"

definition overwrite :: "bytes \<Rightarrow> nat \<Rightarrow> bytes \<Rightarrow> bytes" where
  "overwrite xs pos ys = take pos xs @ ys @ drop (pos + length ys) xs"

fun contents :: "bytes \<Rightarrow> slice \<Rightarrow> bytes" where
  "contents mem (Shared l c) = take l mem"
| "contents mem (Owned bs) = bs"

fun slice_len :: "slice \<Rightarrow> nat" where
  "slice_len (Shared l c) = l"
| "slice_len (Owned bs) = length bs"

fun reslice :: "slice \<Rightarrow> nat \<Rightarrow> slice" where \<comment> \<open>\<open>s[:k]\<close>, which keeps the capacity\<close>
  "reslice (Shared l c) k = Shared k c"
| "reslice (Owned bs) k = Owned (take k bs)"

fun go_append :: "slice \<Rightarrow> bytes \<Rightarrow> slice st" where
  "go_append (Shared l c) xs mem =
     (if l + length xs \<le> c then (Inr (Shared (l + length xs) c), overwrite mem l xs)
      else (Inr (Owned (take l mem @ xs)), mem))"
| "go_append (Owned bs) xs mem = (Inr (Owned (bs @ xs)), mem)"

fun poke :: "slice \<Rightarrow> nat \<Rightarrow> bytes \<Rightarrow> slice st" where
  "poke (Shared l c) pos xs mem = (Inr (Shared l c), overwrite mem pos xs)"
| "poke (Owned bs) pos xs mem = (Inr (Owned (overwrite bs pos xs)), mem)"

definition copy_window :: "slice \<Rightarrow> nat \<Rightarrow> int \<Rightarrow> int \<Rightarrow> bytes \<Rightarrow> slice st" where
  \<comment> \<open>\<open>copy(out[lo:hi], src)\<close> for \<open>out := s[start:]\<close>\<close>
  "copy_window s start lo hi src =
     (if 0 \<le> lo \<and> lo \<le> hi \<and> hi \<le> int (slice_len s - start)
      then poke s (start + nat lo) (take (min (nat (hi - lo)) (length src)) src)
      else st_lift (Inl GoPanic))"

subsection \<open>The operations of the package\<close>

text \<open>The standard library's \<open>Seal\<close> extends \<open>dst\<close> by the ciphertext and the 16-byte tag, in place
  if the capacity allows it (\<open>sliceForAppend\<close>); \<open>gcm8.Seal\<close> then cuts the tag and appends its
  first eight bytes again.\<close>

definition gcm8_Seal_at ::
    "(bytes \<Rightarrow> bytes \<Rightarrow> bytes \<Rightarrow> bytes) \<Rightarrow> slice \<Rightarrow> bytes \<Rightarrow> bytes \<Rightarrow> bytes \<Rightarrow> slice st" where
  "gcm8_Seal_at inner dst nonce plaintext aad =
     st_bind (go_append dst (inner nonce plaintext aad)) (\<lambda>sealed mem.
       let tagStart = slice_len sealed - 16
       in go_append (reslice sealed tagStart) (take 8 (drop tagStart (contents mem sealed))) mem)"

function appendULEB128_at :: "slice \<Rightarrow> u32 \<Rightarrow> slice st" where
  "appendULEB128_at dst value =
     (if 0x80 \<le> value
      then st_bind (go_append dst [0x80 OR ucast (value AND 0x7F)]) (\<lambda>dst'.
           appendULEB128_at dst' (drop_bit 7 value))
      else go_append dst [ucast value])"
  by pat_completeness auto
termination
proof (relation "measure (\<lambda>(dst, value). unat value)")
  fix dst dst' :: slice and v :: u32
  assume "0x80 \<le> v"
  then have "0 < unat v"
    by (simp add: word_le_nat_alt)
  then show "((dst', drop_bit 7 v), dst, v) \<in> measure (\<lambda>(dst, value). unat value)"
    by (simp only: unat_drop_bit_eq in_measure prod.case) (simp add: drop_bit_eq_div)
qed simp

declare appendULEB128_at.simps [simp del]

fun append_ranges_at :: "slice \<Rightarrow> Range list \<Rightarrow> slice st" where
  "append_ranges_at out [] = st_return out"
| "append_ranges_at out (r # rs) =
     st_bind (appendULEB128_at out (word_of_int (Offset r))) (\<lambda>out.
     st_bind (appendULEB128_at out (word_of_int (Length r))) (\<lambda>out.
     append_ranges_at out rs))"

fun interleave_loop_at :: "slice \<Rightarrow> nat \<Rightarrow> int \<Rightarrow> int \<Rightarrow> Range list \<Rightarrow> bytes \<Rightarrow> (slice \<times> int \<times> int) st" where
  "interleave_loop_at dst start cipherPos lst [] src = st_return (dst, cipherPos, lst)"
| "interleave_loop_at dst start cipherPos lst (r # rs) src =
     (if lst < Offset r then
        (let n = goint (Offset r - lst) in
         st_bind (st_lift (of_option GoPanic (go_slice src cipherPos (goint (cipherPos + n))))) (\<lambda>seg.
         st_bind (copy_window dst start lst (Offset r) seg) (\<lambda>dst.
         interleave_loop_at dst start (goint (cipherPos + n)) (goint (Offset r + Length r)) rs src)))
      else interleave_loop_at dst start cipherPos (goint (Offset r + Length r)) rs src)"

definition appendInterleaved_at :: "slice \<Rightarrow> bytes \<Rightarrow> Range list \<Rightarrow> bytes \<Rightarrow> slice st" where
  "appendInterleaved_at dst original ranges ciphertext =
     (let start = slice_len dst in
      st_bind (go_append dst original) (\<lambda>dst.
      st_bind (interleave_loop_at dst start 0 0 ranges ciphertext) (\<lambda>(dst, cipherPos, lst).
      if lst < int (length original) then
        st_bind (st_lift (of_option GoPanic (go_slice ciphertext cipherPos (int (length ciphertext))))) (\<lambda>seg.
        copy_window dst start lst (int (slice_len dst - start)) seg)
      else st_return dst)))"

definition encryptCoreAppend_at ::
    "slice \<Rightarrow> (bytes \<Rightarrow> bytes \<Rightarrow> bytes \<Rightarrow> bytes) \<Rightarrow> bytes \<Rightarrow> u32 \<Rightarrow> Range list \<Rightarrow> slice st" where
  "encryptCoreAppend_at dst inner plaintext truncatedNonce unencryptedRanges =
     (let nonce = full_nonce truncatedNonce;
          nonceBytes = appendULEB128 [] truncatedNonce
      in if length unencryptedRanges = 0 then
           st_bind (gcm8_Seal_at inner dst nonce plaintext []) (\<lambda>out.
           let supplSize = of_nat (tagLen + length nonceBytes + supplSizeLen + magicLen) in
           st_bind (go_append out nonceBytes) (\<lambda>out.
           st_bind (go_append out [supplSize]) (\<lambda>out.
           go_append out [0xFA, 0xFA])))
         else
           st_bind (st_lift (of_option GoPanic (ExtractCiphertext plaintext unencryptedRanges))) (\<lambda>ciphertext.
           st_bind (st_lift (of_option GoPanic (buildAAD plaintext unencryptedRanges))) (\<lambda>aad.
           let sealed = gcm8_Seal inner [] nonce ciphertext aad in
           st_bind (st_lift (of_option GoPanic (go_slice sealed 0 (int (length sealed) - 8)))) (\<lambda>ciphertextOut.
           st_bind (st_lift (of_option GoPanic
             (go_slice sealed (int (length sealed) - 8) (int (length sealed))))) (\<lambda>tag.
           st_bind (appendInterleaved_at dst plaintext unencryptedRanges ciphertextOut) (\<lambda>out.
           st_bind (go_append out tag) (\<lambda>out.
           st_bind (go_append out nonceBytes) (\<lambda>out.
           let rangesStart = slice_len out in
           st_bind (append_ranges_at out unencryptedRanges) (\<lambda>out.
           let rangesLen = slice_len out - rangesStart;
               supplSize = tagLen + length nonceBytes + rangesLen + supplSizeLen + magicLen
           in if maxSupplSize < supplSize then st_lift (Inl ErrInvalidSupplementalSize)
              else st_bind (go_append out [of_nat supplSize]) (\<lambda>out.
                   go_append out [0xFA, 0xFA]))))))))))"

text \<open>The caller's \<open>dst\<close> is given by its length \<open>n\<close>; \<open>Shared 0 n\<close> is \<open>dst[:0:len(dst)]\<close>. The final
  \<open>copy\<close> is a copy of the array onto itself if the frame was built in place.\<close>

definition encryptInto_at ::
    "nat \<Rightarrow> (bytes \<Rightarrow> bytes \<Rightarrow> bytes \<Rightarrow> bytes) \<Rightarrow> bytes \<Rightarrow> u32 \<Rightarrow> Range list \<Rightarrow> nat st" where
  "encryptInto_at n inner plaintext truncatedNonce unencryptedRanges =
     st_bind (encryptCoreAppend_at (Shared 0 n) inner plaintext truncatedNonce unencryptedRanges) (\<lambda>out mem.
       if n < slice_len out then (Inl ErrBufferTooSmall, mem)
       else (Inr (slice_len out), overwrite mem 0 (contents mem out)))"

definition EncryptInto_at :: "nat \<Rightarrow> EncryptParams \<Rightarrow> nat st" where
  "EncryptInto_at n params =
     (if length (Key params) \<noteq> 16 then st_lift (Inl ErrInvalidKeyLength)
      else st_bind (st_lift (ValidateRanges (UnencryptedRanges params) (int (length (Plaintext params))))) (\<lambda>_.
           st_bind (st_lift (aes_NewCipher (Key params))) (\<lambda>block.
           encryptInto_at n (gcm_seal block) (Plaintext params) (TruncatedNonce params)
             (UnencryptedRanges params))))"

text \<open>The cached cipher is a \<open>gcm8\<close> struct around \<open>inner\<close>, or the nil interface.\<close>

definition EncryptWithCipherInto_at ::
    "nat \<Rightarrow> (bytes \<Rightarrow> bytes \<Rightarrow> bytes \<Rightarrow> bytes) option \<Rightarrow> bytes \<Rightarrow> u32 \<Rightarrow> Range list \<Rightarrow> nat st" where
  "EncryptWithCipherInto_at n cipher plaintext truncatedNonce unencryptedRanges =
     (case cipher of
        None \<Rightarrow> st_lift (Inl ErrInvalidKeyLength)
      | Some inner \<Rightarrow>
          st_bind (st_lift (ValidateRanges unencryptedRanges (int (length plaintext)))) (\<lambda>_.
          encryptInto_at n inner plaintext truncatedNonce unencryptedRanges))"

section \<open>Implementation of the operations on contents\<close>

fun slice_ok :: "nat \<Rightarrow> bytes \<Rightarrow> slice \<Rightarrow> bool" where
  "slice_ok n mem (Shared l c) \<longleftrightarrow> l \<le> c \<and> c = n \<and> n \<le> length mem"
| "slice_ok n mem (Owned bs) \<longleftrightarrow> n \<le> length mem"

text \<open>A slice that stands for the given contents; a slice of the caller's array has its capacity
  capped at \<open>dst\<close>.\<close>

definition holds :: "nat \<Rightarrow> bytes \<Rightarrow> slice \<Rightarrow> bytes \<Rightarrow> bool" where
  "holds n mem s bs \<longleftrightarrow> slice_ok n mem s \<and> contents mem s = bs"

definition keeps_spare :: "nat \<Rightarrow> bytes \<Rightarrow> bytes \<Rightarrow> bool" where
  "keeps_spare n mem mem' \<longleftrightarrow> length mem' = length mem \<and> drop n mem' = drop n mem"

definition implements ::
    "nat \<Rightarrow> (bytes \<Rightarrow> 'b \<Rightarrow> 'a \<Rightarrow> bool) \<Rightarrow> frame_error + 'a \<Rightarrow> bytes \<Rightarrow> (frame_error + 'b) \<times> bytes \<Rightarrow> bool" where
  "implements n R spec mem out \<longleftrightarrow> keeps_spare n mem (snd out) \<and>
     (case (spec, fst out) of
        (Inl e, Inl e') \<Rightarrow> e' = e
      | (Inr x, Inr y) \<Rightarrow> R (snd out) y x
      | _ \<Rightarrow> False)"

lemma keeps_spare_refl [simp]: "keeps_spare n mem mem"
  by (simp add: keeps_spare_def)

lemma keeps_spare_trans: "keeps_spare n mem mem' \<Longrightarrow> keeps_spare n mem' mem'' \<Longrightarrow> keeps_spare n mem mem''"
  by (simp add: keeps_spare_def)

lemma length_overwrite [simp]: "pos + length ys \<le> length xs \<Longrightarrow> length (overwrite xs pos ys) = length xs"
  by (simp add: overwrite_def)

lemma take_overwrite:
  assumes "pos + length ys \<le> l" and "l \<le> length xs"
  shows "take l (overwrite xs pos ys) = overwrite (take l xs) pos ys"
  using assms by (simp add: overwrite_def min.absorb1 drop_take diff_diff_left)

lemma keeps_spare_overwrite:
  "pos + length xs \<le> n \<Longrightarrow> n \<le> length mem \<Longrightarrow> keeps_spare n mem (overwrite mem pos xs)"
  by (simp add: keeps_spare_def overwrite_def)

lemma implements_Inr: "implements n R (Inr x) mem (Inr y, mem') \<longleftrightarrow> keeps_spare n mem mem' \<and> R mem' y x"
  by (simp add: implements_def)

lemma implements_error: "implements n R (Inl e) mem (st_lift (Inl e) mem)"
  by (simp add: implements_def st_lift_def)

lemma implements_if:
  "(c \<Longrightarrow> implements n R r mem (f mem)) \<Longrightarrow> (\<not> c \<Longrightarrow> implements n R r' mem (g mem)) \<Longrightarrow>
     implements n R (if c then r else r') mem ((if c then f else g) mem)"
  by simp

lemma implements_bind:
  assumes "implements n R r mem (m mem)"
    and "\<And>x y mem'. r = Inr x \<Longrightarrow> R mem' y x \<Longrightarrow> implements n Q (f x) mem' (k y mem')"
  shows "implements n Q (ebind r f) mem (st_bind m k mem)"
proof (cases "m mem")
  case (Pair out mem')
  show ?thesis
  proof (cases r)
    case (Inr x)
    then obtain y where y: "out = Inr y" "R mem' y x" "keeps_spare n mem mem'"
      using assms(1) Pair by (auto simp: implements_def split: sum.splits)
    then show ?thesis
      using assms(2) [OF Inr y(2)] Inr Pair keeps_spare_trans [OF y(3)]
      by (auto simp: implements_def st_bind_def)
  qed (use assms(1) Pair in \<open>auto simp: implements_def st_bind_def split: sum.splits\<close>)
qed

lemma implements_lift_bind:
  assumes "\<And>x. r = Inr x \<Longrightarrow> implements n Q (f x) mem (k x mem)"
  shows "implements n Q (ebind r f) mem (st_bind (st_lift r) k mem)"
  using assms by (cases r) (auto simp: implements_def st_bind_def st_lift_def)

text \<open>A step whose counterpart on contents cannot fail.\<close>

lemma implements_bind_pure:
  assumes "implements n R (Inr x) mem (m mem)"
    and "\<And>y mem'. R mem' y x \<Longrightarrow> implements n Q r mem' (k y mem')"
  shows "implements n Q r mem (st_bind m k mem)"
  using implements_bind [of n R "Inr x" mem m Q "\<lambda>_. r" k] assms by simp

section \<open>Lemmas on the slice operations\<close>

lemma holds_len: "holds n mem s bs \<Longrightarrow> slice_len s = length bs"
  by (cases s) (auto simp: holds_def)

lemma holds_reslice: "holds n mem s bs \<Longrightarrow> k \<le> length bs \<Longrightarrow> holds n mem (reslice s k) (take k bs)"
  by (cases s) (auto simp: holds_def min.absorb1)

lemma go_append_implements:
  "holds n mem s bs \<Longrightarrow> implements n (holds n) (Inr (bs @ xs)) mem (go_append s xs mem)"
  by (cases s) (auto simp: holds_def implements_Inr keeps_spare_overwrite, simp_all add: overwrite_def)

lemma go_append_bind:
  assumes "holds n mem s bs"
    and "\<And>out mem'. holds n mem' out (bs @ xs) \<Longrightarrow> implements n Q r mem' (k out mem')"
  shows "implements n Q r mem (st_bind (go_append s xs) k mem)"
  using go_append_implements [OF assms(1)] by (rule implements_bind_pure) (rule assms(2))

lemma poke_implements:
  "holds n mem s bs \<Longrightarrow> pos + length xs \<le> length bs \<Longrightarrow>
     implements n (holds n) (Inr (overwrite bs pos xs)) mem (poke s pos xs mem)"
  by (cases s) (auto simp: holds_def implements_Inr keeps_spare_overwrite take_overwrite)

lemma overwrite_append: "overwrite (pre @ out) (length pre + pos) xs = pre @ overwrite out pos xs"
  by (simp add: overwrite_def)

text \<open>In a window that starts after \<open>pre\<close>, \<open>copy\<close> acts as on the rest alone.\<close>

abbreviation holds_after :: "nat \<Rightarrow> bytes \<Rightarrow> bytes \<Rightarrow> slice \<Rightarrow> bytes \<Rightarrow> bool" where
  "holds_after n pre mem s out \<equiv> holds n mem s (pre @ out)"

lemma copy_window_implements:
  assumes "holds_after n pre mem s out"
  shows "implements n (holds_after n pre) (of_option GoPanic (go_copy out lo hi src)) mem
    (copy_window s (length pre) lo hi src mem)"
proof (cases "0 \<le> lo \<and> lo \<le> hi \<and> hi \<le> int (length out)")
  case True
  let ?seg = "take (min (nat (hi - lo)) (length src)) src"
  have "go_copy out lo hi src = Some (overwrite out (nat lo) ?seg)"
    using True by (simp add: go_copy_def overwrite_def Let_def)
  moreover have "copy_window s (length pre) lo hi src mem = poke s (length pre + nat lo) ?seg mem"
    using True holds_len [OF assms] by (simp add: copy_window_def)
  moreover have "length pre + nat lo + length ?seg \<le> length (pre @ out)"
    using True by auto
  ultimately show ?thesis
    using poke_implements [OF assms, of "length pre + nat lo" ?seg]
    by (auto simp: implements_def overwrite_append split: sum.splits)
next
  case False
  then have "go_copy out lo hi src = None"
    by (auto simp: go_copy_def)
  then show ?thesis
    using False holds_len [OF assms] by (auto simp: copy_window_def implements_def st_lift_def)
qed

section \<open>Lemmas on the operations of the package\<close>

lemma gcm8_Seal_at_implements:
  assumes "holds n mem dst bs"
  shows "implements n (holds n) (Inr (gcm8_Seal inner bs nonce pt aad)) mem (gcm8_Seal_at inner dst nonce pt aad mem)"
  unfolding gcm8_Seal_at_def
proof (rule go_append_bind [OF assms])
  fix sealed mem'
  assume h: "holds n mem' sealed (bs @ inner nonce pt aad)"
  define c where "c = bs @ inner nonce pt aad"
  have c: "contents mem' sealed = c" "slice_len sealed = length c"
    using h holds_len [OF h] by (simp_all add: holds_def c_def)
  show "implements n (holds n) (Inr (gcm8_Seal inner bs nonce pt aad)) mem'
      (let tagStart = slice_len sealed - 16
       in go_append (reslice sealed tagStart) (take 8 (drop tagStart (contents mem' sealed))) mem')"
    unfolding gcm8_Seal_def Let_def c c_def [symmetric]
    by (rule go_append_implements [OF holds_reslice [OF h [folded c_def]]]) simp
qed

lemma appendULEB128_at_implements:
  "holds n mem dst bs \<Longrightarrow>
     implements n (holds n) (Inr (appendULEB128 bs v)) mem (appendULEB128_at dst v mem)"
proof (induction bs v arbitrary: mem dst rule: appendULEB128.induct)
  case (1 bs v)
  show ?case
  proof (cases "0x80 \<le> v")
    case True
    show ?thesis
      unfolding appendULEB128.simps [of bs v] appendULEB128_at.simps [of dst v]
      using True
      by (auto intro: go_append_bind [OF "1.prems"] "1.IH")
  next
    case False
    then show ?thesis
      using go_append_implements [OF "1.prems"]
      by (simp add: appendULEB128.simps [of bs v] appendULEB128_at.simps [of dst v])
  qed
qed

lemma appendULEB128_at_bind:
  assumes "holds n mem s bs"
    and "\<And>out mem'. holds n mem' out (appendULEB128 bs v) \<Longrightarrow> implements n Q r mem' (k out mem')"
  shows "implements n Q r mem (st_bind (appendULEB128_at s v) k mem)"
  using appendULEB128_at_implements [OF assms(1)] by (rule implements_bind_pure) (rule assms(2))

lemma append_ranges_at_implements:
  "holds n mem out bs \<Longrightarrow>
     implements n (holds n) (Inr (append_ranges bs rs)) mem (append_ranges_at out rs mem)"
proof (induction rs arbitrary: mem out bs)
  case Nil
  then show ?case
    by (simp add: implements_Inr st_return_def)
next
  case (Cons r rs)
  show ?case
    unfolding append_ranges.simps append_ranges_at.simps
    by (rule appendULEB128_at_bind [OF Cons.prems], erule appendULEB128_at_bind, erule Cons.IH)
qed

lemma interleave_loop_at_implements:
  "holds_after n pre mem dst out \<Longrightarrow>
     implements n (\<lambda>mem (dst, p, l) (out, p', l'). holds_after n pre mem dst out \<and> p = p' \<and> l = l')
       (of_option GoPanic (interleave_loop out cipherPos lst rs src)) mem
       (interleave_loop_at dst (length pre) cipherPos lst rs src mem)"
proof (induction rs arbitrary: mem dst out cipherPos lst)
  case Nil
  then show ?case
    by (simp add: implements_Inr st_return_def)
next
  case (Cons r rs)
  let ?n = "goint (Offset r - lst)"
  have step: "of_option GoPanic (interleave_loop out cipherPos lst (r # rs) src) =
      ebind (of_option GoPanic (go_slice src cipherPos (goint (cipherPos + ?n)))) (\<lambda>seg.
      ebind (of_option GoPanic (go_copy out lst (Offset r) seg)) (\<lambda>out'.
      of_option GoPanic (interleave_loop out' (goint (cipherPos + ?n)) (goint (Offset r + Length r)) rs src)))"
    if "lst < Offset r"
    using that by (auto simp: Let_def split: option.splits)
  show ?case
  proof (cases "lst < Offset r")
    case True
    show ?thesis
      unfolding step [OF True] interleave_loop_at.simps if_P [OF True] Let_def
      by (intro implements_lift_bind implements_bind [OF copy_window_implements] Cons) assumption
  next
    case False
    then show ?thesis
      using Cons by simp
  qed
qed

lemma go_copy_length: "go_copy xs lo hi src = Some ys \<Longrightarrow> length ys = length xs"
  by (auto simp: go_copy_def Let_def split: if_splits)

lemma interleave_loop_length:
  "interleave_loop out cipherPos lst rs src = Some (out', p, l) \<Longrightarrow> length out' = length out"
proof (induction rs arbitrary: out cipherPos lst)
  case (Cons r rs)
  then show ?case
    by (auto simp: Let_def go_copy_length split: if_splits option.splits)
qed simp

lemma of_option_map: "of_option e (map_option f x) = ebind (of_option e x) (\<lambda>y. Inr (f y))"
  by (cases x) simp_all

lemma appendInterleaved_ebind:
  "of_option GoPanic (appendInterleaved bs pt rs c) =
     ebind (of_option GoPanic (interleave_loop pt 0 0 rs c)) (\<lambda>(out, cipherPos, lst).
     ebind (of_option GoPanic (interleave_tail out cipherPos lst c)) (\<lambda>out'. Inr (bs @ out')))"
  by (cases "interleave_loop pt 0 0 rs c") (auto simp: appendInterleaved_def of_option_map)

lemma appendInterleaved_at_implements:
  assumes "holds n mem dst bs"
  shows "implements n (holds n) (of_option GoPanic (appendInterleaved bs pt rs c)) mem
    (appendInterleaved_at dst pt rs c mem)"
  unfolding appendInterleaved_at_def Let_def holds_len [OF assms]
proof (rule go_append_bind [OF assms])
  fix dst' mem'
  assume "holds n mem' dst' (bs @ pt)"
  note loop = interleave_loop_at_implements [OF this, of 0 0 rs c]
  show "implements n (holds n) (of_option GoPanic (appendInterleaved bs pt rs c)) mem'
      (st_bind (interleave_loop_at dst' (length bs) 0 0 rs c) (\<lambda>(dst, cipherPos, lst).
        if lst < int (length pt) then
          st_bind (st_lift (of_option GoPanic (go_slice c cipherPos (int (length c))))) (\<lambda>seg.
          copy_window dst (length bs) lst (int (slice_len dst - length bs)) seg)
        else st_return dst) mem')"
    unfolding appendInterleaved_ebind
  proof (rule implements_bind, rule loop, clarsimp)
    fix out p l s m
    assume "of_option GoPanic (interleave_loop pt 0 0 rs c) = Inr (out, p, l)" and h: "holds n m s (bs @ out)"
    then have len: "length out = length pt" "slice_len s - length bs = length out"
      using holds_len [OF h] by (auto simp: error_iffs dest: interleave_loop_length)
    have tail: "ebind (of_option GoPanic (interleave_tail out p l c)) (\<lambda>out'. Inr (bs @ out')) =
        (if l < int (length pt) then
           ebind (of_option GoPanic (go_slice c p (int (length c)))) (\<lambda>seg.
           ebind (of_option GoPanic (go_copy out l (int (length out)) seg)) (\<lambda>out'. Inr (bs @ out')))
         else Inr (bs @ out))"
      by (auto simp: interleave_tail_def len split: option.splits)
    have "implements n (holds n) (ebind (of_option GoPanic (go_copy out l (int (length out)) seg)) (\<lambda>out'. Inr (bs @ out')))
        m (copy_window s (length bs) l (int (length out)) seg m)" for seg
      using copy_window_implements [OF h, of l "int (length out)" seg]
      by (auto simp: implements_def split: sum.splits option.splits)
    then show "(l < int (length pt) \<longrightarrow> implements n (holds n)
          (ebind (of_option GoPanic (interleave_tail out p l c)) (\<lambda>out'. Inr (bs @ out'))) m
          (st_bind (st_lift (of_option GoPanic (go_slice c p (int (length c))))) (\<lambda>seg.
            copy_window s (length bs) l (int (slice_len s - length bs)) seg) m)) \<and>
        (\<not> l < int (length pt) \<longrightarrow> implements n (holds n)
          (ebind (of_option GoPanic (interleave_tail out p l c)) (\<lambda>out'. Inr (bs @ out'))) m (st_return s m))"
      using h unfolding tail len
      by (auto intro!: implements_lift_bind simp: st_return_def implements_Inr)
  qed
qed

lemma append_magic_implements:
  assumes "holds n mem out bs"
  shows "implements n (holds n) (Inr (bs @ [b] @ [0xFA, 0xFA])) mem
    (st_bind (go_append out [b]) (\<lambda>out. go_append out [0xFA, 0xFA]) mem)"
  by (rule go_append_bind [OF assms]) (use go_append_implements in fastforce)

text \<open>Everything after the interleaved frame: tag, nonce, ranges, size and marker.\<close>

lemma footer_at_implements:
  assumes "holds n mem out bs"
  shows "implements n (holds n)
    (let out2 = bs @ tag @ nb;
         out3 = append_ranges out2 rs;
         supplSize = tagLen + length nb + (length out3 - length out2) + supplSizeLen + magicLen
     in if maxSupplSize < supplSize then Inl ErrInvalidSupplementalSize
        else Inr (out3 @ [of_nat supplSize] @ [0xFA, 0xFA])) mem
    (st_bind (go_append out tag) (\<lambda>out.
     st_bind (go_append out nb) (\<lambda>out.
     let rangesStart = slice_len out in
     st_bind (append_ranges_at out rs) (\<lambda>out.
     let rangesLen = slice_len out - rangesStart;
         supplSize = tagLen + length nb + rangesLen + supplSizeLen + magicLen
     in if maxSupplSize < supplSize then st_lift (Inl ErrInvalidSupplementalSize)
        else st_bind (go_append out [of_nat supplSize]) (\<lambda>out. go_append out [0xFA, 0xFA])))) mem)"
proof (rule go_append_bind [OF assms], erule go_append_bind, unfold Let_def, rule implements_bind_pure,
    erule append_ranges_at_implements)
  fix out2 mem2 out3 mem3
  assume h2: "holds n mem2 out2 ((bs @ tag) @ nb)" and h3: "holds n mem3 out3 (append_ranges ((bs @ tag) @ nb) rs)"
  have eq: "slice_len out3 - slice_len out2 = length (append_ranges (bs @ tag @ nb) rs) - length (bs @ tag @ nb)"
    using holds_len [OF h2] holds_len [OF h3] by simp
  show "implements n (holds n)
    (if maxSupplSize < tagLen + length nb + (length (append_ranges (bs @ tag @ nb) rs) - length (bs @ tag @ nb))
          + supplSizeLen + magicLen
     then Inl ErrInvalidSupplementalSize
     else Inr (append_ranges (bs @ tag @ nb) rs @ [of_nat (tagLen + length nb +
            (length (append_ranges (bs @ tag @ nb) rs) - length (bs @ tag @ nb)) + supplSizeLen + magicLen)] @ [0xFA, 0xFA]))
    mem3
    ((if maxSupplSize < tagLen + length nb + (slice_len out3 - slice_len out2) + supplSizeLen + magicLen
      then st_lift (Inl ErrInvalidSupplementalSize)
      else st_bind (go_append out3 [of_nat (tagLen + length nb + (slice_len out3 - slice_len out2) + supplSizeLen + magicLen)])
        (\<lambda>out. go_append out [0xFA, 0xFA])) mem3)"
    unfolding eq by (intro implements_if implements_error append_magic_implements) (use h3 in simp)
qed

lemma encryptCoreAppend_at_implements:
  assumes "holds n mem dst bs"
  shows "implements n (holds n) (encryptCoreAppend bs (gcm8 inner) pt tn rs) mem
    (encryptCoreAppend_at dst inner pt tn rs mem)"
proof (cases "rs = []")
  case True
  have "implements n (holds n) (Inr ((gcm8_Seal inner bs (full_nonce tn) pt [] @ nb) @ [b] @ [0xFA, 0xFA])) mem
      (st_bind (gcm8_Seal_at inner dst (full_nonce tn) pt []) (\<lambda>out.
       st_bind (go_append out nb) (\<lambda>out.
       st_bind (go_append out [b]) (\<lambda>out. go_append out [0xFA, 0xFA]))) mem)" for nb b
    by (rule implements_bind_pure, rule gcm8_Seal_at_implements [OF assms], erule go_append_bind,
        erule append_magic_implements)
  then show ?thesis
    using True by (simp add: encryptCoreAppend_def encryptCoreAppend_at_def Let_def)
next
  case False
  then have ne: "length rs \<noteq> 0" by simp
  show ?thesis
    unfolding encryptCoreAppend_def encryptCoreAppend_at_def gcm8_sel Let_def if_not_P [OF ne]
    by (intro implements_lift_bind, rule implements_bind, rule appendInterleaved_at_implements [OF assms],
        erule footer_at_implements [unfolded Let_def])
qed

lemma encryptInto_at_implements:
  assumes "n \<le> length mem"
  shows "implements n (\<lambda>mem' k out. k = length out \<and> take k mem' = out)
    (encryptInto (take n mem) (gcm8 inner) pt tn rs) mem (encryptInto_at n inner pt tn rs mem)"
  unfolding encryptInto_def encryptInto_at_def
proof (rule implements_bind, rule encryptCoreAppend_at_implements)
  show "holds n mem (Shared 0 n) []"
    using assms by (simp add: holds_def)
  fix out s mem'
  assume h: "holds n mem' s out"
  note len = holds_len [OF h]
  have "keeps_spare n mem' (overwrite mem' 0 out) \<and> take (length out) (overwrite mem' 0 out) = out"
    if "length out \<le> n"
    using h that by (cases s) (auto simp: holds_def overwrite_def keeps_spare_def)
  then show "implements n (\<lambda>mem' k out. k = length out \<and> take k mem' = out)
      (if length (take n mem) < length out then Inl ErrBufferTooSmall else Inr out) mem'
      (if n < slice_len s then (Inl ErrBufferTooSmall, mem')
       else (Inr (slice_len s), overwrite mem' 0 (contents mem' s)))"
    using h assms len by (auto simp: implements_def holds_def)
qed

text \<open>A call that fills the caller's buffer with a frame: it returns the number of bytes if the
  frame fits, reports a buffer that is too short or the error of the encryption otherwise, and
  leaves the array after the buffer as it was.\<close>

definition fills_buffer :: "nat \<Rightarrow> bytes \<Rightarrow> frame_error + bytes \<Rightarrow> (frame_error + nat) \<times> bytes \<Rightarrow> bool" where
  "fills_buffer n mem frame out \<longleftrightarrow>
     length (snd out) = length mem \<and> drop n (snd out) = drop n mem \<and>
     (case frame of
        Inl e \<Rightarrow> fst out = Inl e
      | Inr bs \<Rightarrow>
          if length bs \<le> n then fst out = Inr (length bs) \<and> take (length bs) (snd out) = bs
          else fst out = Inl ErrBufferTooSmall)"

lemma fills_bufferI:
  assumes "implements n (\<lambda>mem' k out. k = length out \<and> take k mem' = out)
      (ebind r (\<lambda>out. if m < length out then Inl ErrBufferTooSmall else Inr out)) mem out" and "m = n"
  shows "fills_buffer n mem r out"
  using assms
  by (auto simp: fills_buffer_def implements_def keeps_spare_def split: sum.splits if_splits)

lemma encryptInto_at_fills:
  "n \<le> length mem \<Longrightarrow>
     fills_buffer n mem (encryptCoreAppend [] (gcm8 inner) pt tn rs) (encryptInto_at n inner pt tn rs mem)"
  by (rule fills_bufferI [OF encryptInto_at_implements [unfolded encryptInto_def]]) simp_all

lemma fills_buffer_bind:
  "(\<And>x. r = Inr x \<Longrightarrow> fills_buffer n mem (f x) (k x mem)) \<Longrightarrow>
     fills_buffer n mem (ebind r f) (st_bind (st_lift r) k mem)"
  by (cases r) (simp_all add: fills_buffer_def st_bind_def st_lift_def)

lemma fills_buffer_error: "fills_buffer n mem (Inl e) (st_lift (Inl e) mem)"
  by (simp add: fills_buffer_def st_lift_def)

lemma st_bind_lift_Inr [simp]: "st_bind (st_lift (Inr x)) k = k x"
  by (rule ext) (simp add: st_bind_def st_lift_def)

lemma EncryptInto_at_fills:
  assumes "n \<le> length mem"
  shows "fills_buffer n mem (Encrypt p) (EncryptInto_at n p mem)"
proof (cases "length (Key p) = 16")
  case True
  then show ?thesis
    using assms by (auto simp: Encrypt_eq EncryptInto_at_def aes_NewCipher_def
        intro!: fills_buffer_bind encryptInto_at_fills)
next
  case False
  then show ?thesis
    by (simp add: Encrypt_eq EncryptInto_at_def fills_buffer_error)
qed

lemma EncryptWithCipherInto_at_fills:
  assumes "n \<le> length mem"
  shows "fills_buffer n mem
    (EncryptWithCipher \<lparr>cp_Plaintext = pt, Cipher = map_option gcm8 cipher, cp_TruncatedNonce = tn,
       cp_UnencryptedRanges = rs\<rparr>)
    (EncryptWithCipherInto_at n cipher pt tn rs mem)"
  using assms
  by (cases cipher) (auto simp: EncryptWithCipher_def EncryptWithCipherInto_at_def
      intro!: fills_buffer_error fills_buffer_bind encryptInto_at_fills)

text \<open>Without ranges, the sealing fits in place exactly if the full tag does, and then so does
  the rest of the frame.\<close>

lemma sealed_in_place:
  "(\<exists>l. fst (encryptCoreAppend_at (Shared 0 n) (gcm_seal (aes_encrypt key)) pt tn [] mem) = Inr (Shared l n))
     \<longleftrightarrow> length pt + 16 \<le> n"
proof -
  let ?sealed = "gcm_seal (aes_encrypt key) (full_nonce tn) pt []"
  have l: "length ?sealed = length pt + 16"
    by (rule aes_gcm.length_seal)
  have u: "length (appendULEB128 [] tn) \<le> 5"
    using length_EncodeULEB128 [of tn] by (simp add: EncodeULEB128_def)
  show ?thesis
    using l u by (simp add: encryptCoreAppend_at_def gcm8_Seal_at_def st_bind_def Let_def overwrite_def)
qed

text \<open>What a call reports as written, which is how \<open>Frame\<close> describes the two functions.\<close>

fun reported :: "(frame_error + nat) \<times> bytes \<Rightarrow> frame_error + bytes" where
  "reported (Inl e, mem) = Inl e"
| "reported (Inr k, mem) = Inr (take k mem)"

lemma fills_buffer_reported:
  assumes "fills_buffer n mem r out"
  shows "reported out = ebind r (\<lambda>bs. if n < length bs then Inl ErrBufferTooSmall else Inr bs)"
  using assms by (cases out rule: reported.cases) (auto simp: fills_buffer_def split: sum.splits if_splits)

lemma ebind_assoc: "ebind (ebind m f) g = ebind m (\<lambda>x. ebind (f x) g)"
  by (cases m) simp_all

lemma EncryptInto_reported:
  "n \<le> length mem \<Longrightarrow> EncryptInto (take n mem) p = reported (EncryptInto_at n p mem)"
  by (simp add: fills_buffer_reported [OF EncryptInto_at_fills] EncryptInto_def Encrypt_def encryptInto_def
      ebind_assoc)

lemma EncryptWithCipherInto_reported:
  "n \<le> length mem \<Longrightarrow>
     EncryptWithCipherInto (take n mem) \<lparr>cp_Plaintext = pt, Cipher = map_option gcm8 cipher,
       cp_TruncatedNonce = tn, cp_UnencryptedRanges = rs\<rparr> =
     reported (EncryptWithCipherInto_at n cipher pt tn rs mem)"
  by (cases cipher) (simp_all add: fills_buffer_reported [OF EncryptWithCipherInto_at_fills]
      EncryptWithCipherInto_def EncryptWithCipher_def encryptInto_def ebind_assoc)

section \<open>Properties\<close>

text \<open>C33 encrypt_into_buffer. For a buffer of \<open>n\<close> bytes at the front of any array, \<open>EncryptInto\<close> returns the
  length of the frame that \<open>Encrypt\<close> would allocate and has it in the first bytes of the buffer
  if it fits, \<open>ErrBufferTooSmall\<close> if it does not, and the error of \<open>Encrypt\<close> otherwise; the same
  holds of \<open>EncryptWithCipherInto\<close> and \<open>EncryptWithCipher\<close> for any cached cipher or none. In
  every case, errors included, no byte of the array after the buffer is written. Without ranges
  the frame is built in the buffer itself, so that the final copy moves nothing, exactly if the
  buffer has sixteen bytes more than the plaintext.\<close>

theorem encrypt_into_buffer:
  assumes "n \<le> length mem"
  shows "fills_buffer n mem (Encrypt p) (EncryptInto_at n p mem) \<and>
    fills_buffer n mem
      (EncryptWithCipher \<lparr>cp_Plaintext = pt, Cipher = map_option gcm8 cipher, cp_TruncatedNonce = tn,
         cp_UnencryptedRanges = rs\<rparr>)
      (EncryptWithCipherInto_at n cipher pt tn rs mem) \<and>
    ((\<exists>l. fst (encryptCoreAppend_at (Shared 0 n) (gcm_seal (aes_encrypt key)) pt tn [] mem) = Inr (Shared l n))
       \<longleftrightarrow> length pt + 16 \<le> n)"
  using EncryptInto_at_fills [OF assms] EncryptWithCipherInto_at_fills [OF assms] sealed_in_place by blast

text \<open>Witness of \<open>encrypt_into_buffer\<close>: a one-byte packet, a buffer of 20 bytes in an array of 24, and a
  cached cipher that is nil.\<close>

theorem encrypt_into_buffer_witness:
  "\<exists>out. Encrypt \<lparr>Plaintext = [5], Key = replicate 16 1, TruncatedNonce = 2, UnencryptedRanges = []\<rparr> = Inr out \<and>
     (case EncryptInto_at 20 \<lparr>Plaintext = [5], Key = replicate 16 1, TruncatedNonce = 2, UnencryptedRanges = []\<rparr>
         (replicate 24 9) of
       (r, mem') \<Rightarrow> r = Inr (length out) \<and> take (length out) mem' = out \<and> drop 20 mem' = [9, 9, 9, 9]) \<and>
     fst (EncryptWithCipherInto_at 20 None [5] 2 [] (replicate 24 9)) = Inl ErrInvalidKeyLength"
proof -
  let ?p = "\<lparr>Plaintext = [5], Key = replicate 16 1, TruncatedNonce = 2, UnencryptedRanges = []\<rparr> :: EncryptParams"
  let ?mem = "replicate 24 9 :: bytes"
  have "layout_valid [] (length [5 :: u8])"
    by (simp add: layout_valid_def in_goint_def)
  from encryptCoreAppend_total [OF this, of 2 "replicate 16 1"] suppl_size_no_ranges [of 2]
  obtain out where out: "Encrypt ?p = Inr out" "length out \<le> 20"
    by (auto simp: Encrypt_eq ValidateRanges_def)
  have "20 \<le> length ?mem"
    by simp
  from encrypt_into_buffer [OF this, of ?p "[5]" None 2 "[]"] out show ?thesis
    by (auto simp: fills_buffer_def EncryptWithCipher_def numeral_eq_Suc)
qed

end
