(* ===== verification/Codecs.thy ===== *)
theory Codecs
  imports Frame "HOL-Library.Sublist"
begin

text \<open>
  The package \<open>codecs\<close>: which bytes of a media frame stay readable for each codec, and the encryption
  entry points on top of \<open>frame\<close>. \<open>Kind\<close> is a \<open>uint8\<close> in Go, so the model keeps all 256 values. The
  entry points accept Opus and Unknown only; the logic of the video codecs stays in the package
  behind them and is modelled and verified as such.

  Offsets into a payload are natural numbers: they are bounded by the length of a slice, far from
  the wrap-around of Go's 64-bit \<open>int\<close>, and a decoded OBU size is below \<open>2 ^ 56\<close>.
\<close>

section \<open>Definitions\<close>

type_synonym Kind = u8

definition CodecUnknown :: Kind where "CodecUnknown = 0"
definition CodecOpus :: Kind where "CodecOpus = 1"
definition CodecVP8 :: Kind where "CodecVP8 = 2"
definition CodecVP9 :: Kind where "CodecVP9 = 3"
definition CodecH264 :: Kind where "CodecH264 = 4"
definition CodecH265 :: Kind where "CodecH265 = 5"
definition CodecAV1 :: Kind where "CodecAV1 = 6"

lemmas kind_defs = CodecUnknown_def CodecOpus_def CodecVP8_def CodecVP9_def CodecH264_def CodecH265_def CodecAV1_def

datatype codec_error = ErrCodecNotSupported Kind | FrameError frame_error

text \<open>An error of package \<open>frame\<close>, returned as it is.\<close>

fun of_frame :: "frame_error + 'a \<Rightarrow> codec_error + 'a" where
  "of_frame (Inl e) = Inl (FrameError e)"
| "of_frame (Inr x) = Inr x"

definition supportedForEncrypt :: "Kind \<Rightarrow> bool" where
  "supportedForEncrypt kind \<longleftrightarrow> kind = CodecOpus \<or> kind = CodecUnknown"

subsection \<open>\<open>vp8.go\<close>\<close>

definition vp8Ranges :: "bytes \<Rightarrow> frame_error + Range list" where
  "vp8Ranges payload =
     (if length payload = 0 then Inr []
      else let p = payload ! 0; isKeyFrame = (p AND 0x01 = 0) in
        if isKeyFrame then
          (if 10 \<le> length payload then Inr [\<lparr>Offset = 0, Length = 10\<rparr>]
           else Inr [\<lparr>Offset = 0, Length = int (length payload)\<rparr>])
        else Inr [\<lparr>Offset = 0, Length = 1\<rparr>])"

subsection \<open>\<open>h26x.go\<close>\<close>

definition maxH26xRetries :: nat where "maxH26xRetries = 10"

function findNextStartCode :: "bytes \<Rightarrow> nat \<Rightarrow> int" where
  "findNextStartCode payload i =
     (if int i < int (length payload) - 3 then
        (if payload ! i = 0 \<and> payload ! (i + 1) = 0
            \<and> (payload ! (i + 2) = 1 \<or> (payload ! (i + 2) = 0 \<and> payload ! (i + 3) = 1))
         then int i
         else findNextStartCode payload (i + 1))
      else -1)"
  by pat_completeness auto
termination by (relation "measure (\<lambda>(payload, i). length payload - i)") auto

declare findNextStartCode.simps [simp del]

definition startCodeLen_at :: "bytes \<Rightarrow> nat \<Rightarrow> nat" where
  "startCodeLen_at payload offset =
     (if offset + 3 \<le> length payload \<and> payload ! offset = 0 \<and> payload ! (offset + 1) = 0 \<and> payload ! (offset + 2) = 1
      then 3
      else if offset + 4 \<le> length payload \<and> payload ! offset = 0 \<and> payload ! (offset + 1) = 0
          \<and> payload ! (offset + 2) = 0 \<and> payload ! (offset + 3) = 1
      then 4 else 0)"

definition nal_isVCL :: "Kind \<Rightarrow> u8 \<Rightarrow> bool" where
  "nal_isVCL kind nalHeader =
     (let nalType = (if kind = CodecH264 then nalHeader AND 0x1F else drop_bit 1 nalHeader AND 0x3F)
      in if kind = CodecH264 then 1 \<le> nalType \<and> nalType \<le> 5 else nalType \<le> 31)"

definition next_nal :: "bytes \<Rightarrow> nat \<Rightarrow> nat" where
  "next_nal payload nalStart =
     (let nextOffset = findNextStartCode payload nalStart
      in if nextOffset = -1 then length payload else nat nextOffset)"

lemma findNextStartCode_bounds:
  "findNextStartCode payload i = -1 \<or> (int i \<le> findNextStartCode payload i \<and> findNextStartCode payload i < int (length payload) - 3)"
proof (induction payload i rule: findNextStartCode.induct)
  case (1 payload i)
  then show ?case by (auto simp: findNextStartCode.simps [of payload i])
qed

lemma next_nal_bounds:
  "nalStart < length payload \<Longrightarrow> nalStart \<le> next_nal payload nalStart \<and> next_nal payload nalStart \<le> length payload"
  using findNextStartCode_bounds [of payload nalStart] by (auto simp: next_nal_def Let_def)

function h26x_loop :: "Kind \<Rightarrow> bytes \<Rightarrow> nat \<Rightarrow> Range list \<Rightarrow> Range list" where
  "h26x_loop kind payload offset ranges =
     (if offset < length payload then
        (let startCodeLen = startCodeLen_at payload offset in
         if startCodeLen = 0 then ranges
         else let nalStart = offset + startCodeLen in
           if length payload \<le> nalStart then ranges
           else let nextOffset = next_nal payload nalStart;
                    ranges' = (if \<not> nal_isVCL kind (payload ! nalStart)
                      then ranges @ [\<lparr>Offset = int offset, Length = int nextOffset - int offset\<rparr>] else ranges)
                in h26x_loop kind payload nextOffset ranges')
      else ranges)"
  by pat_completeness auto
termination
proof (relation "measure (\<lambda>(kind, payload, offset, ranges). length payload - offset)")
  fix kind payload offset ranges startCodeLen nalStart nextOffset ranges'
  assume a: "offset < length payload" "startCodeLen = startCodeLen_at payload offset" "startCodeLen \<noteq> 0"
    "nalStart = offset + startCodeLen" "\<not> length payload \<le> nalStart" "nextOffset = next_nal payload nalStart"
  then have "nalStart \<le> nextOffset" using next_nal_bounds [of nalStart payload] by simp
  then show "((kind, payload, nextOffset, ranges'), kind, payload, offset, ranges)
      \<in> measure (\<lambda>(kind, payload, offset, ranges). length payload - offset)"
    using a(1,3,4) by simp
qed simp

declare h26x_loop.simps [simp del]

definition h26xRanges :: "Kind \<Rightarrow> bytes \<Rightarrow> frame_error + Range list" where
  "h26xRanges kind payload = (if length payload = 0 then Inr [] else Inr (h26x_loop kind payload 0 []))"

fun bytes_Contains :: "bytes \<Rightarrow> bytes \<Rightarrow> bool" where
  "bytes_Contains [] sub \<longleftrightarrow> sub = []"
| "bytes_Contains (b # bs) sub \<longleftrightarrow> take (length sub) (b # bs) = sub \<or> bytes_Contains bs sub"

definition hasStartCodeSequence :: "bytes \<Rightarrow> bool" where
  "hasStartCodeSequence data \<longleftrightarrow> bytes_Contains data [0x00, 0x00, 0x01] \<or> bytes_Contains data [0x00, 0x00, 0x00, 0x01]"

definition nonceForEncryption :: "u32 \<Rightarrow> nat \<Rightarrow> u32" where
  "nonceForEncryption baseNonce attempt = baseNonce + of_nat attempt"

text \<open>The loop over the attempts, for both variants: \<open>enc\<close> encrypts under one nonce.\<close>

fun h26x_attempts :: "(u32 \<Rightarrow> frame_error + bytes) \<Rightarrow> bytes \<Rightarrow> Range list \<Rightarrow> u32 \<Rightarrow> nat list \<Rightarrow> bytes \<Rightarrow> frame_error + bytes" where
  "h26x_attempts enc plaintext ranges baseNonce [] lastResult = Inr lastResult"
| "h26x_attempts enc plaintext ranges baseNonce (attempt # attempts) lastResult =
     ebind (enc (nonceForEncryption baseNonce attempt)) (\<lambda>encrypted.
     ebind (of_option GoPanic (go_slice encrypted 0 (int (length plaintext)))) (\<lambda>interleavedFrame.
     ebind (of_option GoPanic (ExtractCiphertext interleavedFrame ranges)) (\<lambda>ciphertextBytes.
     ebind (of_option GoPanic (go_slice encrypted (int (length plaintext)) (int (length encrypted)))) (\<lambda>footer.
     if \<not> hasStartCodeSequence ciphertextBytes \<and> \<not> hasStartCodeSequence footer then Inr encrypted
     else h26x_attempts enc plaintext ranges baseNonce attempts encrypted))))"

definition encryptH26x :: "Kind \<Rightarrow> bytes \<Rightarrow> bytes \<Rightarrow> u32 \<Rightarrow> frame_error + bytes" where
  "encryptH26x kind plaintext aeskey baseNonce =
     ebind (h26xRanges kind plaintext) (\<lambda>ranges.
     h26x_attempts (\<lambda>nonce. Encrypt \<lparr>Plaintext = plaintext, Key = aeskey, TruncatedNonce = nonce, UnencryptedRanges = ranges\<rparr>)
       plaintext ranges baseNonce [0..<maxH26xRetries] [])"

definition encryptH26xInto :: "Kind \<Rightarrow> bytes \<Rightarrow> bytes \<Rightarrow> bytes \<Rightarrow> u32 \<Rightarrow> frame_error + bytes" where
  "encryptH26xInto kind dst plaintext aeskey baseNonce =
     ebind (h26xRanges kind plaintext) (\<lambda>ranges.
     h26x_attempts (\<lambda>nonce. EncryptInto dst \<lparr>Plaintext = plaintext, Key = aeskey, TruncatedNonce = nonce, UnencryptedRanges = ranges\<rparr>)
       plaintext ranges baseNonce [0..<maxH26xRetries] [])"

subsection \<open>\<open>av1.go\<close>\<close>

definition obuTemporalDelimiter :: u8 where "obuTemporalDelimiter = 2"
definition obuTileList :: u8 where "obuTileList = 8"
definition obuPadding :: u8 where "obuPadding = 15"

definition shouldDropOBU :: "u8 \<Rightarrow> bool" where
  "shouldDropOBU obuType \<longleftrightarrow> obuType = obuTemporalDelimiter \<or> obuType = obuTileList \<or> obuType = obuPadding"

fun leb128_loop :: "nat \<Rightarrow> u64 \<Rightarrow> nat \<Rightarrow> bytes \<Rightarrow> frame_error + u64 \<times> nat" where
  "leb128_loop i value shift [] = Inl ErrInvalidULEB128"
| "leb128_loop i value shift (b # bs) =
     (if i < 8 then
        (let value' = value OR push_bit shift (ucast (b AND 0x7F)) in
         if b < 0x80 then Inr (value', i + 1) else leb128_loop (i + 1) value' (shift + 7) bs)
      else Inl ErrInvalidULEB128)"

definition decodeLEB128 :: "bytes \<Rightarrow> frame_error + u64 \<times> nat" where
  "decodeLEB128 data = (if length data = 0 then Inl ErrInvalidULEB128 else leb128_loop 0 0 0 data)"

record parsedOBU =
  headerByte :: u8
  hasExt :: bool
  extByte :: u8
  sizeBytes :: bytes
  obu_data :: bytes

definition obu_type :: "u8 \<Rightarrow> u8" where
  "obu_type h = drop_bit 3 h AND 0x0F"

definition ext_bit :: "u8 \<Rightarrow> bool" where "ext_bit h \<longleftrightarrow> drop_bit 2 h AND 0x01 = 1"
definition size_bit :: "u8 \<Rightarrow> bool" where "size_bit h \<longleftrightarrow> drop_bit 1 h AND 0x01 = 1"

definition clear_size :: "u8 \<Rightarrow> u8" where "clear_size h = h AND NOT 0x02"

text \<open>The size field at \<open>offset\<close>: its bytes, the payload size before it is clamped to the frame, and the
  offset of the payload.\<close>

definition obu_size_field :: "bytes \<Rightarrow> bool \<Rightarrow> nat \<Rightarrow> frame_error + bytes \<times> nat \<times> nat" where
  "obu_size_field payload hasSize offset =
     (if hasSize then
        ebind (decodeLEB128 (drop offset payload)) (\<lambda>(sz, n).
        Inr (take n (drop offset payload), unat sz, offset + n))
      else Inr ([], length payload - offset, offset))"

text \<open>One turn of the first loop from \<open>offset\<close>: \<open>None\<close> is the \<open>break\<close>; otherwise the OBU, if it is kept, and
  the offset after it.\<close>

definition parse_obu :: "bytes \<Rightarrow> nat \<Rightarrow> frame_error + (parsedOBU option \<times> nat) option" where
  "parse_obu payload offset0 =
     (let header = payload ! offset0;
          obuType = obu_type header;
          ext = ext_bit header;
          hasSize = size_bit header;
          offset1 = offset0 + 1
      in if ext \<and> length payload \<le> offset1 then Inr None
         else
           let extb = (if ext then payload ! offset1 else 0);
               offset2 = (if ext then offset1 + 1 else offset1)
           in ebind (obu_size_field payload hasSize offset2) (\<lambda>(sizeField, payloadSize0, offset).
              let payloadSize = (if length payload < offset + payloadSize0 then length payload - offset else payloadSize0)
              in if shouldDropOBU obuType then Inr (Some (None, offset + payloadSize))
                 else Inr (Some (Some \<lparr>headerByte = header, hasExt = ext, extByte = extb, sizeBytes = sizeField,
                                       obu_data = take payloadSize (drop offset payload)\<rparr>, offset + payloadSize))))"

lemma obu_size_field_grows: "obu_size_field payload hasSize offset = Inr (f, sz, offset') \<Longrightarrow> offset \<le> offset'"
  by (auto simp: obu_size_field_def error_iffs split: if_splits)

lemma parse_obu_grows: "parse_obu payload offset = Inr (Some (x, offset')) \<Longrightarrow> offset < offset'"
  by (auto simp: parse_obu_def Let_def error_iffs split: if_splits prod.splits dest!: obu_size_field_grows)

function obu_loop :: "bytes \<Rightarrow> nat \<Rightarrow> parsedOBU list \<Rightarrow> frame_error + parsedOBU list" where
  "obu_loop payload offset obus =
     (if offset < length payload then
        (case parse_obu payload offset of
           Inl e \<Rightarrow> Inl e
         | Inr None \<Rightarrow> Inr obus
         | Inr (Some (None, offset')) \<Rightarrow> obu_loop payload offset' obus
         | Inr (Some (Some obu, offset')) \<Rightarrow> obu_loop payload offset' (obus @ [obu]))
      else Inr obus)"
  by pat_completeness auto
termination
  by (relation "measure (\<lambda>(payload, offset, obus). length payload - offset)") (auto dest: parse_obu_grows)

declare obu_loop.simps [simp del]

text \<open>The second loop: what it writes for the OBUs from \<open>writeOffset\<close> on, and the ranges it adds.\<close>

fun write_obus :: "nat \<Rightarrow> parsedOBU list \<Rightarrow> bytes \<times> Range list" where
  "write_obus writeOffset [] = ([], [])"
| "write_obus writeOffset (obu # obus) =
     (let isLast = (obus = []);
          h = (if isLast then clear_size (headerByte obu) else headerByte obu);
          head = [h] @ (if hasExt obu then [extByte obu] else [])
            @ (if \<not> isLast \<and> 0 < length (sizeBytes obu) then sizeBytes obu else []);
          unencryptedLen = length head;
          (transformed, ranges) = write_obus (writeOffset + unencryptedLen + length (obu_data obu)) obus
      in (head @ obu_data obu @ transformed,
          (if 0 < unencryptedLen then [\<lparr>Offset = int writeOffset, Length = int unencryptedLen\<rparr>] else []) @ ranges))"

definition prepareAV1Frame :: "bytes \<Rightarrow> frame_error + bytes \<times> Range list" where
  "prepareAV1Frame payload =
     (if length payload = 0 then Inr ([], [])
      else ebind (obu_loop payload 0 []) (\<lambda>obus. if length obus = 0 then Inr ([], []) else Inr (write_obus 0 obus)))"

subsection \<open>\<open>codecs.go\<close>\<close>

definition codec_UnencryptedRanges :: "Kind \<Rightarrow> bytes \<Rightarrow> frame_error + Range list" where
  "codec_UnencryptedRanges kind payload =
     (if kind = CodecOpus \<or> kind = CodecVP9 then Inr []
      else if kind = CodecVP8 then vp8Ranges payload
      else if kind = CodecH264 \<or> kind = CodecH265 then h26xRanges kind payload
      else Inr [])"

definition codecs_Encrypt :: "Kind \<Rightarrow> bytes \<Rightarrow> bytes \<Rightarrow> u32 \<Rightarrow> codec_error + bytes" where
  "codecs_Encrypt kind plaintext aeskey nonce =
     (if \<not> supportedForEncrypt kind then Inl (ErrCodecNotSupported kind)
      else if kind = CodecH264 \<or> kind = CodecH265 then of_frame (encryptH26x kind plaintext aeskey nonce)
      else if kind = CodecAV1 then
        of_frame (ebind (prepareAV1Frame plaintext) (\<lambda>(transformed, ranges).
          Encrypt \<lparr>Plaintext = transformed, Key = aeskey, TruncatedNonce = nonce, UnencryptedRanges = ranges\<rparr>))
      else
        of_frame (ebind (codec_UnencryptedRanges kind plaintext) (\<lambda>ranges.
          Encrypt \<lparr>Plaintext = plaintext, Key = aeskey, TruncatedNonce = nonce, UnencryptedRanges = ranges\<rparr>)))"

definition codecs_EncryptWithCipher :: "Kind \<Rightarrow> bytes \<Rightarrow> AEAD option \<Rightarrow> u32 \<Rightarrow> codec_error + bytes" where
  "codecs_EncryptWithCipher kind plaintext gcm nonce =
     (if \<not> supportedForEncrypt kind then Inl (ErrCodecNotSupported kind)
      else if kind = CodecAV1 then
        of_frame (ebind (prepareAV1Frame plaintext) (\<lambda>(transformed, ranges).
          EncryptWithCipher \<lparr>cp_Plaintext = transformed, Cipher = gcm, cp_TruncatedNonce = nonce, cp_UnencryptedRanges = ranges\<rparr>))
      else
        of_frame (ebind (codec_UnencryptedRanges kind plaintext) (\<lambda>ranges.
          EncryptWithCipher \<lparr>cp_Plaintext = plaintext, Cipher = gcm, cp_TruncatedNonce = nonce, cp_UnencryptedRanges = ranges\<rparr>)))"

definition codecs_EncryptInto :: "Kind \<Rightarrow> bytes \<Rightarrow> bytes \<Rightarrow> bytes \<Rightarrow> u32 \<Rightarrow> codec_error + bytes" where
  "codecs_EncryptInto kind dst plaintext aeskey nonce =
     (if \<not> supportedForEncrypt kind then Inl (ErrCodecNotSupported kind)
      else if kind = CodecH264 \<or> kind = CodecH265 then of_frame (encryptH26xInto kind dst plaintext aeskey nonce)
      else if kind = CodecAV1 then
        of_frame (ebind (prepareAV1Frame plaintext) (\<lambda>(transformed, ranges).
          EncryptInto dst \<lparr>Plaintext = transformed, Key = aeskey, TruncatedNonce = nonce, UnencryptedRanges = ranges\<rparr>))
      else
        of_frame (ebind (codec_UnencryptedRanges kind plaintext) (\<lambda>ranges.
          EncryptInto dst \<lparr>Plaintext = plaintext, Key = aeskey, TruncatedNonce = nonce, UnencryptedRanges = ranges\<rparr>)))"

definition codecs_EncryptWithCipherInto :: "Kind \<Rightarrow> bytes \<Rightarrow> bytes \<Rightarrow> AEAD option \<Rightarrow> u32 \<Rightarrow> codec_error + bytes" where
  "codecs_EncryptWithCipherInto kind dst plaintext gcm nonce =
     (if \<not> supportedForEncrypt kind then Inl (ErrCodecNotSupported kind)
      else if kind = CodecAV1 then
        of_frame (ebind (prepareAV1Frame plaintext) (\<lambda>(transformed, ranges).
          EncryptWithCipherInto dst \<lparr>cp_Plaintext = transformed, Cipher = gcm, cp_TruncatedNonce = nonce, cp_UnencryptedRanges = ranges\<rparr>))
      else
        of_frame (ebind (codec_UnencryptedRanges kind plaintext) (\<lambda>ranges.
          EncryptWithCipherInto dst \<lparr>cp_Plaintext = plaintext, Cipher = gcm, cp_TruncatedNonce = nonce, cp_UnencryptedRanges = ranges\<rparr>)))"

section \<open>Lemmas on ranges\<close>

lemma ranges_wf_mono: "ranges_wf lo a rs \<Longrightarrow> a \<le> b \<Longrightarrow> ranges_wf lo b rs"
  by (induction rs arbitrary: lo) auto

lemma ranges_wf_snoc:
  "ranges_wf lo a rs \<Longrightarrow> a \<le> Offset r \<Longrightarrow> 0 \<le> Length r \<Longrightarrow> Offset r + Length r \<le> b \<Longrightarrow> ranges_wf lo b (rs @ [r])"
  by (induction rs arbitrary: lo) auto

lemma ranges_wf_valid:
  assumes "ranges_wf 0 (int n) rs" "in_goint (int n)"
  shows "range_fields rs \<and> ValidateRanges rs (int n) = Inr ()"
proof -
  have "range_fields rs"
    using assms(1) in_gointI [OF _ _ assms(2)] unfolding ranges_wf_iff range_fields_def list_all_iff
    by (smt (verit, best))
  then show ?thesis using assms by (simp add: ValidateRanges_wf)
qed

lemma vp8_wf: "\<exists>rs. vp8Ranges payload = Inr rs \<and> ranges_wf 0 (int (length payload)) rs"
  by (auto simp: vp8Ranges_def Let_def Suc_le_eq)

lemma startCodeLen_pos: "startCodeLen_at payload offset \<noteq> 0 \<Longrightarrow> offset + startCodeLen_at payload offset \<le> length payload"
  by (auto simp: startCodeLen_at_def split: if_splits)

lemma h26x_loop_wf:
  "ranges_wf 0 (int offset) rs \<Longrightarrow> offset \<le> length payload \<Longrightarrow>
     ranges_wf 0 (int (length payload)) (h26x_loop kind payload offset rs)"
proof (induction kind payload offset rs rule: h26x_loop.induct)
  case (1 kind payload offset rs)
  let ?c = "startCodeLen_at payload offset"
  let ?nal = "offset + ?c"
  let ?nx = "next_nal payload ?nal"
  have stop: ?case if "h26x_loop kind payload offset rs = rs"
    using 1(2,3) that ranges_wf_mono by auto
  show ?case
  proof (cases "offset < length payload \<and> ?c \<noteq> 0 \<and> ?nal < length payload")
    case True
    then have nx: "?nal \<le> ?nx" "?nx \<le> length payload" using next_nal_bounds [of ?nal payload] by simp_all
    have "ranges_wf 0 (int ?nx) (if \<not> nal_isVCL kind (payload ! ?nal)
        then rs @ [\<lparr>Offset = int offset, Length = int ?nx - int offset\<rparr>] else rs)"
      using 1(2) nx ranges_wf_mono [OF 1(2), of "int ?nx"] by (auto intro: ranges_wf_snoc)
    then show ?thesis
      using 1(1) [OF _ refl _ refl _ refl refl] True nx(2)
      by (simp add: h26x_loop.simps [of kind payload offset rs] Let_def)
  next
    case False
    then show ?thesis by (intro stop) (auto simp: h26x_loop.simps [of kind payload offset rs] Let_def)
  qed
qed

lemma h26x_wf: "\<exists>rs. h26xRanges kind payload = Inr rs \<and> ranges_wf 0 (int (length payload)) rs"
  using h26x_loop_wf [of 0 "[]" payload kind] by (auto simp: h26xRanges_def)

lemma codec_ranges_wf: "\<exists>rs. codec_UnencryptedRanges kind payload = Inr rs \<and> ranges_wf 0 (int (length payload)) rs"
  using vp8_wf [of payload] h26x_wf [of kind payload] by (auto simp: codec_UnencryptedRanges_def)

lemma write_obus_wf:
  "ranges_wf (int w) (int (w + length (fst (write_obus w obus)))) (snd (write_obus w obus))"
proof (induction obus arbitrary: w)
  case (Cons obu obus)
  let ?h = "[if obus = [] then clear_size (headerByte obu) else headerByte obu] @ (if hasExt obu then [extByte obu] else [])
      @ (if obus \<noteq> [] \<and> 0 < length (sizeBytes obu) then sizeBytes obu else [])"
  let ?w = "w + length ?h + length (obu_data obu)"
  have lo: "ranges_wf lo' hi rs" if "ranges_wf lo hi rs" "lo' \<le> lo" for lo lo' hi rs
    using that by (cases rs) auto
  obtain t rs where r: "write_obus ?w obus = (t, rs)" by fastforce
  have "write_obus w (obu # obus) = (?h @ obu_data obu @ t, \<lparr>Offset = int w, Length = int (length ?h)\<rparr> # rs)"
    using r by (simp add: Let_def)
  moreover have "ranges_wf (int w + int (length ?h)) (int (w + length (?h @ obu_data obu @ t))) rs"
    using Cons.IH [of ?w] unfolding r by (auto intro: lo simp: algebra_simps)
  ultimately show ?case by simp
qed simp

section \<open>Lemmas on OBUs\<close>

lemma leb128_prefix:
  "leb128_loop i v s bs = Inr (sz, n) \<Longrightarrow>
     i < n \<and> n - i \<le> length bs \<and> leb128_loop i v s (take (n - i) bs @ rest) = Inr (sz, n)"
proof (induction i v s bs rule: leb128_loop.induct)
  case (2 i v s b bs)
  show ?case
  proof (cases "b < 0x80")
    case True
    then show ?thesis using 2(2) by (auto simp: Let_def split: if_splits)
  next
    case False
    then have i: "i < 8" and l: "leb128_loop (i + 1) (v OR push_bit s (ucast (b AND 0x7F))) (s + 7) bs = Inr (sz, n)"
      using 2(2) by (auto simp: Let_def split: if_splits)
    note IH = 2(1) [OF i refl False l]
    then have "take (n - i) (b # bs) = b # take (n - Suc i) bs" by (simp add: take_Cons')
    then show ?thesis using IH i False by (auto simp: Let_def)
  qed
qed simp

lemma decodeLEB128_prefix:
  assumes "decodeLEB128 bs = Inr (sz, n)"
  shows "0 < n \<and> n \<le> length bs \<and> decodeLEB128 (take n bs @ rest) = Inr (sz, n)"
  using assms leb128_prefix [of 0 0 0 bs sz n rest] by (auto simp: decodeLEB128_def split: if_splits)

definition obu_wf :: "parsedOBU \<Rightarrow> bool" where
  "obu_wf obu \<longleftrightarrow> \<not> shouldDropOBU (obu_type (headerByte obu)) \<and> hasExt obu = ext_bit (headerByte obu)
     \<and> (\<not> hasExt obu \<longrightarrow> extByte obu = 0)"

definition obu_sized :: "parsedOBU \<Rightarrow> bool" where
  "obu_sized obu \<longleftrightarrow> size_bit (headerByte obu) \<and>
     (\<exists>sz. length (obu_data obu) = unat sz \<and> sizeBytes obu \<noteq> []
        \<and> (\<forall>rest. decodeLEB128 (sizeBytes obu @ rest) = Inr (sz, length (sizeBytes obu))))"

lemma obu_size_field_sized:
  assumes "obu_size_field payload hs m = Inr (f, sz, o')" "m \<le> length payload" "o' + sz < length payload"
  shows "hs \<and> f \<noteq> [] \<and> (\<exists>w. sz = unat w \<and> (\<forall>rest. decodeLEB128 (f @ rest) = Inr (w, length f)))"
proof -
  have hs: hs using assms by (auto simp: obu_size_field_def split: if_splits)
  then obtain w n where d: "decodeLEB128 (drop m payload) = Inr (w, n)" "f = take n (drop m payload)" "sz = unat w"
    using assms(1) by (auto simp: obu_size_field_def error_iffs)
  have "length f = n" "f \<noteq> []" using decodeLEB128_prefix [OF d(1), of "[]"] d(2) by auto
  moreover have "decodeLEB128 (f @ rest) = Inr (w, n)" for rest
    using decodeLEB128_prefix [OF d(1), of rest] d(2) by simp
  ultimately show ?thesis using d(3) hs by auto
qed

lemma parse_obu_kept:
  assumes "parse_obu payload offset = Inr (Some (Some obu, offset'))" "offset < length payload"
  shows "obu_wf obu \<and> (offset' < length payload \<longrightarrow> obu_sized obu)"
proof -
  let ?h = "payload ! offset"
  let ?m = "if ext_bit ?h then offset + 2 else offset + 1"
  obtain f sz o' where fld: "obu_size_field payload (size_bit ?h) ?m = Inr (f, sz, o')"
    and x: "\<not> (ext_bit ?h \<and> length payload \<le> offset + 1)" "\<not> shouldDropOBU (obu_type ?h)"
      "obu = \<lparr>headerByte = ?h, hasExt = ext_bit ?h, extByte = (if ext_bit ?h then payload ! (offset + 1) else 0),
         sizeBytes = f, obu_data = take (if length payload < o' + sz then length payload - o' else sz) (drop o' payload)\<rparr>"
      "offset' = o' + (if length payload < o' + sz then length payload - o' else sz)"
    using assms(1) by (auto simp: parse_obu_def Let_def error_iffs split: if_splits)
  have "obu_sized obu" if "offset' < length payload"
  proof -
    have lt: "o' + sz < length payload" using that x(4) by (auto split: if_splits)
    have "?m \<le> length payload" using assms(2) x(1) by auto
    from obu_size_field_sized [OF fld this lt] lt show ?thesis by (auto simp: obu_sized_def x(3))
  qed
  then show ?thesis using x(2) by (simp add: obu_wf_def x(3))
qed

text \<open>What the first loop returns: every OBU is kept by type, and all but the last have a size field that
  counts their payload.\<close>

definition obus_ok :: "parsedOBU list \<Rightarrow> bool" where
  "obus_ok obus \<longleftrightarrow> list_all obu_wf obus \<and> list_all obu_sized (butlast obus)"

lemma obu_loop_ok:
  "obu_loop payload offset acc = Inr obus \<Longrightarrow> \<exists>ks. obus = acc @ ks \<and> obus_ok ks \<and> (length payload \<le> offset \<longrightarrow> ks = [])"
proof (induction payload offset acc rule: obu_loop.induct)
  case (1 payload offset acc)
  show ?case
  proof (cases "offset < length payload")
    case False
    then show ?thesis using 1(3) by (simp add: obu_loop.simps [of payload offset] obus_ok_def)
  next
    case True
    then consider "parse_obu payload offset = Inr None" "obus = acc"
      | o' where "parse_obu payload offset = Inr (Some (None, o'))" "obu_loop payload o' acc = Inr obus"
      | obu o' where "parse_obu payload offset = Inr (Some (Some obu, o'))" "obu_loop payload o' (acc @ [obu]) = Inr obus"
      using 1(3) by (auto simp: obu_loop.simps [of payload offset] split: sum.splits option.splits prod.splits)
    then show ?thesis
    proof cases
      case 1
      then show ?thesis using True by (simp add: obus_ok_def)
    next
      case (2 o')
      then show ?thesis using "1.IH"(1) [OF True 2(1) refl refl refl 2(2)] True by auto
    next
      case (3 obu o')
      then obtain ks where ks: "obus = acc @ obu # ks" "obus_ok ks" "length payload \<le> o' \<longrightarrow> ks = []"
        using "1.IH"(2) [OF True 3(1) refl refl refl 3(2)] by auto
      then have "obus_ok (obu # ks)" using parse_obu_kept [OF 3(1) True] by (auto simp: obus_ok_def not_less)
      then show ?thesis using ks(1) True by auto
    qed
  qed
qed

text \<open>The last OBU loses its size field.\<close>

definition strip_size :: "parsedOBU \<Rightarrow> parsedOBU" where
  "strip_size obu = obu\<lparr>headerByte := clear_size (headerByte obu), sizeBytes := []\<rparr>"

fun strip_last :: "parsedOBU list \<Rightarrow> parsedOBU list" where
  "strip_last [] = []"
| "strip_last [obu] = [strip_size obu]"
| "strip_last (obu # obus) = obu # strip_last obus"

lemma strip_last_empty [simp]: "strip_last obus = [] \<longleftrightarrow> obus = []"
  by (cases obus rule: strip_last.cases) auto

lemma write_strip: "write_obus w (strip_last obus) = write_obus w obus"
  by (induction obus arbitrary: w rule: strip_last.induct) (auto simp: strip_size_def clear_size_def and.assoc Let_def)

lemma cleared_header:
  "obu_type (clear_size h) = obu_type h" "ext_bit (clear_size h) = ext_bit h" "\<not> size_bit (clear_size h)"
proof -
  have "drop_bit 3 (clear_size h) = drop_bit 3 h"
    unfolding clear_size_def by (rule bit_word_eqI) (simp only: bit_drop_bit_eq o_def bit_and_iff bit_not_iff, auto simp: bit_2_iff dest: bit_imp_le_length)
  moreover have "drop_bit 2 (clear_size h) = drop_bit 2 h"
    unfolding clear_size_def by (rule bit_word_eqI) (simp only: bit_drop_bit_eq o_def bit_and_iff bit_not_iff, auto simp: bit_2_iff dest: bit_imp_le_length)
  moreover have "drop_bit 1 (clear_size h) AND 0x01 = 0"
    unfolding clear_size_def by (rule bit_word_eqI) (auto simp: bit_simps intro!: gr0I)
  ultimately show "obu_type (clear_size h) = obu_type h" "ext_bit (clear_size h) = ext_bit h" "\<not> size_bit (clear_size h)"
    by (simp_all add: obu_type_def ext_bit_def size_bit_def)
qed

lemma parse_obu_step:
  fixes pre suf :: bytes
  assumes "payload = pre @ h # (if ext_bit h then [e] else []) @ f @ d @ rest" "\<not> shouldDropOBU (obu_type h)"
    and "size_bit h \<Longrightarrow> decodeLEB128 (f @ d @ rest) = Inr (w, length f) \<and> length d = unat w"
    and "\<not> size_bit h \<Longrightarrow> f = [] \<and> rest = []"
  shows "parse_obu payload (length pre) = Inr (Some (Some \<lparr>headerByte = h, hasExt = ext_bit h,
      extByte = (if ext_bit h then e else 0), sizeBytes = f, obu_data = d\<rparr>,
    length pre + 1 + (if ext_bit h then 1 else 0) + length f + length d))"
proof -
  let ?m = "length pre + 1 + (if ext_bit h then 1 else 0)"
  have drop: "drop ?m payload = f @ d @ rest" using assms(1) by simp
  have len: "length payload = ?m + length f + length d + length rest" using assms(1) by simp
  have nth: "payload ! length pre = h" "ext_bit h \<Longrightarrow> payload ! (length pre + 1) = e"
    using assms(1) by (simp_all add: nth_append)
  have "obu_size_field payload (size_bit h) ?m = Inr (f, length d, ?m + length f)"
  proof (cases "size_bit h")
    case True
    then show ?thesis using assms(3) unfolding obu_size_field_def drop by simp
  next
    case False
    then show ?thesis using assms(4) unfolding obu_size_field_def len by simp
  qed
  moreover have "drop (?m + length f) payload = d @ rest"
    using arg_cong [OF drop, of "drop (length f)"] by (simp add: add.commute)
  ultimately show ?thesis
    using assms(2) len nth by (cases "ext_bit h") (simp_all add: parse_obu_def Let_def)
qed

lemma reparse:
  "obus_ok obus \<Longrightarrow> payload = pre @ fst (write_obus w obus) \<Longrightarrow>
     obu_loop payload (length pre) acc = Inr (acc @ strip_last obus)"
proof (induction obus arbitrary: pre w acc rule: strip_last.induct)
  case 1
  then show ?case by (simp add: obu_loop.simps)
next
  case (2 obu)
  let ?h = "clear_size (headerByte obu)"
  have ok: "\<not> shouldDropOBU (obu_type ?h)" "hasExt obu = ext_bit ?h" "\<not> hasExt obu \<longrightarrow> extByte obu = 0"
    using 2(1) by (auto simp: obus_ok_def obu_wf_def cleared_header)
  have pl: "payload = pre @ ?h # (if ext_bit ?h then [extByte obu] else []) @ [] @ obu_data obu @ []"
    using 2(2) ok(2) by (simp add: Let_def)
  have "parse_obu payload (length pre) = Inr (Some (Some (strip_size obu), length payload))"
    using parse_obu_step [OF pl ok(1)] ok(2,3) unfolding pl by (auto simp: cleared_header strip_size_def)
  moreover have "length pre < length payload" using pl by simp
  ultimately show ?case by (simp add: obu_loop.simps)
next
  case (3 obu obu' obus)
  let ?h = "headerByte obu" and ?w = "w + 1 + (if hasExt obu then 1 else 0) + length (sizeBytes obu) + length (obu_data obu)"
  let ?t = "fst (write_obus ?w (obu' # obus))"
  have ok: "\<not> shouldDropOBU (obu_type ?h)" "hasExt obu = ext_bit ?h" "\<not> hasExt obu \<longrightarrow> extByte obu = 0"
      "obu_sized obu" "obus_ok (obu' # obus)"
    using 3(2) by (auto simp: obus_ok_def obu_wf_def)
  then obtain sz where sz: "size_bit ?h" "length (obu_data obu) = unat sz" "sizeBytes obu \<noteq> []"
      "\<And>rest. decodeLEB128 (sizeBytes obu @ rest) = Inr (sz, length (sizeBytes obu))"
    by (auto simp: obu_sized_def)
  have pl: "payload = pre @ ?h # (if ext_bit ?h then [extByte obu] else []) @ sizeBytes obu @ obu_data obu @ ?t"
    using 3(3) ok(2) sz(3) by (simp add: Let_def split: prod.splits)
  let ?pre = "pre @ ?h # (if ext_bit ?h then [extByte obu] else []) @ sizeBytes obu @ obu_data obu"
  have "parse_obu payload (length pre) = Inr (Some (Some obu, length ?pre))"
    using parse_obu_step [OF pl ok(1), of sz] sz ok(2,3) by (cases obu) auto
  moreover have "length pre < length payload" using pl by simp
  moreover have "obu_loop payload (length ?pre) (acc @ [obu]) = Inr ((acc @ [obu]) @ strip_last (obu' # obus))"
    by (rule 3(1) [OF ok(5), where w = ?w]) (simp add: pl del: write_obus.simps)
  ultimately show ?case by (simp add: obu_loop.simps [of payload "length pre"])
qed

lemma prepareAV1_Inr:
  assumes "prepareAV1Frame payload = Inr (t, rs)"
  shows "\<exists>obus. obus_ok obus \<and> (t, rs) = write_obus 0 obus"
proof (cases "payload = [] \<or> obu_loop payload 0 [] = Inr []")
  case True
  then show ?thesis using assms by (intro exI [of _ "[]"]) (auto simp: prepareAV1Frame_def obus_ok_def split: if_splits)
next
  case False
  then obtain obus where "obu_loop payload 0 [] = Inr obus" "(t, rs) = write_obus 0 obus"
    using assms by (auto simp: prepareAV1Frame_def error_iffs split: if_splits)
  then show ?thesis using obu_loop_ok [of payload 0 "[]" obus] by auto
qed

lemma write_obus_nonempty [simp]: "fst (write_obus w obus) = [] \<longleftrightarrow> obus = []"
  by (cases obus) (auto simp: Let_def split: prod.splits)

lemma av1_wf:
  "prepareAV1Frame payload = Inr (t, rs) \<Longrightarrow> ranges_wf 0 (int (length t)) rs"
  using write_obus_wf [of 0] by (auto dest!: prepareAV1_Inr) (metis add_0 fst_conv of_nat_0 snd_conv)

section \<open>Lemmas on the nonce retry\<close>

lemma take_prefix_iff: "take (length ys) xs = ys \<longleftrightarrow> prefix ys xs"
  by (metis append_eq_conv_conj prefix_def)

lemma bytes_Contains_iff: "bytes_Contains xs ys \<longleftrightarrow> sublist ys xs"
proof (induction xs ys rule: bytes_Contains.induct)
  case (2 b bs sub)
  then show ?case by (simp only: bytes_Contains.simps take_prefix_iff sublist_Cons_right)
qed simp

lemma hasStartCodeSequence_iff: "hasStartCodeSequence d \<longleftrightarrow> sublist [0, 0, 1] d"
proof -
  have "sublist [0, 0, 1] [0, 0, 0, 1 :: u8]" by (simp add: sublist_Cons_right)
  then show ?thesis unfolding hasStartCodeSequence_def bytes_Contains_iff
    using sublist_order.order_trans by blast
qed

text \<open>A frame collides when its encrypted bytes or its footer contain a start code.\<close>

definition collides :: "bytes \<Rightarrow> Range list \<Rightarrow> bytes \<Rightarrow> bool" where
  "collides plaintext rs out \<longleftrightarrow>
     (case ExtractCiphertext (take (length plaintext) out) rs of
        None \<Rightarrow> True
      | Some c \<Rightarrow> sublist [0, 0, 1] c \<or> sublist [0, 0, 1] (drop (length plaintext) out))"

lemma h26x_attempts_Inr:
  "h26x_attempts enc pt rs n as l = Inr out \<Longrightarrow> as \<noteq> [] \<Longrightarrow>
     \<exists>bs a cs. as = bs @ a # cs \<and> enc (nonceForEncryption n a) = Inr out \<and>
       (\<forall>b\<in>set bs. \<exists>o'. enc (nonceForEncryption n b) = Inr o' \<and> collides pt rs o') \<and>
       (collides pt rs out \<longrightarrow> cs = [])"
proof (induction as arbitrary: l)
  case (Cons a as)
  obtain e where e: "enc (nonceForEncryption n a) = Inr e" using Cons.prems(1) by (auto simp: error_iffs)
  have c: "if collides pt rs e then h26x_attempts enc pt rs n as e = Inr out else out = e"
    using Cons.prems(1) e
    by (auto simp: error_iffs collides_def hasStartCodeSequence_iff go_slice_def split: if_splits)
  show ?case
  proof (cases "collides pt rs e \<and> as \<noteq> []")
    case True
    then obtain bs a' cs where "as = bs @ a' # cs" "enc (nonceForEncryption n a') = Inr out"
      "\<forall>b\<in>set bs. \<exists>o'. enc (nonceForEncryption n b) = Inr o' \<and> collides pt rs o'" "collides pt rs out \<longrightarrow> cs = []"
      using Cons.IH [of e] c by auto
    then show ?thesis using e True by (intro exI [of _ "a # bs"] exI [of _ a'] exI [of _ cs]) auto
  next
    case False
    then have "out = e" using c by (cases "as = []") (auto split: if_splits)
    then show ?thesis using e False by (intro exI [of _ "[]"] exI [of _ a] exI [of _ as]) auto
  qed
qed simp

lemma h26x_attempts_total:
  assumes "\<And>nonce. \<exists>out c. enc nonce = Inr out \<and> length pt \<le> length out \<and> ExtractCiphertext (take (length pt) out) rs = Some c"
  shows "\<exists>out. h26x_attempts enc pt rs n as l = Inr out"
proof (induction as arbitrary: l)
  case (Cons a as)
  obtain e c where e: "enc (nonceForEncryption n a) = Inr e" "length pt \<le> length e" "ExtractCiphertext (take (length pt) e) rs = Some c"
    using assms by blast
  then show ?case using Cons [of e] by (simp add: go_slice_def)
qed simp

lemma Encrypt_then_Decrypt:
  assumes "Encrypt p = Inr out" "range_fields (UnencryptedRanges p)" "length (Plaintext p) < 2 ^ 32"
  shows "Decrypt \<lparr>dp_Ciphertext = out, dp_Key = Key p\<rparr> = Inr (Plaintext p, TruncatedNonce p)"
proof -
  have k: "length (Key p) = 16" "ValidateRanges (UnencryptedRanges p) (int (length (Plaintext p))) = Inr ()"
    and out: "encryptCoreAppend [] (key_gcm (Key p)) (Plaintext p) (TruncatedNonce p) (UnencryptedRanges p) = Inr out"
    using assms(1) by (auto simp: Encrypt_eq error_iffs split: if_splits)
  have v: "layout_valid (UnencryptedRanges p) (length (Plaintext p))"
    by (rule layout_validI [OF k(2) assms(2) in_goint_u32 [OF assms(3)]])
  have "suppl_size (TruncatedNonce p) (UnencryptedRanges p) \<le> 255"
    using encryptCoreAppend_too_big [OF v, of "TruncatedNonce p" "Key p"] out by fastforce
  from encryptCoreAppend_total [OF v this, of "Key p"] out k(1) assms(3) show ?thesis by auto
qed

lemma split_upt: "[0..<m] = bs @ a # cs \<Longrightarrow> a < m \<and> bs = [0..<a] \<and> cs = [Suc a..<m]"
proof -
  assume e: "[0..<m] = bs @ a # cs"
  have "length bs < m" using arg_cong [OF e, of length] by simp
  then have "[0..<m] = [0..<length bs] @ length bs # [Suc (length bs)..<m]"
    by (metis le0 less_imp_le_nat upt_conv_Cons upt_add_eq_append le_Suc_ex)
  then show ?thesis using e \<open>length bs < m\<close> by simp
qed

section \<open>Properties\<close>

text \<open>The four entry points encrypt Opus frames and frames of unknown codec, always the
  whole frame with no range left readable, and refuse every other one of the 256 codec kinds
  before they touch the frame.\<close>

theorem codec_gate:
  "codecs_Encrypt kind pt k n = (if kind = CodecOpus \<or> kind = CodecUnknown
      then of_frame (Encrypt \<lparr>Plaintext = pt, Key = k, TruncatedNonce = n, UnencryptedRanges = []\<rparr>)
      else Inl (ErrCodecNotSupported kind))
   \<and> codecs_EncryptInto kind dst pt k n = (if kind = CodecOpus \<or> kind = CodecUnknown
      then of_frame (EncryptInto dst \<lparr>Plaintext = pt, Key = k, TruncatedNonce = n, UnencryptedRanges = []\<rparr>)
      else Inl (ErrCodecNotSupported kind))
   \<and> codecs_EncryptWithCipher kind pt gcm n = (if kind = CodecOpus \<or> kind = CodecUnknown
      then of_frame (EncryptWithCipher \<lparr>cp_Plaintext = pt, Cipher = gcm, cp_TruncatedNonce = n, cp_UnencryptedRanges = []\<rparr>)
      else Inl (ErrCodecNotSupported kind))
   \<and> codecs_EncryptWithCipherInto kind dst pt gcm n = (if kind = CodecOpus \<or> kind = CodecUnknown
      then of_frame (EncryptWithCipherInto dst \<lparr>cp_Plaintext = pt, Cipher = gcm, cp_TruncatedNonce = n, cp_UnencryptedRanges = []\<rparr>)
      else Inl (ErrCodecNotSupported kind))"
  by (auto simp: codecs_Encrypt_def codecs_EncryptInto_def codecs_EncryptWithCipher_def codecs_EncryptWithCipherInto_def
      supportedForEncrypt_def codec_UnencryptedRanges_def kind_defs)

text \<open>C37 codec_ranges_valid. For every codec kind and every payload the range computation succeeds, and
  its ranges pass the validation of package \<open>frame\<close>: no malformed VP8 header or NAL stream makes it
  produce ranges outside the payload, overlapping or out of order. The ranges of a transformed
  AV1 frame are valid for that frame in the same way.\<close>

theorem codec_ranges_valid:
  assumes "in_goint (int (length payload))"
  shows "(\<exists>rs. codec_UnencryptedRanges kind payload = Inr rs \<and> ValidateRanges rs (int (length payload)) = Inr ())
    \<and> (\<forall>t rs. prepareAV1Frame payload = Inr (t, rs) \<and> in_goint (int (length t)) \<longrightarrow> ValidateRanges rs (int (length t)) = Inr ())"
  using codec_ranges_wf [of kind payload] av1_wf [of payload] ranges_wf_valid assms by blast

theorem codec_ranges_valid_witness:
  "(\<exists>rs. codec_UnencryptedRanges CodecH264 [0, 0, 1, 0x67, 9, 0, 0, 1, 0x65, 8] = Inr rs
      \<and> ValidateRanges rs 10 = Inr ())"
  using codec_ranges_valid [of "[0, 0, 1, 0x67, 9, 0, 0, 1, 0x65, 8]" CodecH264] by (simp add: in_goint_def)

text \<open>Transforming an AV1 frame is idempotent: the transformed frame parses into the
  OBUs that were kept, each with its payload intact, and transforming it again changes nothing and
  gives the same ranges. No OBU of a dropped type is left in it.\<close>

theorem av1_idempotent:
  assumes "prepareAV1Frame payload = Inr (t, rs)"
  shows "prepareAV1Frame t = Inr (t, rs)"
proof -
  obtain obus where o: "obus_ok obus" "(t, rs) = write_obus 0 obus" using prepareAV1_Inr [OF assms] by blast
  show ?thesis
  proof (cases "obus = []")
    case True
    then show ?thesis using o(2) by (simp add: prepareAV1Frame_def)
  next
    case False
    have t: "t = fst (write_obus 0 obus)" using o(2) by (metis fst_conv)
    have "obu_loop t 0 [] = Inr (strip_last obus)" using reparse [OF o(1), of t "[]" 0 "[]"] t by simp
    then show ?thesis using False t o(2) by (simp add: prepareAV1Frame_def write_strip)
  qed
qed

text \<open>Witness of \<open>av1_idempotent\<close>: a temporal delimiter, a sequence header and a frame OBU.\<close>

theorem av1_idempotent_witness:
  "prepareAV1Frame [0x12, 0, 0x0A, 2, 7, 8, 0x32, 1, 9] = Inr ([0x0A, 2, 7, 8, 0x30, 9],
      [\<lparr>Offset = 0, Length = 2\<rparr>, \<lparr>Offset = 4, Length = 1\<rparr>])
   \<and> prepareAV1Frame [0x0A, 2, 7, 8, 0x30, 9] = Inr ([0x0A, 2, 7, 8, 0x30, 9],
      [\<lparr>Offset = 0, Length = 2\<rparr>, \<lparr>Offset = 4, Length = 1\<rparr>])"
proof -
  have "prepareAV1Frame [0x12, 0, 0x0A, 2, 7, 8, 0x32, 1, 9] = Inr ([0x0A, 2, 7, 8, 0x30, 9],
      [\<lparr>Offset = 0, Length = 2\<rparr>, \<lparr>Offset = 4, Length = 1\<rparr>])"
    by code_simp
  from this av1_idempotent [OF this] show ?thesis by simp
qed

text \<open>An H264 or H265 frame that \<open>encryptH26x\<close> returns is the encryption of the plaintext
  under one of the ten nonces from the base nonce on, decrypts to it under that nonce, and is the
  first attempt whose encrypted bytes and footer are free of start codes, or the tenth when all
  ten collide.\<close>

theorem h26x_retry:
  assumes "encryptH26x kind pt k n = Inr out" "length pt < 2 ^ 32"
  shows "\<exists>i rs. i < 10 \<and> h26xRanges kind pt = Inr rs
    \<and> Decrypt \<lparr>dp_Ciphertext = out, dp_Key = k\<rparr> = Inr (pt, n + of_nat i)
    \<and> (\<forall>j<i. \<exists>o'. Encrypt \<lparr>Plaintext = pt, Key = k, TruncatedNonce = n + of_nat j, UnencryptedRanges = rs\<rparr> = Inr o'
        \<and> collides pt rs o')
    \<and> (collides pt rs out \<longrightarrow> i = 9)"
proof -
  obtain rs where rs: "h26xRanges kind pt = Inr rs" "ranges_wf 0 (int (length pt)) rs" using h26x_wf [of kind pt] by blast
  have f: "range_fields rs" using ranges_wf_valid [OF rs(2) in_goint_u32 [OF assms(2)]] by simp
  let ?enc = "\<lambda>nonce. Encrypt \<lparr>Plaintext = pt, Key = k, TruncatedNonce = nonce, UnencryptedRanges = rs\<rparr>"
  have a: "h26x_attempts ?enc pt rs n [0..<10] [] = Inr out"
    using assms(1) rs(1) by (simp add: encryptH26x_def maxH26xRetries_def)
  obtain bs i cs where i: "[0..<10] = bs @ i # cs" "?enc (n + of_nat i) = Inr out"
      "\<forall>b\<in>set bs. \<exists>o'. ?enc (n + of_nat b) = Inr o' \<and> collides pt rs o'" "collides pt rs out \<longrightarrow> cs = []"
    using h26x_attempts_Inr [OF a] by (auto simp: nonceForEncryption_def)
  have u: "i < 10" "bs = [0..<i]" "cs = [Suc i..<10]" using split_upt [OF i(1)] by simp_all
  have "Decrypt \<lparr>dp_Ciphertext = out, dp_Key = k\<rparr> = Inr (pt, n + of_nat i)"
    using Encrypt_then_Decrypt [OF i(2)] f assms(2) by simp
  moreover have "collides pt rs out \<longrightarrow> i = 9" using i(4) u by auto
  ultimately show ?thesis using rs(1) u i(3) by (intro exI [of _ i] exI [of _ rs]) auto
qed

text \<open>Witness of \<open>h26x_retry\<close>: a payload without start codes is encrypted whole.\<close>

theorem h26x_retry_witness:
  "\<exists>out i rs. encryptH26x CodecH264 [5, 6, 7] (replicate 16 1) 4294967295 = Inr out \<and> i < 10
     \<and> Decrypt \<lparr>dp_Ciphertext = out, dp_Key = replicate 16 1\<rparr> = Inr ([5, 6, 7], 4294967295 + of_nat i)
     \<and> (collides [5, 6, 7] rs out \<longrightarrow> i = 9)"
proof -
  let ?pt = "[5, 6, 7] :: bytes" and ?k = "replicate 16 1 :: bytes"
  have rs: "h26xRanges CodecH264 ?pt = Inr []"
    by (simp add: h26xRanges_def h26x_loop.simps startCodeLen_at_def)
  have "\<exists>out c. Encrypt \<lparr>Plaintext = ?pt, Key = ?k, TruncatedNonce = nonce, UnencryptedRanges = []\<rparr> = Inr out
      \<and> length ?pt \<le> length out \<and> ExtractCiphertext (take (length ?pt) out) [] = Some c" for nonce
  proof -
    have "layout_valid [] (length ?pt)" by (simp add: layout_valid_def in_goint_def)
    from encryptCoreAppend_total [OF this, of nonce ?k] suppl_size_no_ranges [of nonce] obtain out where
      "encryptCoreAppend [] (key_gcm ?k) ?pt nonce [] = Inr out" "length out = length ?pt + suppl_size nonce []"
      by auto
    then show ?thesis using no_ranges(1) [of "take (length ?pt) out"]
      by (simp add: Encrypt_eq ValidateRanges_def in_goint_def)
  qed
  then obtain out where out: "encryptH26x CodecH264 ?pt ?k 4294967295 = Inr out"
    using h26x_attempts_total [of _ ?pt "[]"] rs by (fastforce simp: encryptH26x_def)
  from h26x_retry [OF this] this show ?thesis by auto
qed

text \<open>The collision check of \<open>encryptH26x\<close> looks at the encrypted bytes and at the footer
  apart, so a start code that begins in the last encrypted bytes and ends in the authentication tag
  passes it: here the first attempt is returned although the frame contains a start code.\<close>

theorem h26x_straddle:
  "h26x_attempts (\<lambda>_. Inr ([0, 0] @ [1, 2, 3, 4, 5, 6, 7, 8, 9, 12, 0xFA, 0xFA])) [5, 5] [] n [0..<maxH26xRetries] []
     = Inr ([0, 0] @ [1, 2, 3, 4, 5, 6, 7, 8, 9, 12, 0xFA, 0xFA])
   \<and> hasStartCodeSequence ([0, 0] @ [1, 2, 3, 4, 5, 6, 7, 8, 9, 12, 0xFA, 0xFA])"
proof -
  have "[0..<maxH26xRetries] = 0 # [1..<10]" by (simp add: maxH26xRetries_def upt_rec)
  then show ?thesis by (simp add: go_slice_def no_ranges(1) in_goint_def hasStartCodeSequence_def)
qed

end
