(* ===== verification/Nonce.thy ===== *)
theory Nonce
  imports Dave_Prelude
begin

text \<open>
  \<open>mediakeys/nonce.go\<close>: the sender's 64-bit frame counter, the 32-bit nonce cut from it, and the
  receiver's expander that recovers the counter from the cut nonce. Counters are 64-bit words,
  so every shift, cast and difference wraps as in Go; the lemmas move to \<open>nat\<close> through \<open>unat\<close>.
\<close>

section \<open>Definitions\<close>

definition GenerationFromTruncatedNonce :: "u32 \<Rightarrow> u32" where
  "GenerationFromTruncatedNonce nonce = drop_bit 24 nonce"

definition TruncatedNonceFromCounter :: "u64 \<Rightarrow> u32" where
  "TruncatedNonceFromCounter counter = ucast counter"

record NonceCounter =
  counter :: u64

definition NewNonceCounter :: NonceCounter where
  "NewNonceCounter = \<lparr>counter = 0\<rparr>"

definition NonceCounter_Current :: "NonceCounter \<Rightarrow> u64" where
  "NonceCounter_Current c = counter c"

definition NonceCounter_Next :: "NonceCounter \<Rightarrow> (u64 \<times> u32 \<times> u32) \<times> NonceCounter" where
  "NonceCounter_Next c =
     (let full = counter c + 1 in ((full, ucast full, ucast (drop_bit 24 full)), c\<lparr>counter := full\<rparr>))"

definition NonceCounter_Reset :: "NonceCounter \<Rightarrow> NonceCounter" where
  "NonceCounter_Reset c = c\<lparr>counter := 0\<rparr>"

record NonceExpander =
  initialized :: bool
  highestSeen :: u64

definition NewNonceExpander :: NonceExpander where
  "NewNonceExpander = \<lparr>initialized = False, highestSeen = 0\<rparr>"

definition absDiff :: "u64 \<Rightarrow> u64 \<Rightarrow> u64" where
  "absDiff a b = (if b < a then a - b else b - a)"

definition Expand :: "NonceExpander \<Rightarrow> u32 \<Rightarrow> u64 \<times> NonceExpander" where
  "Expand e truncated =
     (if \<not> initialized e then
        (let full = ucast truncated in (full, e\<lparr>initialized := True, highestSeen := full\<rparr>))
      else
        (let baseCycle = drop_bit 32 (highestSeen e);
             best0 = push_bit 32 baseCycle OR ucast truncated;
             bestDist0 = absDiff best0 (highestSeen e);
             (best1, bestDist1) =
               (if 0 < baseCycle then
                  (let candidate = push_bit 32 (baseCycle - 1) OR ucast truncated;
                       d = absDiff candidate (highestSeen e)
                   in if d < bestDist0 then (candidate, d) else (best0, bestDist0))
                else (best0, bestDist0));
             candidate = push_bit 32 (baseCycle + 1) OR ucast truncated;
             best2 = (if absDiff candidate (highestSeen e) < bestDist1 then candidate else best1)
         in if highestSeen e < best2 then (best2, e\<lparr>highestSeen := best2\<rparr>) else (best2, e)))"

definition ExpandTentative :: "NonceExpander \<Rightarrow> u32 \<Rightarrow> u64" where
  "ExpandTentative e truncated =
     (if \<not> initialized e then ucast truncated
      else
        (let baseCycle = drop_bit 32 (highestSeen e);
             best0 = push_bit 32 baseCycle OR ucast truncated;
             bestDist0 = absDiff best0 (highestSeen e);
             (best1, bestDist1) =
               (if 0 < baseCycle then
                  (let candidate = push_bit 32 (baseCycle - 1) OR ucast truncated;
                       d = absDiff candidate (highestSeen e)
                   in if d < bestDist0 then (candidate, d) else (best0, bestDist0))
                else (best0, bestDist0));
             candidate = push_bit 32 (baseCycle + 1) OR ucast truncated
         in if absDiff candidate (highestSeen e) < bestDist1 then candidate else best1))"

definition Expander_Commit :: "NonceExpander \<Rightarrow> u64 \<Rightarrow> NonceExpander" where
  "Expander_Commit e nonce =
     (if \<not> initialized e then e\<lparr>initialized := True, highestSeen := nonce\<rparr>
      else if highestSeen e < nonce then e\<lparr>highestSeen := nonce\<rparr>
      else e)"

text \<open>A receiver that accepts every frame: the nonces of a stream are expanded and committed in turn.\<close>

fun receive_all :: "NonceExpander \<Rightarrow> u64 list \<Rightarrow> u64 list" where
  "receive_all e [] = []"
| "receive_all e (c # cs) =
     (let full = ExpandTentative e (TruncatedNonceFromCounter c)
      in full # receive_all (Expander_Commit e full) cs)"

text \<open>The \<open>(generation, nonce)\<close> pairs of a sender's next \<open>n\<close> frames.\<close>

fun next_pairs :: "nat \<Rightarrow> NonceCounter \<Rightarrow> (u32 \<times> u32) list" where
  "next_pairs 0 c = []"
| "next_pairs (Suc n) c = (let ((full, truncated, generation), c') = NonceCounter_Next c
     in (generation, truncated) # next_pairs n c')"

text \<open>Streams with bounded reordering: no counter is \<open>2 ^ 31\<close> or more away from the largest before it.\<close>

fun bounded_reorder :: "u64 \<Rightarrow> u64 list \<Rightarrow> bool" where
  "bounded_reorder h [] \<longleftrightarrow> True"
| "bounded_reorder h (c # cs) \<longleftrightarrow> absDiff c h < 2 ^ 31 \<and> bounded_reorder (max h c) cs"

section \<open>Lemmas\<close>

lemma unat_absDiff: "unat (absDiff a b) = (if unat b < unat a then unat a - unat b else unat b - unat a)"
  by (auto simp: absDiff_def word_less_nat_alt word_le_nat_alt unat_sub)

lemma unat_u32_u64: "unat (ucast t :: u64) = unat t" for t :: u32
  using unsigned_less [of t, where ?'a = nat] by (simp add: unsigned_ucast_eq take_bit_nat_eq_self)

lemma unat_cycle:
  "unat (push_bit 32 q OR ucast t :: u64) = (unat q mod 2 ^ 32) * 2 ^ 32 + unat t" for t :: u32
proof -
  have "push_bit 32 q OR ucast t = push_bit 32 q + (ucast t :: u64)"
    by (rule disjunctive_add [symmetric]) (auto simp: bit_simps dest: bit_imp_le_length)
  moreover have "unat (push_bit 32 q :: u64) = (unat q mod 2 ^ 32) * 2 ^ 32"
    by (simp add: unsigned_push_bit_eq push_bit_nat_def take_bit_nat_def mult.commute mult_mod_right)
  moreover have "(unat q mod 2 ^ 32) * 2 ^ 32 + unat t < 2 ^ 64"
    using unsigned_less [of t, where ?'a = nat] mod_less_divisor [of "2 ^ 32" "unat q"] by simp
  ultimately show ?thesis
    by (simp add: unat_add_lem [THEN iffD1] unat_u32_u64)
qed

lemma unat_high: "unat (drop_bit 32 h :: u64) = unat h div 2 ^ 32"
  by (simp only: unat_drop_bit_eq) (simp add: drop_bit_eq_div)

lemma unat_truncated: "unat (TruncatedNonceFromCounter c) = unat c mod 2 ^ 32"
  by (simp add: TruncatedNonceFromCounter_def unsigned_ucast_eq take_bit_nat_def)

lemma unat_high_less: "unat (drop_bit 32 h :: u64) < 2 ^ 32"
  using unsigned_less [of h, where ?'a = nat] by (simp add: unat_high less_mult_imp_div_less)

text \<open>Two counters with the same cut nonce cannot both be within \<open>2 ^ 31\<close> of a third.\<close>

lemma other_cycle_far:
  fixes c x h :: nat
  assumes "x mod 2 ^ 32 = c mod 2 ^ 32" "x \<noteq> c"
    and "(if h < c then c - h else h - c) < 2 ^ 31"
  shows "2 ^ 31 < (if h < x then x - h else h - x)"
proof -
  obtain a b r :: nat where ab: "x = 2 ^ 32 * a + r" "c = 2 ^ 32 * b + r"
    using assms(1) by (metis mult_div_mod_eq)
  with assms(2) have "a + 1 \<le> b \<or> b + 1 \<le> a" by fastforce
  then have "x + 2 ^ 32 \<le> c \<or> c + 2 ^ 32 \<le> x" unfolding ab by auto
  then show ?thesis using assms(3) by (auto split: if_splits)
qed

text \<open>The cycle of a counter near \<open>h\<close> is the cycle of \<open>h\<close> or one beside it.\<close>

lemma near_cycle:
  fixes c h :: nat
  assumes "(if h < c then c - h else h - c) < 2 ^ 31"
  shows "c div 2 ^ 32 = h div 2 ^ 32 \<or> c div 2 ^ 32 = h div 2 ^ 32 + 1
    \<or> (0 < h div 2 ^ 32 \<and> c div 2 ^ 32 = h div 2 ^ 32 - 1)"
  using assms by (auto split: if_splits)

definition cycle_candidate :: "u64 \<Rightarrow> u32 \<Rightarrow> u64" where
  "cycle_candidate q t = push_bit 32 q OR ucast t"

lemma cycle_candidate_eq:
  "unat q < 2 ^ 32 \<Longrightarrow> unat q = unat c div 2 ^ 32 \<Longrightarrow> cycle_candidate q (TruncatedNonceFromCounter c) = c"
  unfolding word_unat_eq_iff by (simp add: cycle_candidate_def unat_cycle unat_truncated)

lemma cycle_candidate_far:
  assumes "absDiff c h < 2 ^ 31"
  shows "cycle_candidate q (TruncatedNonceFromCounter c) = c
    \<or> absDiff c h < absDiff (cycle_candidate q (TruncatedNonceFromCounter c)) h"
proof -
  let ?x = "cycle_candidate q (TruncatedNonceFromCounter c)"
  have near: "unat (absDiff c h) < 2 ^ 31" using assms by (simp add: word_less_nat_alt)
  have "unat ?x mod 2 ^ 32 = unat c mod 2 ^ 32"
    by (simp add: cycle_candidate_def unat_cycle unat_truncated)
  then have "unat ?x = unat c \<or> 2 ^ 31 < unat (absDiff ?x h)"
    using other_cycle_far [of "unat ?x" "unat c" "unat h"] near unfolding unat_absDiff by blast
  then show ?thesis using near by (auto simp: word_less_nat_alt word_unat_eq_iff)
qed

lemma ExpandTentative_candidates:
  "ExpandTentative e t =
     (if \<not> initialized e then ucast t
      else let q = drop_bit 32 (highestSeen e); h = highestSeen e;
               x = (if 0 < q \<and> absDiff (cycle_candidate (q - 1) t) h < absDiff (cycle_candidate q t) h
                    then cycle_candidate (q - 1) t else cycle_candidate q t)
           in if absDiff (cycle_candidate (q + 1) t) h < absDiff x h then cycle_candidate (q + 1) t else x)"
  by (simp add: ExpandTentative_def cycle_candidate_def Let_def)

lemma expand_tentative_near:
  assumes "initialized e" and near: "absDiff c (highestSeen e) < 2 ^ 31"
  shows "ExpandTentative e (TruncatedNonceFromCounter c) = c"
proof -
  let ?h = "highestSeen e" and ?t = "TruncatedNonceFromCounter c"
  let ?q = "drop_bit 32 ?h"
  have q: "unat ?q = unat ?h div 2 ^ 32" "unat ?q < 2 ^ 32" by (rule unat_high, rule unat_high_less)
  have c: "unat c div 2 ^ 32 < 2 ^ 32" using unsigned_less [of c, where ?'a = nat] by simp
  have "unat (absDiff c ?h) < 2 ^ 31" using near by (simp add: word_less_nat_alt)
  from near_cycle [OF this [unfolded unat_absDiff]]
  consider "unat c div 2 ^ 32 = unat ?q" | "unat c div 2 ^ 32 = unat ?q + 1"
    | "0 < unat ?q" "unat c div 2 ^ 32 = unat ?q - 1" unfolding q(1) by metis
  then have "cycle_candidate ?q ?t = c \<or> cycle_candidate (?q + 1) ?t = c
      \<or> (0 < ?q \<and> cycle_candidate (?q - 1) ?t = c)"
  proof cases
    case 1 then show ?thesis using q(2) by (intro disjI1 cycle_candidate_eq) simp_all
  next
    case 2
    have "unat (?q + 1) = unat ?q + 1" using q(2) by (simp add: unat_add_lem [THEN iffD1])
    then show ?thesis using 2 c by (intro disjI2 disjI1 cycle_candidate_eq) simp_all
  next
    case 3
    then have "0 < ?q" by (simp add: word_less_nat_alt)
    moreover have "unat (?q - 1) = unat ?q - 1" using 3(1) by (subst unat_sub) (simp_all add: word_le_nat_alt)
    ultimately show ?thesis using 3(2) c by (intro disjI2 conjI cycle_candidate_eq) simp_all
  qed
  then show ?thesis
    using cycle_candidate_far [OF near, of ?q] cycle_candidate_far [OF near, of "?q + 1"]
      cycle_candidate_far [OF near, of "?q - 1"] assms(1)
    by (auto simp: ExpandTentative_candidates Let_def)
qed

lemma truncate_cycle: "TruncatedNonceFromCounter (cycle_candidate q t) = t"
  unfolding word_unat_eq_iff by (simp add: unat_truncated cycle_candidate_def unat_cycle)
    (simp add: unsigned_less [of t, where ?'a = nat, simplified])

lemma truncate_u32: "TruncatedNonceFromCounter (ucast t) = t" for t :: u32
  unfolding word_unat_eq_iff
  by (simp add: unat_truncated unat_u32_u64) (simp add: unsigned_less [of t, where ?'a = nat, simplified])

lemma ExpandTentative_truncates: "TruncatedNonceFromCounter (ExpandTentative e t) = t"
  by (simp add: ExpandTentative_candidates Let_def truncate_cycle truncate_u32)

text \<open>Expanding the nonce of a frame once more after it was committed gives the same counter.\<close>

lemma expand_again: "ExpandTentative (Expander_Commit e (ExpandTentative e t)) t = ExpandTentative e t"
proof (cases "\<not> initialized e \<or> highestSeen e < ExpandTentative e t")
  case True
  then have "ExpandTentative (Expander_Commit e (ExpandTentative e t)) (TruncatedNonceFromCounter (ExpandTentative e t))
      = ExpandTentative e t"
    by (intro expand_tentative_near) (auto simp: Expander_Commit_def absDiff_def)
  then show ?thesis by (simp add: ExpandTentative_truncates)
next
  case False
  then show ?thesis by (simp add: Expander_Commit_def)
qed

lemma Expander_Commit_highest:
  "initialized e \<Longrightarrow> initialized (Expander_Commit e c) \<and> highestSeen (Expander_Commit e c) = max (highestSeen e) c"
  by (auto simp: Expander_Commit_def max_def)

lemma receive_all_near:
  "initialized e \<Longrightarrow> bounded_reorder (highestSeen e) cs \<Longrightarrow> receive_all e cs = cs"
  by (induction cs arbitrary: e) (auto simp: Let_def expand_tentative_near Expander_Commit_highest)

lemma unat_generation: "unat (ucast (drop_bit 24 c) :: u32) = unat c div 2 ^ 24 mod 2 ^ 32" for c :: u64
  by (simp only: unsigned_ucast_eq unat_drop_bit_eq) (simp add: take_bit_nat_def drop_bit_eq_div)

lemma pair_counter:
  fixes c d :: u64
  assumes "unat c < 2 ^ 56" "unat d < 2 ^ 56"
    and "(ucast (drop_bit 24 c) :: u32) = ucast (drop_bit 24 d)" "(ucast c :: u32) = ucast d"
  shows "c = d"
proof -
  have "unat c div 2 ^ 24 mod 2 ^ 32 = unat d div 2 ^ 24 mod 2 ^ 32"
    using arg_cong [OF assms(3), of unat] by (simp only: unat_generation)
  then have "unat c div 2 ^ 24 = unat d div 2 ^ 24" using assms(1,2) by (simp add: div_less_mono)
  moreover have "unat c mod 2 ^ 24 = unat d mod 2 ^ 24"
    using arg_cong [OF assms(4), of "\<lambda>w. unat w mod 2 ^ 24"]
    by (simp add: unsigned_ucast_eq take_bit_nat_def mod_mod_cancel)
  ultimately show ?thesis unfolding word_unat_eq_iff by (metis mult_div_mod_eq)
qed

lemma next_pairs_conv:
  "next_pairs n c = map (\<lambda>i. let k = counter c + of_nat (Suc i) in (ucast (drop_bit 24 k), ucast k)) [0..<n]"
proof (induction n arbitrary: c)
  case (Suc n)
  have "[0..<Suc n] = 0 # map Suc [0..<n]" by (simp add: map_Suc_upt upt_conv_Cons del: upt_Suc)
  then show ?case by (simp add: NonceCounter_Next_def Let_def Suc.IH o_def add.assoc del: upt_Suc)
qed simp

lemma unat_counter_add: "unat c + i < 2 ^ 64 \<Longrightarrow> unat (c + of_nat i) = unat c + i" for c :: u64
  by (simp add: unat_word_ariths unat_of_nat mod_simps)

section \<open>Properties\<close>

text \<open>C30 nonce_stream_recovered. A receiver that authenticates every frame recovers the sender's
  full 64-bit counters from the 32-bit cut nonces, over any number of wrap-arounds of the cut
  nonce and with frames out of order: it is enough that the first counter fits in 32 bits and
  that no counter is \<open>2 ^ 31\<close> or more away from the largest one before it.\<close>

theorem nonce_stream_recovered:
  assumes "c < 2 ^ 32" and "bounded_reorder c cs"
  shows "receive_all NewNonceExpander (c # cs) = c # cs"
proof -
  have "ExpandTentative NewNonceExpander (TruncatedNonceFromCounter c) = c"
    using assms(1) unfolding word_unat_eq_iff
    by (simp add: ExpandTentative_def NewNonceExpander_def unat_u32_u64 unat_truncated word_less_nat_alt)
  then show ?thesis
    using receive_all_near [of "Expander_Commit NewNonceExpander c" cs] assms(2)
    by (simp add: Expander_Commit_def NewNonceExpander_def)
qed

theorem nonce_stream_recovered_witness:
  "receive_all NewNonceExpander [4294967295, 4294967297, 4294967294, 6000000000, 8000000000, 8589934593]
     = [4294967295, 4294967297, 4294967294, 6000000000, 8000000000, 8589934593]"
  by (rule nonce_stream_recovered) (simp_all add: absDiff_def max_def)

text \<open>Expanding in one step is expanding tentatively and then
  committing the result, so the two-phase use of the session (expand, authenticate, commit)
  computes the same counters as \<open>Expand\<close>.\<close>

theorem expand_is_tentative_commit:
  "Expand e t = (ExpandTentative e t, Expander_Commit e (ExpandTentative e t))"
  by (auto simp: Expand_def ExpandTentative_def Expander_Commit_def Let_def split: prod.splits)

text \<open>A sender never uses a (key generation, nonce) pair twice: the pairs
  that \<open>NonceCounter.Next\<close> hands out are all different as long as the counter stays below
  \<open>2 ^ 56\<close>, the 32 bits of the generation on top of the 24 bits below it.\<close>

theorem next_pairs_distinct:
  assumes "unat (counter c) + n < 2 ^ 56"
  shows "distinct (next_pairs n c)"
proof -
  have u: "unat (counter c + of_nat (Suc i)) = unat (counter c) + Suc i" if "i < n" for i
    by (rule unat_counter_add) (use assms that in simp)
  have "i = j"
    if "i < n" "j < n" and eq: "(ucast (drop_bit 24 (counter c + of_nat (Suc i))) :: u32)
        = ucast (drop_bit 24 (counter c + of_nat (Suc j)))"
      "(ucast (counter c + of_nat (Suc i)) :: u32) = ucast (counter c + of_nat (Suc j))" for i j
  proof -
    have "counter c + of_nat (Suc i) = counter c + of_nat (Suc j)"
      by (rule pair_counter [OF _ _ eq]) (use u [of i] u [of j] that(1,2) assms in linarith)+
    then show "i = j" using u [OF that(1)] u [OF that(2)] by simp
  qed
  then show ?thesis
    unfolding next_pairs_conv distinct_map Let_def
    by (intro conjI inj_onI) (simp_all only: distinct_upt prod.inject atLeastLessThan_iff set_upt)
qed

theorem next_pairs_distinct_witness:
  "distinct (next_pairs 3 \<lparr>counter = 0xFFFFFE\<rparr>) \<and> next_pairs 3 \<lparr>counter = 0xFFFFFE\<rparr> = [(0, 0xFFFFFF), (1, 0x1000000), (1, 0x1000001)]"
  using next_pairs_distinct [of "\<lparr>counter = 0xFFFFFE\<rparr>" 3]
  by (simp add: NonceCounter_Next_def numeral_3_eq_3)

end
