(* ===== verification/Ratchet.thy ===== *)
theory Ratchet
  imports Dave_Prelude
begin

text \<open>
  \<open>mediakeys/ratchet.go\<close>: the per-sender key ratchet. The key derivation \<open>Secret.KdfExpandLabel\<close>
  belongs to mls-go and is the parameter \<open>kdf\<close>; a secret is its bytes, so the wiping of old
  secrets is not visible in the model. The clock \<open>r.now\<close> is the parameter \<open>clk\<close>: \<open>clk i\<close> is the
  \<open>i\<close>-th reading the call takes, in nanoseconds. The mutex serialises the calls, so a history of
  a ratchet is a sequence of them.
\<close>

section \<open>Definitions\<close>

text \<open>Errors of \<open>mediakeys/errors.go\<close>; the wrapped ones carry the error of the code called.\<close>

datatype mediakeys_error =
    ErrNilExporter
  | ErrNilExporterSecret
  | ErrInvalidBaseSecret
  | ErrGenerationExpired
  | ErrDisplayableGroupSizeTooLarge
  | ErrDisplayableGroupSizeInvalid
  | ErrDisplayableCodeLenInvalid
  | ErrDisplayableCodeInputTooShort
  | ErrGenerationTooFar
  | DeriveGenerationKey u32 go_error
  | AdvanceGeneration u32 go_error
  | DeriveSenderBase mediakeys_error
  | ExternalError string go_error

type_synonym kdf = "bytes \<Rightarrow> string \<Rightarrow> bytes \<Rightarrow> int \<Rightarrow> go_error + bytes"

definition BaseSecretLen :: int where "BaseSecretLen = 16"

definition MediaKeyLen :: int where "MediaKeyLen = 16"

definition DefaultMaxGenerationGap :: u32 where "DefaultMaxGenerationGap = 256"

definition DefaultRetentionTTL :: int where "DefaultRetentionTTL = 10 * 1000000000"

record cachedGeneration =
  key :: bytes
  expiresAt :: int

record KeyRatchet =
  retentionTTL :: int
  maxGenerationGap :: u32
  baseSecret :: bytes
  baseGeneration :: u32
  cache :: "u32 \<rightharpoonup> cachedGeneration"

definition WithRetentionTTL :: "int \<Rightarrow> KeyRatchet \<Rightarrow> KeyRatchet" where
  "WithRetentionTTL ttl r = r\<lparr>retentionTTL := ttl\<rparr>"

definition WithMaxGenerationGap :: "u32 \<Rightarrow> KeyRatchet \<Rightarrow> KeyRatchet" where
  "WithMaxGenerationGap gap r = r\<lparr>maxGenerationGap := gap\<rparr>"

definition NewKeyRatchet :: "bytes \<Rightarrow> (KeyRatchet \<Rightarrow> KeyRatchet) list \<Rightarrow> mediakeys_error + KeyRatchet" where
  "NewKeyRatchet secret opts =
     (if int (length secret) \<noteq> BaseSecretLen then Inl ErrInvalidBaseSecret
      else Inr (fold (\<lambda>opt r. opt r) opts
        \<lparr>retentionTTL = DefaultRetentionTTL, maxGenerationGap = DefaultMaxGenerationGap,
         baseSecret = secret, baseGeneration = 0, cache = Map.empty\<rparr>))"

definition CurrentGeneration :: "KeyRatchet \<Rightarrow> u32" where
  "CurrentGeneration r = baseGeneration r"

definition deriveKeyForGeneration :: "kdf \<Rightarrow> bytes \<Rightarrow> u32 \<Rightarrow> mediakeys_error + bytes" where
  "deriveKeyForGeneration kdf secret generation =
     (case kdf secret ''key'' (BigEndian_PutUint32 generation) MediaKeyLen of
        Inl err \<Rightarrow> Inl (DeriveGenerationKey generation err)
      | Inr k \<Rightarrow> Inr k)"

definition advanceSecret :: "kdf \<Rightarrow> bytes \<Rightarrow> u32 \<Rightarrow> mediakeys_error + bytes" where
  "advanceSecret kdf secret generation =
     (case kdf secret ''secret'' (BigEndian_PutUint32 generation) 32 of
        Inl err \<Rightarrow> Inl (AdvanceGeneration generation err)
      | Inr next \<Rightarrow> Inr next)"

definition pruneExpiredLocked :: "int \<Rightarrow> KeyRatchet \<Rightarrow> KeyRatchet" where
  "pruneExpiredLocked now r =
     r\<lparr>cache := (\<lambda>generation. case cache r generation of
         Some cached \<Rightarrow> if now < expiresAt cached then Some cached else None
       | None \<Rightarrow> None)\<rparr>"

definition PruneExpired :: "int \<Rightarrow> KeyRatchet \<Rightarrow> KeyRatchet" where
  "PruneExpired now r = pruneExpiredLocked now r"

text \<open>The loop of \<open>GetKey\<close>: it walks the working secret from \<open>g\<close> up to \<open>target\<close> and caches the keys it
  meets; \<open>i\<close> counts the clock readings. The cache it filled survives an error.\<close>

function walk :: "kdf \<Rightarrow> (nat \<Rightarrow> int) \<Rightarrow> int \<Rightarrow> u32 \<Rightarrow> u32 \<Rightarrow> nat \<Rightarrow> bytes \<Rightarrow> (u32 \<rightharpoonup> cachedGeneration)
    \<Rightarrow> (mediakeys_error + bytes \<times> nat) \<times> (u32 \<rightharpoonup> cachedGeneration)" where
  "walk kdf clk ttl target g i work ch =
     (if g < target then
        (let cached = (case ch g of
             None \<Rightarrow> (case deriveKeyForGeneration kdf work g of
                 Inl err \<Rightarrow> Inl err
               | Inr k \<Rightarrow> Inr (Suc i, ch(g \<mapsto> \<lparr>key = k, expiresAt = clk i + ttl\<rparr>)))
           | Some c \<Rightarrow> Inr (i, ch))
         in case cached of
              Inl err \<Rightarrow> (Inl err, ch)
            | Inr (i', ch') \<Rightarrow>
                (case advanceSecret kdf work g of
                   Inl err \<Rightarrow> (Inl err, ch')
                 | Inr next \<Rightarrow> walk kdf clk ttl target (g + 1) i' next ch'))
      else (Inr (work, i), ch))"
  by pat_completeness auto
termination
  by (relation "measure (\<lambda>(kdf, clk, ttl, target, g, i, work, ch). unat target - unat g)")
    (auto simp: unat_Suc_less word_less_nat_alt)

declare walk.simps [simp del]

definition GetKey :: "kdf \<Rightarrow> (nat \<Rightarrow> int) \<Rightarrow> KeyRatchet \<Rightarrow> u32 \<Rightarrow> (mediakeys_error + bytes) \<times> KeyRatchet" where
  "GetKey kdf clk r0 target =
     (let r = pruneExpiredLocked (clk 0) r0 in
      case cache r target of
        Some cached \<Rightarrow> (Inr (key cached), r)
      | None \<Rightarrow>
          if target < baseGeneration r then (Inl ErrGenerationExpired, r)
          else if maxGenerationGap r < target - baseGeneration r then (Inl ErrGenerationTooFar, r)
          else
            (case walk kdf clk (retentionTTL r) target (baseGeneration r) 1 (baseSecret r) (cache r) of
               (Inl err, ch) \<Rightarrow> (Inl err, r\<lparr>cache := ch\<rparr>)
             | (Inr (work, i), ch) \<Rightarrow>
                 (case deriveKeyForGeneration kdf work target of
                    Inl err \<Rightarrow> (Inl err, r\<lparr>cache := ch\<rparr>)
                  | Inr k \<Rightarrow>
                      (Inr k, r\<lparr>cache := ch(target \<mapsto> \<lparr>key = k, expiresAt = clk i + retentionTTL r\<rparr>)\<rparr>))))"

text \<open>The loop of \<open>Commit\<close>. It overwrites \<open>r.baseSecret\<close> on every turn; the flag says whether it ran
  to the end.\<close>

function commit_loop :: "kdf \<Rightarrow> u32 \<Rightarrow> u32 \<Rightarrow> bytes \<Rightarrow> bool \<times> bytes" where
  "commit_loop kdf generation g secret =
     (if g < generation then
        (case advanceSecret kdf secret g of
           Inl err \<Rightarrow> (False, secret)
         | Inr next \<Rightarrow> commit_loop kdf generation (g + 1) next)
      else (True, secret))"
  by pat_completeness auto
termination
  by (relation "measure (\<lambda>(kdf, generation, g, secret). unat generation - unat g)")
    (auto simp: unat_Suc_less word_less_nat_alt)

declare commit_loop.simps [simp del]

definition Commit :: "kdf \<Rightarrow> KeyRatchet \<Rightarrow> u32 \<Rightarrow> KeyRatchet" where
  "Commit kdf r generation0 =
     (if generation0 \<le> baseGeneration r then r
      else
        (let generation = (if maxGenerationGap r < generation0 - baseGeneration r
                           then baseGeneration r + maxGenerationGap r else generation0);
             (ok, secret) = commit_loop kdf generation (baseGeneration r) (baseSecret r)
         in if ok then r\<lparr>baseSecret := secret, baseGeneration := generation\<rparr>
            else r\<lparr>baseSecret := secret\<rparr>))"

section \<open>Specification\<close>

text \<open>The secret and the key of a generation as functions of the sender's base secret alone.\<close>

fun secret_at :: "kdf \<Rightarrow> bytes \<Rightarrow> nat \<Rightarrow> mediakeys_error + bytes" where
  "secret_at kdf s0 0 = Inr s0"
| "secret_at kdf s0 (Suc n) = ebind (secret_at kdf s0 n) (\<lambda>s. advanceSecret kdf s (of_nat n))"

definition key_at :: "kdf \<Rightarrow> bytes \<Rightarrow> u32 \<Rightarrow> mediakeys_error + bytes" where
  "key_at kdf s0 g = ebind (secret_at kdf s0 (unat g)) (\<lambda>s. deriveKeyForGeneration kdf s g)"

definition cache_ok :: "kdf \<Rightarrow> bytes \<Rightarrow> (u32 \<rightharpoonup> cachedGeneration) \<Rightarrow> bool" where
  "cache_ok kdf s0 ch \<longleftrightarrow> (\<forall>g c. ch g = Some c \<longrightarrow> key_at kdf s0 g = Inr (key c))"

definition ratchet_inv :: "kdf \<Rightarrow> bytes \<Rightarrow> KeyRatchet \<Rightarrow> bool" where
  "ratchet_inv kdf s0 r \<longleftrightarrow>
     secret_at kdf s0 (unat (baseGeneration r)) = Inr (baseSecret r) \<and> cache_ok kdf s0 (cache r)"

text \<open>A key derivation that does not fail on the inputs the ratchet gives it.\<close>

definition kdf_total :: "kdf \<Rightarrow> bool" where
  "kdf_total kdf \<longleftrightarrow> (\<forall>s g. \<exists>k. deriveKeyForGeneration kdf s g = Inr k) \<and> (\<forall>s g. \<exists>k. advanceSecret kdf s g = Inr k)"

text \<open>A generation is served when its key is cached and unexpired, or within the gap of the base.\<close>

definition served :: "int \<Rightarrow> KeyRatchet \<Rightarrow> u32 \<Rightarrow> bool" where
  "served now r g \<longleftrightarrow> (case cache r g of Some c \<Rightarrow> now < expiresAt c | None \<Rightarrow> False)
     \<or> baseGeneration r \<le> g \<and> g - baseGeneration r \<le> maxGenerationGap r"

text \<open>Histories of calls.\<close>

datatype ratchet_op = OpGetKey "nat \<Rightarrow> int" u32 | OpCommit u32 | OpPrune int

fun ratchet_step :: "kdf \<Rightarrow> ratchet_op \<Rightarrow> KeyRatchet \<Rightarrow> KeyRatchet" where
  "ratchet_step kdf (OpGetKey clk g) r = snd (GetKey kdf clk r g)"
| "ratchet_step kdf (OpCommit g) r = Commit kdf r g"
| "ratchet_step kdf (OpPrune now) r = PruneExpired now r"

section \<open>Lemmas\<close>

lemma secret_at_Suc_word:
  "secret_at kdf s0 (unat g) = Inr s \<Longrightarrow> g < m \<Longrightarrow> secret_at kdf s0 (unat (g + 1)) = advanceSecret kdf s g"
  by (simp add: unat_Suc_less)

lemma cache_okD: "cache_ok kdf s0 ch \<Longrightarrow> ch g = Some c \<Longrightarrow> key_at kdf s0 g = Inr (key c)"
  by (simp add: cache_ok_def)

lemma cache_ok_upd:
  "cache_ok kdf s0 ch \<Longrightarrow> key_at kdf s0 g = Inr k \<Longrightarrow> cache_ok kdf s0 (ch(g \<mapsto> \<lparr>key = k, expiresAt = t\<rparr>))"
  by (simp add: cache_ok_def)

lemma key_at_eq: "secret_at kdf s0 (unat g) = Inr s \<Longrightarrow> key_at kdf s0 g = deriveKeyForGeneration kdf s g"
  by (simp add: key_at_def)

lemma walk_ok:
  assumes "secret_at kdf s0 (unat g) = Inr work" "cache_ok kdf s0 ch" "g \<le> target"
    "walk kdf clk ttl target g i work ch = (res, ch')"
  shows "cache_ok kdf s0 ch' \<and> (\<forall>w j. res = Inr (w, j) \<longrightarrow> secret_at kdf s0 (unat target) = Inr w)"
  using assms
proof (induction kdf clk ttl target g i work ch rule: walk.induct)
  case (1 kdf clk ttl target g i work ch)
  show ?case
  proof (cases "g < target")
    case True
    then have le: "g + 1 \<le> target" by (simp add: inc_le)
    note step = "1.IH" [OF True refl _ refl _ _ _ le] and eq = "1.prems"(4) [unfolded walk.simps [of _ _ _ _ g]]
    note k = key_at_eq [OF "1.prems"(1)] and s = secret_at_Suc_word [OF "1.prems"(1) True]
    show ?thesis
    proof (cases "ch g")
      case None
      with eq True show ?thesis using step s k "1.prems"(2) cache_ok_upd [OF "1.prems"(2)]
        by (auto simp: None split: sum.splits)
    next
      case (Some c)
      with eq True show ?thesis using step s "1.prems"(2) by (auto split: sum.splits)
    qed
  next
    case False
    then have "g = target" using "1.prems"(3) by simp
    then show ?thesis using "1.prems" by (subst (asm) walk.simps) auto
  qed
qed

lemma walk_total:
  "kdf_total kdf \<Longrightarrow> \<exists>w j. fst (walk kdf clk ttl target g i work ch) = Inr (w, j)"
proof (induction kdf clk ttl target g i work ch rule: walk.induct)
  case (1 kdf clk ttl target g i work ch)
  obtain k s where ks: "deriveKeyForGeneration kdf work g = Inr k" "advanceSecret kdf work g = Inr s"
    using 1(2) unfolding kdf_total_def by blast
  show ?case
  proof (cases "g < target")
    case True
    note step = "1.IH" [OF True refl _ refl _ "1.prems"]
    show ?thesis using True ks step by (subst walk.simps) (auto split: option.splits)
  qed (subst walk.simps, simp)
qed

lemma prune_fields [simp]:
  "baseGeneration (pruneExpiredLocked now r) = baseGeneration r"
  "baseSecret (pruneExpiredLocked now r) = baseSecret r"
  "maxGenerationGap (pruneExpiredLocked now r) = maxGenerationGap r"
  "retentionTTL (pruneExpiredLocked now r) = retentionTTL r"
  by (simp_all add: pruneExpiredLocked_def)

lemma prune_cache:
  "cache (pruneExpiredLocked now r) g = Some c \<longleftrightarrow> cache r g = Some c \<and> now < expiresAt c"
  by (auto simp: pruneExpiredLocked_def split: option.splits if_splits)

lemma prune_inv [simp]: "ratchet_inv kdf s0 r \<Longrightarrow> ratchet_inv kdf s0 (pruneExpiredLocked now r)"
  by (simp add: ratchet_inv_def cache_ok_def prune_cache)

lemma GetKey_base:
  "baseGeneration (snd (GetKey kdf clk r g)) = baseGeneration r \<and> baseSecret (snd (GetKey kdf clk r g)) = baseSecret r
    \<and> maxGenerationGap (snd (GetKey kdf clk r g)) = maxGenerationGap r"
  by (simp add: GetKey_def Let_def split: option.splits sum.splits prod.splits)

lemma GetKey_ok:
  assumes "ratchet_inv kdf s0 r" "GetKey kdf clk r g = (res, r')"
  shows "ratchet_inv kdf s0 r' \<and> (\<forall>k. res = Inr k \<longrightarrow> key_at kdf s0 g = Inr k)"
proof -
  let ?p = "pruneExpiredLocked (clk 0) r"
  have p: "secret_at kdf s0 (unat (baseGeneration r)) = Inr (baseSecret r)" "cache_ok kdf s0 (cache ?p)"
    using assms(1) prune_inv [OF assms(1)] by (simp_all add: ratchet_inv_def)
  show ?thesis
  proof (cases "cache ?p g = None \<and> \<not> g < baseGeneration r \<and> \<not> maxGenerationGap r < g - baseGeneration r")
    case False
    then show ?thesis using assms(2) prune_inv [OF assms(1)] cache_okD [OF p(2)]
      by (auto simp: GetKey_def Let_def split: option.splits if_splits)
  next
    case True
    obtain res1 ch where w: "walk kdf clk (retentionTTL r) g (baseGeneration r) 1 (baseSecret r) (cache ?p) = (res1, ch)"
      by fastforce
    then have ok: "cache_ok kdf s0 ch" "\<And>w j. res1 = Inr (w, j) \<Longrightarrow> secret_at kdf s0 (unat g) = Inr w"
      using walk_ok [OF p] True by (auto simp: not_less)
    show ?thesis
      using assms(2) True w ok p(1) key_at_eq [of kdf s0 g] cache_ok_upd [OF ok(1)]
      by (auto simp: GetKey_def Let_def ratchet_inv_def split: sum.splits prod.splits)
  qed
qed

lemma GetKey_served:
  assumes "ratchet_inv kdf s0 r" "kdf_total kdf"
  shows "(\<exists>k. fst (GetKey kdf clk r g) = Inr k) \<longleftrightarrow> served (clk 0) r g"
proof -
  let ?p = "pruneExpiredLocked (clk 0) r"
  obtain w j ch where w: "walk kdf clk (retentionTTL r) g (baseGeneration r) 1 (baseSecret r) (cache ?p) = (Inr (w, j), ch)"
    using walk_total [OF assms(2), of clk "retentionTTL r" g "baseGeneration r" 1 "baseSecret r" "cache ?p"]
    by (metis prod.collapse)
  obtain k where "deriveKeyForGeneration kdf w g = Inr k" using assms(2) unfolding kdf_total_def by blast
  with w show ?thesis
    by (auto simp: GetKey_def Let_def served_def not_less prune_cache pruneExpiredLocked_def
        split: option.splits if_splits)
qed

lemma commit_loop_ok:
  "secret_at kdf s0 (unat g) = Inr s \<Longrightarrow> g \<le> gen \<Longrightarrow> commit_loop kdf gen g s = (True, s') \<Longrightarrow>
     secret_at kdf s0 (unat gen) = Inr s'"
proof (induction kdf gen g s rule: commit_loop.induct)
  case (1 kdf gen g s)
  show ?case
  proof (cases "g < gen")
    case True
    then show ?thesis using 1 secret_at_Suc_word [OF "1.prems"(1) True]
      by (subst (asm) (2) commit_loop.simps) (auto simp: inc_le split: sum.splits)
  next
    case False
    then show ?thesis using 1 by (subst (asm) (2) commit_loop.simps) auto
  qed
qed

lemma commit_loop_total: "kdf_total kdf \<Longrightarrow> fst (commit_loop kdf gen g s)"
proof (induction kdf gen g s rule: commit_loop.induct)
  case (1 kdf gen g s)
  obtain s' where "advanceSecret kdf s g = Inr s'" using "1.prems" unfolding kdf_total_def by blast
  then show ?case using 1 by (subst commit_loop.simps) auto
qed

definition commit_target :: "KeyRatchet \<Rightarrow> u32 \<Rightarrow> u32" where
  "commit_target r g = (if g \<le> baseGeneration r then baseGeneration r
     else if maxGenerationGap r < g - baseGeneration r then baseGeneration r + maxGenerationGap r else g)"

lemma commit_target_le: "baseGeneration r \<le> commit_target r g"
proof -
  have "baseGeneration r \<le> baseGeneration r + maxGenerationGap r"
    if "baseGeneration r < g" "maxGenerationGap r < g - baseGeneration r"
  proof -
    have "unat (maxGenerationGap r) < unat g - unat (baseGeneration r)"
      using that by (simp add: word_less_nat_alt unat_sub less_imp_le)
    then have "unat (baseGeneration r) + unat (maxGenerationGap r) < 2 ^ LENGTH(32)"
      using unsigned_less [of g, where ?'a = nat] by simp
    then show ?thesis by (simp add: word_le_nat_alt unat_add_lem [THEN iffD1])
  qed
  then show ?thesis by (auto simp: commit_target_def)
qed

lemma Commit_ok:
  assumes "ratchet_inv kdf s0 r" "kdf_total kdf"
  shows "ratchet_inv kdf s0 (Commit kdf r g) \<and> baseGeneration (Commit kdf r g) = commit_target r g
    \<and> cache (Commit kdf r g) = cache r"
proof (cases "g \<le> baseGeneration r")
  case True
  then show ?thesis using assms by (simp add: Commit_def commit_target_def)
next
  case False
  obtain s where s: "commit_loop kdf (commit_target r g) (baseGeneration r) (baseSecret r) = (True, s)"
    using commit_loop_total [OF assms(2)] by (metis prod.collapse)
  have "secret_at kdf s0 (unat (commit_target r g)) = Inr s"
    using commit_loop_ok [OF _ commit_target_le s] assms(1) by (simp add: ratchet_inv_def)
  moreover have "Commit kdf r g = r\<lparr>baseSecret := s, baseGeneration := commit_target r g\<rparr>"
    using False s by (simp add: Commit_def commit_target_def Let_def split: if_splits)
  ultimately show ?thesis using assms(1) by (simp add: ratchet_inv_def)
qed

lemma PruneExpired_inv: "ratchet_inv kdf s0 r \<Longrightarrow> ratchet_inv kdf s0 (PruneExpired now r)"
  by (simp add: PruneExpired_def)

lemma ratchet_step_inv:
  "kdf_total kdf \<Longrightarrow> ratchet_inv kdf s0 r \<Longrightarrow> ratchet_inv kdf s0 (ratchet_step kdf op r)"
  by (cases op) (auto simp: PruneExpired_inv Commit_ok GetKey_ok [OF _ prod.collapse [symmetric]])

lemma NewKeyRatchet_inv:
  "NewKeyRatchet s0 [] = Inr r \<Longrightarrow> ratchet_inv kdf s0 r"
  by (auto simp: NewKeyRatchet_def ratchet_inv_def cache_ok_def split: if_splits)

section \<open>The interface\<close>

text \<open>
  What the media paths of a session rely on: keys come from a source whose answers are determined by
  the generation asked for, whatever other calls were made on it before.
\<close>

locale key_source =
  fixes get :: "'s \<Rightarrow> 'g \<Rightarrow> ('e + 'k) \<times> 's"
    and step :: "'op \<Rightarrow> 's \<Rightarrow> 's"
    and inv :: "'s \<Rightarrow> bool"
    and val :: "'g \<Rightarrow> 'e + 'k"
  assumes step_inv: "inv s \<Longrightarrow> inv (step op s)"
    and get_val: "inv s \<Longrightarrow> fst (get s g) = Inr k \<Longrightarrow> val g = Inr k"
begin

lemma history_inv: "inv s \<Longrightarrow> inv (fold step ops s)"
  by (induction ops arbitrary: s) (auto simp: step_inv)

lemma histories_agree:
  "inv s \<Longrightarrow> inv t \<Longrightarrow> fst (get (fold step ops s) g) = Inr k \<Longrightarrow> fst (get (fold step ops' t) h) = Inr l
    \<Longrightarrow> val g = val h \<Longrightarrow> k = l"
  using get_val [OF history_inv] by fastforce

end

interpretation ratchet: key_source "\<lambda>r (clk, g). GetKey kdf clk r g" "ratchet_step kdf"
    "\<lambda>r. kdf_total kdf \<and> ratchet_inv kdf s0 r" "\<lambda>(clk, g). key_at kdf s0 g" for kdf s0
  by unfold_locales
    (auto simp: ratchet_step_inv GetKey_ok [OF _ prod.collapse [symmetric]])

text \<open>A key derivation for the witnesses: the secret with the label's length and the context behind it,
  cut to the length asked for.\<close>

definition demo_kdf :: kdf where
  "demo_kdf s l ctx n = Inr (take (nat n) (of_nat (length l) # ctx @ s))"

lemma demo_kdf_total: "kdf_total demo_kdf"
  by (simp add: kdf_total_def deriveKeyForGeneration_def advanceSecret_def demo_kdf_def)

definition demo_ratchet :: KeyRatchet where
  "demo_ratchet = \<lparr>retentionTTL = 10, maxGenerationGap = 256, baseSecret = replicate 16 7,
     baseGeneration = 0, cache = Map.empty\<rparr>"

lemma demo_ratchet_inv: "ratchet_inv kdf (replicate 16 7) demo_ratchet"
  by (simp add: ratchet_inv_def demo_ratchet_def cache_ok_def)

lemmas demo_simps = GetKey_def Commit_def demo_ratchet_def walk.simps commit_loop.simps demo_kdf_def
  deriveKeyForGeneration_def advanceSecret_def pruneExpiredLocked_def BigEndian_PutUint32_def

lemma GetKey_errors:
  assumes "kdf_total kdf" "\<not> served (clk 0) r g"
  shows "fst (GetKey kdf clk r g) = Inl (if g < baseGeneration r then ErrGenerationExpired else ErrGenerationTooFar)"
proof -
  have "cache (pruneExpiredLocked (clk 0) r) g = None"
    using assms(2) by (auto simp: served_def pruneExpiredLocked_def split: option.splits)
  then show ?thesis using assms(2) by (auto simp: GetKey_def Let_def served_def not_less)
qed

lemma GetKey_caches:
  assumes "GetKey kdf (\<lambda>_. t) r g = (Inr k, r')" "cache r g = None"
  shows "cache r' g = Some \<lparr>key = k, expiresAt = t + retentionTTL r\<rparr>"
  using assms
  by (auto simp: GetKey_def Let_def prune_cache pruneExpiredLocked_def split: option.splits sum.splits prod.splits if_splits)

section \<open>Properties\<close>

text \<open>C28 ratchets_agree. Two ratchets with one base secret give the same key for a generation, whatever
  histories of \<open>GetKey\<close>, \<open>Commit\<close> and \<open>PruneExpired\<close> calls, retention times, gaps and clocks they have
  behind them, when both give a key at all: sender and receiver never disagree on a media key.\<close>

theorem ratchets_agree:
  assumes "kdf_total kdf" "ratchet_inv kdf s0 r" "ratchet_inv kdf s0 r'"
    and "fst (GetKey kdf clk (fold (ratchet_step kdf) ops r) g) = Inr k"
    and "fst (GetKey kdf clk' (fold (ratchet_step kdf) ops' r') g) = Inr k'"
  shows "k = k'"
  using ratchet.histories_agree [of kdf s0 r r' ops "(clk, g)" k ops' "(clk', g)" k'] assms by simp

theorem ratchets_agree_witness:
  "\<exists>k. fst (GetKey demo_kdf (\<lambda>_. 3) demo_ratchet 2) = Inr k
     \<and> fst (GetKey demo_kdf (\<lambda>_. 50) (fold (ratchet_step demo_kdf) [OpGetKey (\<lambda>_. 3) 5, OpCommit 1, OpPrune 20] demo_ratchet) 2) = Inr k"
proof -
  let ?r = "fold (ratchet_step demo_kdf) [OpGetKey (\<lambda>_. 3) 5, OpCommit 1, OpPrune 20] demo_ratchet"
  have inv: "ratchet_inv demo_kdf (replicate 16 7) ?r"
    by (simp add: ratchet_step_inv demo_kdf_total demo_ratchet_inv PruneExpired_inv del: ratchet_step.simps)
  have "baseGeneration ?r = 1" "maxGenerationGap ?r = 256"
    by (simp_all add: demo_simps PruneExpired_def)
  then obtain k k' where k: "fst (GetKey demo_kdf (\<lambda>_. 3) (fold (ratchet_step demo_kdf) [] demo_ratchet) 2) = Inr k"
      "fst (GetKey demo_kdf (\<lambda>_. 50) ?r 2) = Inr k'"
    using GetKey_served [OF demo_ratchet_inv demo_kdf_total, of "\<lambda>_. 3" 2]
      GetKey_served [OF inv demo_kdf_total, of "\<lambda>_. 50" 2]
    by (auto simp: served_def demo_ratchet_def)
  then have "k = k'"
    by (rule ratchets_agree [OF demo_kdf_total demo_ratchet_inv demo_ratchet_inv])
  then show ?thesis using k by auto
qed

text \<open>C29 getkey_outcome. The result of \<open>GetKey\<close> on every branch: a cached unexpired generation, or one
  from the base up to the maximal gap, gets the key that belongs to it; an older one fails as
  expired and a later one as too far. Whatever the outcome, the base of the ratchet does not move
  and the ratchet stays well-formed, so a forged frame cannot drive it forward.\<close>

theorem getkey_outcome:
  assumes "ratchet_inv kdf s0 r" "kdf_total kdf"
  shows "fst (GetKey kdf clk r g) =
      (if served (clk 0) r g then key_at kdf s0 g
       else Inl (if g < baseGeneration r then ErrGenerationExpired else ErrGenerationTooFar))
    \<and> baseGeneration (snd (GetKey kdf clk r g)) = baseGeneration r
    \<and> baseSecret (snd (GetKey kdf clk r g)) = baseSecret r
    \<and> ratchet_inv kdf s0 (snd (GetKey kdf clk r g))"
  using GetKey_served [OF assms, of clk g] GetKey_errors [OF assms(2), of clk r g] GetKey_base [of kdf clk r g]
    GetKey_ok [OF assms(1) prod.collapse [symmetric], of clk g] by fastforce

theorem getkey_outcome_witness:
  "fst (GetKey demo_kdf (\<lambda>_. 3) demo_ratchet 2) = key_at demo_kdf (replicate 16 7) 2
     \<and> fst (GetKey demo_kdf (\<lambda>_. 3) demo_ratchet 257) = Inl ErrGenerationTooFar"
  using getkey_outcome [OF demo_ratchet_inv demo_kdf_total, of "\<lambda>_. 3" 2]
    getkey_outcome [OF demo_ratchet_inv demo_kdf_total, of "\<lambda>_. 3" 257]
  by (simp add: served_def demo_ratchet_def)

text \<open>\<open>Commit\<close> moves the base to the generation asked for, by the maximal gap at
  most and never backwards, keeps the cached keys, and leaves in \<open>baseSecret\<close> the secret of the new base.\<close>

theorem commit_advances:
  assumes "ratchet_inv kdf s0 r" "kdf_total kdf"
  shows "ratchet_inv kdf s0 (Commit kdf r g) \<and> cache (Commit kdf r g) = cache r
    \<and> unat (baseGeneration (Commit kdf r g))
      = max (unat (baseGeneration r)) (min (unat g) (unat (baseGeneration r) + unat (maxGenerationGap r)))"
proof -
  have "unat (commit_target r g)
      = max (unat (baseGeneration r)) (min (unat g) (unat (baseGeneration r) + unat (maxGenerationGap r)))"
  proof (cases "baseGeneration r < g \<and> maxGenerationGap r < g - baseGeneration r")
    case True
    then have "unat (maxGenerationGap r) < unat g - unat (baseGeneration r)"
      by (auto simp: word_less_nat_alt unat_sub word_le_nat_alt)
    moreover from this have "unat (baseGeneration r) + unat (maxGenerationGap r) < 2 ^ LENGTH(32)"
      using unsigned_less [of g, where ?'a = nat] by simp
    ultimately show ?thesis using True by (auto simp: commit_target_def unat_add_lem [THEN iffD1])
  next
    case False
    then show ?thesis by (auto simp: commit_target_def word_less_nat_alt word_le_nat_alt unat_sub max_def min_def)
  qed
  then show ?thesis using Commit_ok [OF assms, of g] by simp
qed

theorem commit_advances_witness:
  "ratchet_inv demo_kdf (replicate 16 7) (Commit demo_kdf demo_ratchet 300)
     \<and> unat (baseGeneration (Commit demo_kdf demo_ratchet 300)) = 256"
  using commit_advances [OF demo_ratchet_inv demo_kdf_total, of 300] by (simp add: demo_ratchet_def)

text \<open>A key handed out at time \<open>t\<close> stays available for exactly the retention time
  after the base has moved past its generation: before \<open>t + ttl\<close> it is returned unchanged, from then
  on it is refused as expired.\<close>

theorem retention_window:
  assumes "ratchet_inv kdf s0 r" "kdf_total kdf" "cache r g = None"
    and "GetKey kdf (\<lambda>_. t) r g = (Inr k, r1)" "g < baseGeneration (Commit kdf r1 h)"
  shows "fst (GetKey kdf (\<lambda>_. now) (Commit kdf r1 h) g)
    = (if now < t + retentionTTL r then Inr k else Inl ErrGenerationExpired)"
proof -
  have inv1: "ratchet_inv kdf s0 r1" and k: "key_at kdf s0 g = Inr k" using GetKey_ok [OF assms(1,4)] by simp_all
  have "cache (Commit kdf r1 h) g = Some \<lparr>key = k, expiresAt = t + retentionTTL r\<rparr>"
    using Commit_ok [OF inv1 assms(2)] GetKey_caches [OF assms(4,3)] by simp
  then have "served now (Commit kdf r1 h) g \<longleftrightarrow> now < t + retentionTTL r"
    using assms(5) by (auto simp: served_def)
  moreover have "ratchet_inv kdf s0 (Commit kdf r1 h)" using Commit_ok [OF inv1 assms(2)] by simp
  ultimately show ?thesis
    using GetKey_served [OF _ assms(2), of s0 "Commit kdf r1 h" "\<lambda>_. now" g]
      GetKey_errors [OF assms(2), of "\<lambda>_. now" "Commit kdf r1 h" g]
      GetKey_ok [OF _ prod.collapse [symmetric], of kdf s0 "Commit kdf r1 h" "\<lambda>_. now" g] k assms(5)
    by auto
qed

theorem retention_window_witness:
  "\<exists>k r1. GetKey demo_kdf (\<lambda>_. 3) demo_ratchet 0 = (Inr k, r1)
     \<and> fst (GetKey demo_kdf (\<lambda>_. 12) (Commit demo_kdf r1 2) 0) = Inr k
     \<and> fst (GetKey demo_kdf (\<lambda>_. 13) (Commit demo_kdf r1 2) 0) = Inl ErrGenerationExpired"
proof -
  obtain k r1 where g: "GetKey demo_kdf (\<lambda>_. 3) demo_ratchet 0 = (Inr k, r1)"
    by (simp add: demo_simps)
  have "baseGeneration (Commit demo_kdf r1 2) = 2"
    using Commit_ok [OF _ demo_kdf_total, of "replicate 16 7" r1 2] GetKey_ok [OF demo_ratchet_inv g]
      GetKey_base [of demo_kdf "\<lambda>_. 3" demo_ratchet 0] g
    by (simp add: commit_target_def demo_ratchet_def)
  then show ?thesis
    using g retention_window [OF demo_ratchet_inv demo_kdf_total _ g, of 2 12]
      retention_window [OF demo_ratchet_inv demo_kdf_total _ g, of 2 13]
    by (simp add: demo_ratchet_def)
qed

text \<open>The walk of \<open>Commit\<close> under a key derivation that may fail: it ends at the target, or at the first
  generation whose secret cannot be advanced, with the secret of that generation.\<close>

lemma commit_loop_stops:
  "secret_at kdf s0 (unat g) = Inr s \<Longrightarrow> g \<le> gen \<Longrightarrow> commit_loop kdf gen g s = (ok, s') \<Longrightarrow>
     \<exists>h. g \<le> h \<and> h \<le> gen \<and> secret_at kdf s0 (unat h) = Inr s' \<and> (ok \<longleftrightarrow> h = gen) \<and>
       (h = gen \<or> (\<exists>e. advanceSecret kdf s' h = Inl e))"
proof (induction kdf gen g s rule: commit_loop.induct)
  case (1 kdf gen g s)
  show ?case
  proof (cases "g < gen")
    case True
    show ?thesis
    proof (cases "advanceSecret kdf s g")
      case (Inl e)
      then show ?thesis
        using True 1(2,4) by (auto simp: commit_loop.simps [of kdf gen g s] intro!: exI [of _ g])
    next
      case (Inr n)
      have "commit_loop kdf gen (g + 1) n = (ok, s')"
        using True Inr 1(4) by (simp add: commit_loop.simps [of kdf gen g s])
      from "1.IH" [OF True Inr _ _ this] secret_at_Suc_word [OF "1.prems"(1) True] Inr True
      obtain h where "g + 1 \<le> h" "h \<le> gen" "secret_at kdf s0 (unat h) = Inr s'" "ok \<longleftrightarrow> h = gen"
          "h = gen \<or> (\<exists>e. advanceSecret kdf s' h = Inl e)"
        by (auto simp: inc_le)
      moreover have "g \<le> g + 1"
        using True by (simp add: inc_le less_imp_le word_le_nat_alt unat_Suc_less)
      ultimately show ?thesis by (intro exI [of _ h]) (auto intro: order_trans)
    qed
  next
    case False
    then have "commit_loop kdf gen g s = (True, s)"
      by (simp add: commit_loop.simps [of kdf gen g s])
    then show ?thesis using False 1(2-4) by auto
  qed
qed

text \<open>C38 commit_outcome. What \<open>Commit\<close> does under any key derivation. It walks to a generation \<open>h\<close>, the clamped target
  or the first one whose secret cannot be advanced, and keeps the secret of \<open>h\<close>. If \<open>h\<close> is the target,
  the base generation moves there too. If the derivation failed, the base generation keeps its old
  value: a failure on the first step leaves the ratchet as it was, and a later one leaves the secret
  of \<open>h\<close> under the number of an earlier generation. From then on, \<open>GetKey\<close> of the base generation, if it
  is not cached, returns a key derived from the secret of \<open>h\<close>, without an error.\<close>

theorem commit_outcome:
  assumes "ratchet_inv kdf s0 r"
  shows "\<exists>h s. baseGeneration r \<le> h \<and> h \<le> commit_target r g \<and> secret_at kdf s0 (unat h) = Inr s \<and>
    (h = commit_target r g \<or> (\<exists>e. advanceSecret kdf s h = Inl e)) \<and>
    Commit kdf r g = r\<lparr>baseSecret := s, baseGeneration := (if h = commit_target r g then h else baseGeneration r)\<rparr> \<and>
    (h \<noteq> commit_target r g \<and> cache r (baseGeneration r) = None \<longrightarrow>
       (\<forall>kdf' clk. fst (GetKey kdf' clk (Commit kdf r g) (baseGeneration r))
          = deriveKeyForGeneration kdf' s (baseGeneration r)))"
proof (cases "g \<le> baseGeneration r")
  case True
  then show ?thesis
    using assms by (intro exI [of _ "baseGeneration r"] exI [of _ "baseSecret r"])
      (simp add: Commit_def commit_target_def ratchet_inv_def)
next
  case False
  obtain ok s where l: "commit_loop kdf (commit_target r g) (baseGeneration r) (baseSecret r) = (ok, s)"
    by fastforce
  obtain h where h: "baseGeneration r \<le> h" "h \<le> commit_target r g" "secret_at kdf s0 (unat h) = Inr s"
      "ok \<longleftrightarrow> h = commit_target r g" "h = commit_target r g \<or> (\<exists>e. advanceSecret kdf s h = Inl e)"
    using commit_loop_stops [OF _ commit_target_le l] assms by (auto simp: ratchet_inv_def)
  have c: "Commit kdf r g = r\<lparr>baseSecret := s, baseGeneration := (if h = commit_target r g then h else baseGeneration r)\<rparr>"
    using False l h(4) by (simp add: Commit_def commit_target_def Let_def split: if_splits)
  have "fst (GetKey kdf' clk (r\<lparr>baseSecret := s\<rparr>) (baseGeneration r)) = deriveKeyForGeneration kdf' s (baseGeneration r)"
    if "cache r (baseGeneration r) = None" for kdf' clk
    using that by (auto simp: GetKey_def pruneExpiredLocked_def walk.simps Let_def split: sum.splits option.splits)
  then show ?thesis
    using h c by (intro exI [of _ h] exI [of _ s]) auto
qed

text \<open>Witness of \<open>commit_outcome\<close>: a derivation that fails once, on the second step of the walk. The ratchet
  keeps generation 0 with another secret.\<close>

definition failing_kdf :: kdf where
  "failing_kdf s l ctx n = (if l = ''secret'' \<and> ctx = [0, 0, 0, 1] then Inl ''kdf failed'' else demo_kdf s l ctx n)"

theorem commit_outcome_witness:
  "baseGeneration (Commit failing_kdf demo_ratchet 2) = 0 \<and>
   baseSecret (Commit failing_kdf demo_ratchet 2) \<noteq> baseSecret demo_ratchet \<and>
   (\<exists>(h :: u32) s. 0 < h \<and> h < 2 \<and> secret_at failing_kdf (replicate 16 7) (unat h) = Inr s \<and>
      baseSecret (Commit failing_kdf demo_ratchet 2) = s \<and>
      fst (GetKey demo_kdf (\<lambda>_. 0) (Commit failing_kdf demo_ratchet 2) 0) = deriveKeyForGeneration demo_kdf s 0)"
proof -
  have b: "baseGeneration (Commit failing_kdf demo_ratchet 2) = 0"
      "baseSecret (Commit failing_kdf demo_ratchet 2) \<noteq> baseSecret demo_ratchet"
    by (simp_all add: demo_simps failing_kdf_def MediaKeyLen_def) (simp add: eval_nat_numeral)?
  have d: "baseGeneration demo_ratchet = 0" "baseSecret demo_ratchet = replicate 16 7" "cache demo_ratchet = Map.empty"
      "commit_target demo_ratchet 2 = 2"
    by (simp_all add: demo_ratchet_def commit_target_def)
  from commit_outcome [OF demo_ratchet_inv [of failing_kdf], of 2, unfolded d] obtain h s where h: "h \<le> 2"
      "secret_at failing_kdf (replicate 16 7) (unat h) = Inr s"
      "Commit failing_kdf demo_ratchet 2 = demo_ratchet\<lparr>baseSecret := s, baseGeneration := (if h = 2 then h else 0)\<rparr>"
      "h \<noteq> 2 \<Longrightarrow> fst (GetKey demo_kdf (\<lambda>_. 0) (Commit failing_kdf demo_ratchet 2) 0) = deriveKeyForGeneration demo_kdf s 0"
    by blast
  have "h \<noteq> 2" using b(1) h(3) by auto
  moreover from this have "h \<noteq> 0" using b(2) h(2,3) d(2) by auto
  ultimately have "0 < h" "h < 2" using h(1) by (simp_all add: word_gt_0 order_less_le)
  moreover have "baseSecret (Commit failing_kdf demo_ratchet 2) = s" using h(3) by simp
  ultimately show ?thesis using b h(2,4) \<open>h \<noteq> 2\<close> by blast
qed

end
