(* ===== verification/Media_Keys.thy ===== *)
theory Media_Keys
  imports Ratchet
begin

text \<open>
  The rest of package \<open>mediakeys\<close>: the displayable codes (\<open>displayable_code.go\<close>), the derivation of a
  sender's base secret (\<open>export.go\<close>) and the exporter construction (\<open>exporter_secret.go\<close>). The MLS
  exporter and the primitives of a cipher suite belong to mls-go: they are parameters.
\<close>

section \<open>Definitions\<close>

subsection \<open>\<open>fmt\<close>: decimal numbers\<close>

definition digit_char :: "nat \<Rightarrow> char" where
  "digit_char d = char_of (48 + d)"

fun decimal :: "nat \<Rightarrow> string" where
  "decimal n = (if n < 10 then [digit_char n] else decimal (n div 10) @ [digit_char (n mod 10)])"

declare decimal.simps [simp del]

text \<open>\<open>Fprintf("%0*d", width, n)\<close>.\<close>

definition format_padded :: "nat \<Rightarrow> nat \<Rightarrow> string" where
  "format_padded width n = replicate (width - length (decimal n)) (CHR ''0'') @ decimal n"

subsection \<open>\<open>displayable_code.go\<close>\<close>

text \<open>The inner loops: \<open>mod *= 10\<close> and \<open>n = (n << 8) | uint64(secret[off+j])\<close>, on 64-bit words.\<close>

definition pow10 :: "nat \<Rightarrow> u64" where
  "pow10 groupSize = ((\<lambda>m. m * 10) ^^ groupSize) 1"

definition group_number :: "bytes \<Rightarrow> nat \<Rightarrow> nat \<Rightarrow> u64" where
  "group_number secret off groupSize = foldl (\<lambda>n j. push_bit 8 n OR ucast (secret ! (off + j))) 0 [0..<groupSize]"

definition DisplayableCode :: "bytes \<Rightarrow> int \<Rightarrow> int \<Rightarrow> mediakeys_error + string" where
  "DisplayableCode secret codeLen groupSize =
     (if 8 \<le> groupSize then Inl ErrDisplayableGroupSizeTooLarge
      else if groupSize \<le> 0 then Inl ErrDisplayableGroupSizeInvalid
      else if codeLen \<le> 0 \<or> codeLen mod groupSize \<noteq> 0 then Inl ErrDisplayableCodeLenInvalid
      else
        (let groups = codeLen div groupSize in
         if int (length secret) < groups * groupSize then Inl ErrDisplayableCodeInputTooShort
         else
           (let m = pow10 (nat groupSize)
            in Inr (concat (map (\<lambda>i. format_padded (nat groupSize)
                 (unat (group_number secret (i * nat groupSize) (nat groupSize) mod m))) [0..<nat groups])))))"

subsection \<open>\<open>export.go\<close>\<close>

definition ExporterLabel :: string where "ExporterLabel = ''Discord Secure Frames v0''"

definition SenderIDContextLE :: "u64 \<Rightarrow> bytes" where
  "SenderIDContextLE senderID = LittleEndian_PutUint64 senderID"

text \<open>An exporter is \<open>None\<close> when the interface is nil.\<close>

type_synonym exporter = "string \<Rightarrow> bytes \<Rightarrow> int \<Rightarrow> go_error + bytes"

definition DeriveSenderBaseSecret :: "exporter option \<Rightarrow> u64 \<Rightarrow> mediakeys_error + bytes" where
  "DeriveSenderBaseSecret exporter senderID =
     (case exporter of
        None \<Rightarrow> Inl ErrNilExporter
      | Some export \<Rightarrow>
          (case export ExporterLabel (SenderIDContextLE senderID) BaseSecretLen of
             Inl err \<Rightarrow> Inl (ExternalError ''derive sender base secret'' err)
           | Inr secret \<Rightarrow>
               if int (length secret) \<noteq> BaseSecretLen then Inl (DeriveSenderBase ErrInvalidBaseSecret)
               else Inr secret))"

subsection \<open>\<open>exporter_secret.go\<close>\<close>

definition ExportWithMLSExporterSecret ::
    "kdf \<Rightarrow> (bytes \<Rightarrow> string \<Rightarrow> go_error + bytes) \<Rightarrow> (bytes \<Rightarrow> go_error + bytes) \<Rightarrow> bytes option \<Rightarrow> string \<Rightarrow> bytes \<Rightarrow> int
      \<Rightarrow> mediakeys_error + bytes" where
  "ExportWithMLSExporterSecret kdf deriveSecret hash exporterSecret label context len =
     (case exporterSecret of
        None \<Rightarrow> Inl ErrNilExporterSecret
      | Some secret \<Rightarrow>
          (case deriveSecret secret label of
             Inl err \<Rightarrow> Inl (ExternalError ''derive exporter label'' err)
           | Inr derivedSecret \<Rightarrow>
               (case hash context of
                  Inl err \<Rightarrow> Inl (ExternalError ''hash exporter context'' err)
                | Inr contextHash \<Rightarrow>
                    (case kdf derivedSecret ''exported'' contextHash len of
                       Inl err \<Rightarrow> Inl (ExternalError ''expand exported secret'' err)
                     | Inr exportedSecret \<Rightarrow> Inr exportedSecret))))"

section \<open>Specification of the codes\<close>

definition be_nat :: "bytes \<Rightarrow> nat" where
  "be_nat bs = foldl (\<lambda>n b. 256 * n + unat b) 0 bs"

definition char_digit :: "char \<Rightarrow> nat" where
  "char_digit c = of_char c - 48"

definition decimal_value :: "string \<Rightarrow> nat" where
  "decimal_value s = foldl (\<lambda>n c. 10 * n + char_digit c) 0 s"

definition is_digit :: "char \<Rightarrow> bool" where
  "is_digit c \<longleftrightarrow> 48 \<le> (of_char c :: nat) \<and> (of_char c :: nat) \<le> 57"

section \<open>Lemmas\<close>

lemma digit_char: "d < 10 \<Longrightarrow> char_digit (digit_char d) = d \<and> is_digit (digit_char d)"
  by (simp add: char_digit_def digit_char_def is_digit_def)

lemma decimal_value_snoc [simp]: "decimal_value (s @ [c]) = 10 * decimal_value s + char_digit c"
  by (simp add: decimal_value_def)

lemma decimal_correct: "decimal_value (decimal n) = n \<and> list_all is_digit (decimal n)"
proof (induction n rule: decimal.induct)
  case (1 n)
  show ?case
  proof (cases "n < 10")
    case True
    then show ?thesis by (simp add: decimal.simps [of n] digit_char) (simp add: decimal_value_def digit_char)
  next
    case False
    then show ?thesis using 1 by (simp add: decimal.simps [of n] digit_char)
  qed
qed

lemma decimal_length: "n < 10 ^ Suc k \<Longrightarrow> length (decimal n) \<le> Suc k"
proof (induction k arbitrary: n)
  case 0
  then show ?case by (simp add: decimal.simps)
next
  case (Suc k)
  then have "n div 10 < 10 ^ Suc k" by (simp add: less_mult_imp_div_less mult.commute)
  then show ?case using Suc.IH [of "n div 10"] by (subst decimal.simps) simp
qed

lemma decimal_value_zeros: "decimal_value (replicate k (CHR ''0'') @ s) = decimal_value s"
  by (induction k) (simp_all add: decimal_value_def char_digit_def)

lemma format_padded_correct:
  assumes "n < 10 ^ w" "0 < w"
  shows "decimal_value (format_padded w n) = n \<and> list_all is_digit (format_padded w n) \<and> length (format_padded w n) = w"
proof -
  have "length (decimal n) \<le> w" using decimal_length [of n "w - 1"] assms by simp
  moreover have "is_digit (CHR ''0'')" by (simp add: is_digit_def)
  ultimately show ?thesis using decimal_correct [of n]
    by (auto simp: format_padded_def decimal_value_zeros list_all_iff)
qed

lemma unat_pow10: "k < 8 \<Longrightarrow> unat (pow10 k) = 10 ^ k"
proof -
  assume "k < 8"
  then have "(10 :: nat) ^ k \<le> 10 ^ 7" by (intro power_increasing) simp_all
  moreover have "pow10 k = of_nat (10 ^ k)" by (induction k) (simp_all add: pow10_def mult.commute)
  ultimately show ?thesis by (simp add: unat_of_nat take_bit_nat_eq_self del: of_nat_power)
qed

lemma shift_or_byte:
  fixes n :: u64 and b :: u8
  assumes "unat n < 2 ^ 56"
  shows "unat (push_bit 8 n OR ucast b) = 256 * unat n + unat b"
proof -
  have "push_bit 8 n OR ucast b = push_bit 8 n + (ucast b :: u64)"
    by (rule disjunctive_add [symmetric]) (auto simp: bit_simps dest: bit_imp_le_length)
  moreover have "unat (push_bit 8 n) = 256 * unat n"
    using assms by (simp add: unsigned_push_bit_eq push_bit_nat_def take_bit_nat_def mult.commute)
  moreover have "unat (ucast b :: u64) = unat b" "256 * unat n + unat b < 2 ^ 64"
    using unsigned_less [of b, where ?'a = nat] assms by (simp_all add: unsigned_ucast_eq take_bit_nat_eq_self)
  ultimately show ?thesis by (simp add: unat_add_lem [THEN iffD1])
qed

lemma be_nat_snoc [simp]: "be_nat (bs @ [b]) = 256 * be_nat bs + unat b"
  by (simp add: be_nat_def)

lemma be_nat_less: "be_nat bs < 256 ^ length bs"
proof (induction bs rule: rev_induct)
  case (snoc b bs)
  then show ?case using unsigned_less [of b, where ?'a = nat] by simp
qed (simp add: be_nat_def)

lemma group_number_correct:
  "off + k \<le> length secret \<Longrightarrow> k < 8 \<Longrightarrow> unat (group_number secret off k) = be_nat (take k (drop off secret))"
proof (induction k)
  case (Suc k)
  have "be_nat (take k (drop off secret)) < 256 ^ k" using be_nat_less [of "take k (drop off secret)"] Suc.prems by simp
  also have "(256 :: nat) ^ k \<le> 256 ^ 7" by (rule power_increasing) (use Suc.prems in simp_all)
  finally have "unat (group_number secret off k) < 2 ^ 56" using Suc by simp
  then have "unat (group_number secret off (Suc k)) = 256 * unat (group_number secret off k) + unat (secret ! (off + k))"
    by (simp add: group_number_def shift_or_byte)
  then show ?case using Suc by (simp add: take_Suc_conv_app_nth nth_drop)
qed (simp add: group_number_def be_nat_def)

section \<open>Properties\<close>

text \<open>C39 displayable_code_correct. A displayable code of valid length and group size, from enough input,
  is made of \<open>codeLen / groupSize\<close> groups of exactly \<open>groupSize\<close> decimal digits; group \<open>i\<close> is the
  big-endian number of the \<open>i\<close>-th \<open>groupSize\<close> bytes modulo \<open>10 ^ groupSize\<close>, with leading zeros.\<close>

theorem displayable_code_correct:
  assumes "0 < gs" "gs < 8" "0 < groups" "groups * gs \<le> length secret"
  shows "\<exists>gss. DisplayableCode secret (int (groups * gs)) (int gs) = Inr (concat gss) \<and> length gss = groups
    \<and> length (concat gss) = groups * gs
    \<and> (\<forall>i<groups. length (gss ! i) = gs \<and> list_all is_digit (gss ! i)
         \<and> decimal_value (gss ! i) = be_nat (take gs (drop (i * gs) secret)) mod 10 ^ gs)"
proof -
  let ?g = "\<lambda>i. format_padded gs (unat (group_number secret (i * gs) gs mod pow10 gs))"
  have n: "unat (group_number secret (i * gs) gs mod pow10 gs) = be_nat (take gs (drop (i * gs) secret)) mod 10 ^ gs"
    if "i < groups" for i
  proof -
    have "(i + 1) * gs \<le> groups * gs" using that by (intro mult_le_mono1) simp
    then have "i * gs + gs \<le> length secret" using assms(4) by (simp add: algebra_simps)
    then show ?thesis using assms(2) by (simp add: unat_mod_distrib unat_pow10 group_number_correct)
  qed
  have g: "decimal_value (?g i) = be_nat (take gs (drop (i * gs) secret)) mod 10 ^ gs" "list_all is_digit (?g i)" "length (?g i) = gs"
    if "i < groups" for i
    using format_padded_correct [of "be_nat (take gs (drop (i * gs) secret)) mod 10 ^ gs" gs] assms(1) n [OF that] by simp_all
  have "int (groups * gs) div int gs = int groups" "int (groups * gs) mod int gs = 0" using assms(1) by simp_all
  then have "DisplayableCode secret (int (groups * gs)) (int gs) = Inr (concat (map ?g [0..<groups]))"
    using assms by (simp add: DisplayableCode_def Let_def flip: of_nat_mult del: of_nat_mult)
  moreover have "map (length \<circ> ?g) [0..<groups] = replicate groups gs"
    using g(3) by (intro nth_equalityI) simp_all
  then have "length (concat (map ?g [0..<groups])) = groups * gs"
    by (simp add: length_concat sum_list_replicate)
  ultimately show ?thesis using g by (intro exI [of _ "map ?g [0..<groups]"]) simp
qed

theorem displayable_code_correct_witness:
  "DisplayableCode [0, 0, 7, 1, 0, 0] 6 3 = Inr ''007536''
     \<and> (\<exists>gss. DisplayableCode [0, 0, 7, 1, 0, 0] (int (2 * 3)) (int 3) = Inr (concat gss) \<and> length gss = 2)"
proof -
  have "DisplayableCode [0, 0, 7, 1, 0, 0] 6 3 = Inr ''007536''" by code_simp
  then show ?thesis using displayable_code_correct [of 3 2 "[0, 0, 7, 1, 0, 0]"] by auto
qed

text \<open>\<open>DisplayableCode\<close> fails exactly on a group size outside 1 to 7, on a code
  length that is not a positive multiple of it, and on an input shorter than the code, each with
  its own error and in this order.\<close>

theorem displayable_code_errors:
  "DisplayableCode secret codeLen gs = Inl e \<longleftrightarrow>
     e = ErrDisplayableGroupSizeTooLarge \<and> 8 \<le> gs
   \<or> e = ErrDisplayableGroupSizeInvalid \<and> gs \<le> 0
   \<or> e = ErrDisplayableCodeLenInvalid \<and> 0 < gs \<and> gs < 8 \<and> (codeLen \<le> 0 \<or> 0 < codeLen mod gs)
   \<or> e = ErrDisplayableCodeInputTooShort \<and> 0 < gs \<and> gs < 8 \<and> 0 < codeLen \<and> gs dvd codeLen
       \<and> int (length secret) < codeLen"
proof -
  have "codeLen mod gs = 0 \<Longrightarrow> codeLen div gs * gs = codeLen" by (metis add.right_neutral div_mult_mod_eq)
  moreover have "gs dvd codeLen \<longleftrightarrow> codeLen mod gs = 0" by (simp add: dvd_eq_mod_eq_0)
  moreover have "0 < gs \<Longrightarrow> 0 < codeLen mod gs \<longleftrightarrow> codeLen mod gs \<noteq> 0"
    using pos_mod_sign [of gs codeLen] by linarith
  ultimately show ?thesis unfolding DisplayableCode_def Let_def by (cases "codeLen mod gs = 0") auto
qed

text \<open>\<open>DeriveSenderBaseSecret\<close> asks the exporter once, with the sender's own context, and
  what it returns is a 16-byte secret from which a key ratchet can be built; contexts of different
  senders are different, so two senders never share the exporter's answer.\<close>

theorem sender_secret:
  assumes "DeriveSenderBaseSecret exporter senderID = Inr secret"
  shows "(\<exists>export. exporter = Some export \<and> export ExporterLabel (SenderIDContextLE senderID) 16 = Inr secret)
    \<and> (\<exists>r. NewKeyRatchet secret [] = Inr r \<and> ratchet_inv kdf secret r)
    \<and> (SenderIDContextLE senderID = SenderIDContextLE other \<longrightarrow> other = senderID)"
proof -
  have "length secret = 16" "\<exists>export. exporter = Some export \<and> export ExporterLabel (SenderIDContextLE senderID) 16 = Inr secret"
    using assms by (auto simp: DeriveSenderBaseSecret_def BaseSecretLen_def split: option.splits sum.splits if_splits)
  moreover have "SenderIDContextLE senderID = SenderIDContextLE other \<Longrightarrow> other = senderID"
    using BigEndian_PutUint64_inj by (simp add: SenderIDContextLE_def LittleEndian_PutUint64_rev)
  moreover obtain r where "NewKeyRatchet secret [] = Inr r"
    using calculation(1) by (simp add: NewKeyRatchet_def BaseSecretLen_def)
  ultimately show ?thesis using NewKeyRatchet_inv [of secret] by blast
qed

theorem sender_secret_witness:
  "\<exists>r. NewKeyRatchet (SenderIDContextLE 258 @ replicate 8 0) [] = Inr r
     \<and> ratchet_inv demo_kdf (SenderIDContextLE 258 @ replicate 8 0) r"
proof -
  have "DeriveSenderBaseSecret (Some (\<lambda>l ctx n. Inr (ctx @ replicate 8 0))) 258 = Inr (SenderIDContextLE 258 @ replicate 8 0)"
    by (simp add: DeriveSenderBaseSecret_def SenderIDContextLE_def BaseSecretLen_def)
  from sender_secret [OF this] show ?thesis by blast
qed

end
