(* ===== verification/Replay.thy ===== *)
theory Replay
  imports Dave_Prelude
begin

text \<open>
  \<open>session/replay.go\<close>: the sliding anti-replay window, a ring of 1024 bits in sixteen 64-bit
  words. A window refines the set of nonces it refuses (\<open>refused\<close>); the interface the session's
  decryption relies on is the locale \<open>replay_guard\<close>, interpreted here on \<open>checkAndMark\<close>.
\<close>

section \<open>Definitions\<close>

definition replayWindowSize :: u64 where "replayWindowSize = 1024"

definition bitsPerWord :: u64 where "bitsPerWord = 64"

record antiReplayWindow =
  highest :: u64
  bitmap :: "u64 list"
  seen :: bool

definition zero_bitmap :: "u64 list" where
  "zero_bitmap = replicate 16 0"

text \<open>Go's zero value of the struct, with which every session's map entry starts.\<close>

definition newReplayWindow :: antiReplayWindow where
  "newReplayWindow = \<lparr>highest = 0, bitmap = zero_bitmap, seen = False\<rparr>"

definition slot :: "u64 \<Rightarrow> nat \<times> u64" where
  "slot nonce = (let i = nonce mod replayWindowSize in (unat (i div bitsPerWord), push_bit (unat (i mod bitsPerWord)) 1))"

definition mark :: "antiReplayWindow \<Rightarrow> u64 \<Rightarrow> antiReplayWindow" where
  "mark w nonce = (let (word, b) = slot nonce in w\<lparr>bitmap := (bitmap w)[word := (bitmap w ! word) OR b]\<rparr>)"

definition marked :: "antiReplayWindow \<Rightarrow> u64 \<Rightarrow> bool" where
  "marked w nonce \<longleftrightarrow> (let (word, b) = slot nonce in (bitmap w ! word) AND b \<noteq> 0)"

text \<open>The loop of \<open>advance\<close>: \<open>for n := from; n < nonce; n++\<close>.\<close>

function clear_loop :: "u64 \<Rightarrow> u64 \<Rightarrow> u64 list \<Rightarrow> u64 list" where
  "clear_loop n nonce bm =
     (if n < nonce
      then let (word, b) = slot n in clear_loop (n + 1) nonce (bm[word := (bm ! word) AND NOT b])
      else bm)"
  by pat_completeness auto
termination
proof (relation "measure (\<lambda>(n, nonce, bm). unat nonce - unat n)")
  fix n nonce :: u64 and bm x word b
  assume "n < nonce" "x = slot n" "(word, b) = x"
  moreover from this have "unat (n + 1) = unat n + 1"
    by (simp add: unat_Suc_less)
  ultimately show "((n + 1, nonce, bm[word := bm ! word AND NOT b]), (n, nonce, bm))
      \<in> measure (\<lambda>(n, nonce, bm). unat nonce - unat n)"
    by (simp add: word_less_nat_alt)
qed simp

declare clear_loop.simps [simp del]

definition advance :: "antiReplayWindow \<Rightarrow> u64 \<Rightarrow> antiReplayWindow" where
  "advance w nonce =
     (let w' = (if replayWindowSize \<le> nonce - highest w then w\<lparr>bitmap := zero_bitmap\<rparr>
                else w\<lparr>bitmap := clear_loop (highest w + 1) nonce (bitmap w)\<rparr>)
      in w'\<lparr>highest := nonce\<rparr>)"

definition checkAndMark :: "antiReplayWindow \<Rightarrow> u64 \<Rightarrow> bool \<times> antiReplayWindow" where
  "checkAndMark w nonce =
     (if \<not> seen w then (True, mark (w\<lparr>highest := nonce, seen := True\<rparr>) nonce)
      else if highest w < nonce then (True, mark (advance w nonce) nonce)
      else if replayWindowSize \<le> highest w - nonce \<or> marked w nonce then (False, w)
      else (True, mark w nonce))"

definition window_reset :: "antiReplayWindow \<Rightarrow> antiReplayWindow" where
  "window_reset w = w\<lparr>highest := 0, bitmap := zero_bitmap, seen := False\<rparr>"

text \<open>The nonces a check accepts out of a stream, in order.\<close>

fun accepted :: "('s \<Rightarrow> 'n \<Rightarrow> bool \<times> 's) \<Rightarrow> 's \<Rightarrow> 'n list \<Rightarrow> 'n list" where
  "accepted check s [] = []"
| "accepted check s (n # ns) = (let (ok, s') = check s n in
     if ok then n # accepted check s' ns else accepted check s' ns)"



section \<open>The interface\<close>

text \<open>
  What a client promises itself from a replay check: the nonces a state refuses are exactly those
  the check rejects, an accepted nonce is refused from then on, and nothing refused is ever
  accepted again.
\<close>

locale replay_guard =
  fixes check :: "'s \<Rightarrow> 'n \<Rightarrow> bool \<times> 's"
    and inv :: "'s \<Rightarrow> bool"
    and refuse :: "'s \<Rightarrow> 'n set"
  assumes check_iff: "inv s \<Longrightarrow> fst (check s n) \<longleftrightarrow> n \<notin> refuse s"
    and check_inv: "inv s \<Longrightarrow> inv (snd (check s n))"
    and check_refuse: "inv s \<Longrightarrow> insert n (refuse s) \<subseteq> refuse (snd (check s n))"
begin

lemma accepted_fresh: "inv s \<Longrightarrow> set (accepted check s ns) \<inter> refuse s = {}"
proof (induction ns arbitrary: s)
  case (Cons n ns)
  have "set (accepted check (snd (check s n)) ns) \<inter> refuse s = {}"
    using Cons.IH [OF check_inv [OF Cons.prems]] check_refuse [OF Cons.prems] by blast
  then show ?case using check_iff [OF Cons.prems] by (cases "check s n") (auto split: if_splits, metis fst_conv)
qed simp

lemma accepted_distinct: "inv s \<Longrightarrow> distinct (accepted check s ns)"
proof (induction ns arbitrary: s)
  case (Cons n ns)
  then show ?case
    using accepted_fresh [OF check_inv [OF Cons.prems], of n ns] check_refuse [OF Cons.prems, of n]
      check_inv [OF Cons.prems] by (cases "check s n") (auto, (metis snd_conv)+)
qed simp

end

section \<open>The ring of bits\<close>

definition ring_bit :: "u64 list \<Rightarrow> nat \<Rightarrow> bool" where
  "ring_bit bm i \<longleftrightarrow> bit (bm ! (i div 64)) (i mod 64)"

lemma slot_eq: "slot n = (unat n mod 1024 div 64, 2 ^ (unat n mod 1024 mod 64))"
  by (simp add: slot_def Let_def replayWindowSize_def bitsPerWord_def unat_div_distrib unat_mod_distrib)

lemma word_index: "n mod 1024 div 64 < 16" for n :: nat
  by (simp add: less_mult_imp_div_less)

lemma ring_bit_set:
  assumes "length bm = 16" "i < 1024"
  shows "ring_bit (bm[j mod 1024 div 64 := (bm ! (j mod 1024 div 64)) OR 2 ^ (j mod 1024 mod 64)]) i
    \<longleftrightarrow> i = j mod 1024 \<or> ring_bit bm i"
proof (cases "i div 64 = j mod 1024 div 64")
  case True
  then have "i = j mod 1024 \<longleftrightarrow> i mod 64 = j mod 1024 mod 64" by (metis mult_div_mod_eq)
  then show ?thesis using True assms word_index [of j]
    by (auto simp: ring_bit_def bit_simps)
next
  case False
  then show ?thesis by (auto simp: ring_bit_def)
qed

lemma ring_bit_clear:
  assumes "length bm = 16" "i < 1024"
  shows "ring_bit (bm[j mod 1024 div 64 := (bm ! (j mod 1024 div 64)) AND NOT (2 ^ (j mod 1024 mod 64))]) i
    \<longleftrightarrow> i \<noteq> j mod 1024 \<and> ring_bit bm i"
proof (cases "i div 64 = j mod 1024 div 64")
  case True
  then have "i = j mod 1024 \<longleftrightarrow> i mod 64 = j mod 1024 mod 64" by (metis mult_div_mod_eq)
  then show ?thesis using True assms word_index [of j]
    by (auto simp: ring_bit_def bit_simps dest: bit_imp_le_length)
next
  case False
  then show ?thesis by (auto simp: ring_bit_def)
qed

lemma marked_ring: "marked w n \<longleftrightarrow> ring_bit (bitmap w) (unat n mod 1024)"
  using and_exp_eq_0_iff_not_bit [of "bitmap w ! (unat n mod 1024 div 64)" "unat n mod 1024 mod 64"]
  by (simp add: marked_def slot_eq ring_bit_def)

lemma mark_length [simp]: "length (bitmap (mark w n)) = length (bitmap w)"
  by (simp add: mark_def slot_eq)

lemma mark_fields [simp]: "highest (mark w n) = highest w" "seen (mark w n) = seen w"
  by (simp_all add: mark_def slot_eq)

lemma mark_ring:
  "length (bitmap w) = 16 \<Longrightarrow> i < 1024 \<Longrightarrow>
     ring_bit (bitmap (mark w n)) i \<longleftrightarrow> i = unat n mod 1024 \<or> ring_bit (bitmap w) i"
  by (simp add: mark_def slot_eq ring_bit_set)

lemma clear_loop_length [simp]: "length (clear_loop n m bm) = length bm"
  by (induction n m bm rule: clear_loop.induct) (subst clear_loop.simps, simp add: slot_eq)

lemma clear_loop_ring:
  "length bm = 16 \<Longrightarrow> i < 1024 \<Longrightarrow>
     ring_bit (clear_loop n m bm) i \<longleftrightarrow> ring_bit bm i \<and> (\<forall>k. unat n \<le> k \<and> k < unat m \<longrightarrow> k mod 1024 \<noteq> i)"
proof (induction n m bm rule: clear_loop.induct)
  case (1 n m bm)
  show ?case
  proof (cases "n < m")
    case True
    then have n: "unat n < unat m" "unat (n + 1) = unat n + 1"
      by (simp add: word_less_nat_alt, rule unat_Suc_less)
    have "(\<forall>k. unat n \<le> k \<and> k < unat m \<longrightarrow> k mod 1024 \<noteq> i)
        \<longleftrightarrow> unat n mod 1024 \<noteq> i \<and> (\<forall>k. unat n + 1 \<le> k \<and> k < unat m \<longrightarrow> k mod 1024 \<noteq> i)"
    proof -
      have "unat n \<le> k \<longleftrightarrow> k = unat n \<or> unat n + 1 \<le> k" for k by linarith
      then show ?thesis using n(1) by auto
    qed
    then show ?thesis
      using 1 True n by (subst clear_loop.simps) (auto simp: slot_eq ring_bit_clear)
  next
    case False
    then show ?thesis by (subst clear_loop.simps) (simp add: word_less_nat_alt)
  qed
qed

lemma zero_bitmap_length [simp]: "length zero_bitmap = 16"
  by (simp add: zero_bitmap_def)

lemma zero_ring [simp]: "i < 1024 \<Longrightarrow> \<not> ring_bit zero_bitmap i"
  using word_index [of i] by (simp add: ring_bit_def zero_bitmap_def)

lemma mod_near: "a < b \<Longrightarrow> b - a < 1024 \<Longrightarrow> a mod 1024 \<noteq> b mod 1024" for a b :: nat
  using mod_eq_dvd_iff_nat [of a b 1024] dvd_imp_le [of 1024 "b - a"] by fastforce

section \<open>Refinement to the refused nonces\<close>

definition window_inv :: "antiReplayWindow \<Rightarrow> bool" where
  "window_inv w \<longleftrightarrow> length (bitmap w) = 16 \<and> (if seen w then marked w (highest w) else bitmap w = zero_bitmap)"

definition refused :: "antiReplayWindow \<Rightarrow> u64 set" where
  "refused w = {n. seen w \<and> n \<le> highest w \<and> (1024 \<le> unat (highest w) - unat n \<or> marked w n)}"

lemma window_age: "n \<le> h \<Longrightarrow> replayWindowSize \<le> h - n \<longleftrightarrow> 1024 \<le> unat h - unat n"
  by (simp add: replayWindowSize_def word_le_nat_alt unat_sub)

lemma advance_fields [simp]: "highest (advance w n) = n" "seen (advance w n) = seen w"
  "length (bitmap w) = 16 \<Longrightarrow> length (bitmap (advance w n)) = 16"
  by (simp_all add: advance_def Let_def zero_bitmap_def)

lemma advance_marked:
  assumes "length (bitmap w) = 16" "highest w < n" "m \<le> n" "unat n - unat m < 1024" "m \<noteq> n"
  shows "marked (mark (advance w n) n) m \<longleftrightarrow> m \<le> highest w \<and> marked w m"
proof -
  let ?h = "unat (highest w)" and ?n = "unat n" and ?m = "unat m"
  have lt: "?h < ?n" "?m < ?n"
    using assms(2,3,5) by (auto simp: word_less_nat_alt word_le_nat_alt le_less word_unat_eq_iff)
  have h1: "unat (highest w + 1) = ?h + 1" by (rule unat_Suc_less [OF assms(2)])
  have "?m mod 1024 \<noteq> ?n mod 1024" by (rule mod_near [OF lt(2) assms(4)])
  then have "marked (mark (advance w n) n) m \<longleftrightarrow> ring_bit (bitmap (advance w n)) (?m mod 1024)"
    using assms(1) by (simp add: marked_ring mark_ring)
  also have "\<dots> \<longleftrightarrow> m \<le> highest w \<and> marked w m"
  proof (cases "1024 \<le> ?n - ?h")
    case True
    then have "bitmap (advance w n) = zero_bitmap" "\<not> m \<le> highest w"
      using assms(2,4) by (simp_all add: advance_def Let_def window_age order_less_imp_le) (simp add: word_le_nat_alt)
    then show ?thesis by simp
  next
    case False
    have "(\<forall>k. ?h + 1 \<le> k \<and> k < ?n \<longrightarrow> k mod 1024 \<noteq> ?m mod 1024) \<longleftrightarrow> ?m \<le> ?h"
    proof
      assume "\<forall>k. ?h + 1 \<le> k \<and> k < ?n \<longrightarrow> k mod 1024 \<noteq> ?m mod 1024"
      then show "?m \<le> ?h" using lt(2) by (metis Suc_eq_plus1 not_less_eq_eq)
    next
      assume le: "?m \<le> ?h"
      show "\<forall>k. ?h + 1 \<le> k \<and> k < ?n \<longrightarrow> k mod 1024 \<noteq> ?m mod 1024"
      proof (intro allI impI)
        fix k assume "?h + 1 \<le> k \<and> k < ?n"
        then have "?m < k" "k - ?m < 1024" using le assms(4) by linarith+
        then show "k mod 1024 \<noteq> ?m mod 1024" by (rule mod_near [symmetric])
      qed
    qed
    moreover have "bitmap (advance w n) = clear_loop (highest w + 1) n (bitmap w)"
      using False assms(2) by (simp add: advance_def Let_def window_age order_less_imp_le)
    ultimately show ?thesis using assms(1)
      by (simp add: clear_loop_ring h1 marked_ring word_le_nat_alt conj_commute)
  qed
  finally show ?thesis .
qed

lemma marked_mark: "length (bitmap w) = 16 \<Longrightarrow> marked (mark w n) m \<longleftrightarrow> unat m mod 1024 = unat n mod 1024 \<or> marked w m"
  by (simp add: marked_ring mark_ring)

lemma first_refused:
  assumes "window_inv w" "\<not> seen w"
  shows "refused (mark (w\<lparr>highest := n, seen := True\<rparr>) n) = {m. m \<le> n \<and> (m = n \<or> 1024 \<le> unat n - unat m)}"
proof -
  have "marked (mark (w\<lparr>highest := n, seen := True\<rparr>) n) m \<longleftrightarrow> unat m mod 1024 = unat n mod 1024" for m
    using assms by (auto simp: window_inv_def marked_ring mark_ring)
  moreover have "m = n \<or> 1024 \<le> unat n - unat m" if "m \<le> n" "unat m mod 1024 = unat n mod 1024" for m
    using that mod_near [of "unat m" "unat n"] by (fastforce simp: word_le_nat_alt word_unat_eq_iff)
  ultimately show ?thesis by (auto simp: refused_def)
qed

lemma advance_refused:
  assumes "window_inv w" "seen w" "highest w < n"
  shows "refused (mark (advance w n) n) = {m. m \<le> n \<and> (m = n \<or> 1024 \<le> unat n - unat m \<or> m \<in> refused w)}"
proof -
  have len: "length (bitmap w) = 16" using assms(1) by (simp add: window_inv_def)
  have "m \<in> refused (mark (advance w n) n) \<longleftrightarrow> m \<le> n \<and> (m = n \<or> 1024 \<le> unat n - unat m \<or> m \<in> refused w)" for m
  proof (cases "m \<le> n \<and> m \<noteq> n \<and> unat n - unat m < 1024")
    case True
    moreover from this assms(3) have "m \<le> highest w \<Longrightarrow> unat (highest w) - unat m < 1024"
      unfolding word_le_nat_alt word_less_nat_alt by linarith
    ultimately show ?thesis
      using advance_marked [OF len assms(3)] assms(2) by (auto simp: refused_def)
  next
    case False
    then show ?thesis using assms(2) len by (auto simp: refused_def marked_mark)
  qed
  then show ?thesis by blast
qed

lemma inside_refused:
  assumes "window_inv w" "seen w" "n \<le> highest w" "unat (highest w) - unat n < 1024"
  shows "refused (mark w n) = insert n (refused w)"
proof -
  have "m = n \<or> 1024 \<le> unat (highest w) - unat m"
    if "m \<le> highest w" "unat m mod 1024 = unat n mod 1024" for m
  proof -
    have "unat m < unat n \<Longrightarrow> unat n - unat m \<ge> 1024" "unat n < unat m \<Longrightarrow> unat m - unat n \<ge> 1024"
      using that(2) mod_near [of "unat m" "unat n"] mod_near [of "unat n" "unat m"] by force+
    then show ?thesis using that(1) assms(3,4) unfolding word_le_nat_alt word_unat_eq_iff by linarith
  qed
  then show ?thesis using assms by (auto simp: refused_def window_inv_def marked_mark)
qed

lemma checkAndMark_iff: "window_inv w \<Longrightarrow> fst (checkAndMark w n) \<longleftrightarrow> n \<notin> refused w"
  by (auto simp: checkAndMark_def refused_def window_age not_less)

lemma checkAndMark_inv: "window_inv w \<Longrightarrow> window_inv (snd (checkAndMark w n))"
  by (auto simp: checkAndMark_def window_inv_def marked_mark)

lemma checkAndMark_refuse:
  assumes "window_inv w"
  shows "insert n (refused w) \<subseteq> refused (snd (checkAndMark w n))"
proof -
  consider "\<not> seen w" | "seen w" "highest w < n" | "seen w" "n \<le> highest w" by fastforce
  then show ?thesis
  proof cases
    case 1
    then show ?thesis using first_refused [OF assms] by (simp add: checkAndMark_def) (simp add: refused_def)
  next
    case 2
    moreover from 2(2) have "refused w \<subseteq> {m. m \<le> n}"
      by (auto simp: refused_def dest: order_trans less_imp_le)
    ultimately show ?thesis using advance_refused [OF assms, of n] by (auto simp: checkAndMark_def)
  next
    case 3
    show ?thesis
    proof (cases "n \<in> refused w")
      case True
      then show ?thesis using 3 by (auto simp: checkAndMark_def window_age refused_def)
    next
      case False
      then have "\<not> 1024 \<le> unat (highest w) - unat n" "\<not> marked w n" using 3 by (auto simp: refused_def)
      then show ?thesis using inside_refused [OF assms 3] 3 by (auto simp: checkAndMark_def window_age)
    qed
  qed
qed

lemma newReplayWindow_inv [simp]: "window_inv newReplayWindow"
  by (simp add: window_inv_def newReplayWindow_def zero_bitmap_def)

lemma newReplayWindow_refused [simp]: "refused newReplayWindow = {}"
  by (simp add: refused_def newReplayWindow_def)

interpretation window: replay_guard checkAndMark window_inv refused
  by unfold_locales (fact checkAndMark_iff checkAndMark_inv checkAndMark_refuse)+





section \<open>Properties\<close>


text \<open>No nonce of a stream is accepted twice by a window, whatever state a
  well-formed window is in when the stream starts.\<close>

theorem replay_never_twice: "window_inv w \<Longrightarrow> distinct (accepted checkAndMark w ns)"
  by (rule window.accepted_distinct)

theorem replay_never_twice_witness:
  "window_inv newReplayWindow \<and> distinct (accepted checkAndMark newReplayWindow [5, 6, 5, 2000, 6, 1999])"
  by (intro conjI newReplayWindow_inv replay_never_twice)

end
