(* ===== verification/Session_State.thy ===== *)
theory Session_State
  imports Codecs Nonce Ratchet Replay
begin

text \<open>
  The state of a session (\<open>session/session.go\<close>, \<open>session/state.go\<close>, \<open>session/errors.go\<close>): the \<open>Session\<close>
  struct, its epochs and senders, the statistics, the construction with its options, the accessors,
  and the small \<open>...Locked\<close> helpers that the media paths and the handlers share.

  A key ratchet is reached through pointers: a session's \<open>sendRatchet\<close> is the ratchet of its own
  entry in the active epoch, and \<open>retainedSendRatchet\<close> the one of an epoch that may still be
  retained. The model therefore keeps the ratchets in a store (\<open>ratchets\<close>) and passes references
  around; epochs and senders are never shared and are values. The MLS client belongs to mls-go; its
  type is the parameter \<open>'c\<close> of the record. A point in time is an \<open>int\<close> (nanoseconds) and Go's zero
  \<open>Time\<close> is \<open>None\<close>. The channel \<open>epochReady\<close> is a number; \<open>closedChans\<close> holds the numbers of the closed
  channels. Three fields record what the code does and does not keep: \<open>sent\<close> the messages handed to the
  gateway callbacks, \<open>watchdogs\<close> the goroutines that have been started and have not ended, \<open>sealed\<close> the
  ratchet and the counter of every frame that \<open>Encrypt\<close> took a nonce for. \<open>panicked\<close> is set where the
  code would panic. Logging has no fields here.
\<close>

section \<open>Definitions\<close>

type_synonym UserID = string

type_synonym rref = nat

datatype session_error =
    ErrDecryptionFailed
  | ErrNilExporterStore
  | ErrExporterSecretUnavailable
  | ErrInvalidCredentialIdentity
  | ErrNoActiveGroup
  | ErrInvalidVectorLength
  | ErrProposalsTooShort
  | ErrProposalsTruncated
  | ErrProposalTooShort
  | ErrEmptyProposal
  | ErrInvalidExternalSender
  | ErrNoExternalSender
  | ErrNoChannelID
  | ErrNoPreCommitState
  | ErrExpectedWelcome
  | ErrProposalsTooMany
  | ErrNoActiveEpoch
  | ErrInlineProposalInCommit
  | ErrDuplicateGroupIdentity
  | ErrMissingKeyRatchet
  | ErrNoCodecForSSRC
  | errSendFailed go_error
  | errSuperseded
  | errUnsupportedCipherSuite
  | errWelcomePanic
  | ParseUserID \<comment> \<open>an error of \<open>strconv.ParseUint\<close>\<close>
  | MlsError string go_error \<comment> \<open>an error of mls-go and the message it is wrapped in\<close>
  | MediaKeysError mediakeys_error
  | CodecError codec_error
  | SessionFrameError frame_error
  | ContextCanceled \<comment> \<open>\<open>shutdownCtx.Err()\<close> after \<open>Close\<close>\<close>
  | NilDereference \<comment> \<open>a run-time panic\<close>

record Stats =
  CommitsProcessed :: u64
  CommitsFailed :: u64
  WelcomesJoined :: u64
  WelcomesFailed :: u64
  WelcomePanics :: u64
  RecoveryAttempts :: u64
  RecoveryAttemptsTransport :: u64
  EncryptFailures :: u64
  DecryptFailures :: u64
  PassthroughFrames :: u64
  TransitionFrames :: u64
  TransitionWindows :: u64
  DegradedDuration :: int
  TransportRetryDuration :: int
  RejectedReplayFrames :: u64
  ProposalsRejected :: u64
  DowngradeToV0 :: u64

record senderState =
  ss_ratchet :: rref
  ss_expander :: NonceExpander
  ss_replay :: antiReplayWindow

record epochState =
  es_id :: u64
  es_groupID :: bytes
  es_senders :: "(UserID \<times> senderState) list"
  es_expiresAt :: "int option"

text \<open>Messages to the voice gateway, one constructor per callback of \<open>godave.Callbacks\<close>.\<close>

datatype gateway_msg =
    SendMLSKeyPackage bytes
  | SendMLSCommitWelcome bytes
  | SendReadyForTransition u16
  | SendInvalidCommitWelcome u16

text \<open>A watchdog is a goroutine; its constructor says where it is. \<open>Waiting ready transitionID needsPending\<close>
  waits for the timeout or for \<open>ready\<close> to close; the flag marks the commit watchdog, which acts only
  while an epoch is pending. \<open>Sending next kp i delay retryStart\<close> is about to make attempt \<open>i\<close> to send a key
  package, \<open>Backoff\<close> waits between two attempts, and \<open>Finishing next err\<close> has left \<open>retrySend\<close>.\<close>

datatype watchdog =
    Waiting nat u16 bool
  | Sending nat bytes nat int "int option"
  | Backoff nat bytes nat int "int option"
  | Finishing nat "session_error option"

record retryConfig =
  rc_delay :: int
  rc_maxDelay :: int
  rc_maxAttempts :: nat

record 'c Session =
  retry :: retryConfig
  userID :: UserID
  hasCallbacks :: bool
  channelID :: u64
  protocolVersion :: u16
  sendProtocolVersion :: u16
  transportOnly :: bool
  plaintextRejectedFrom :: "int option"
  plaintextGrace :: int
  ssrcCodecs :: "u32 \<rightharpoonup> Kind"
  users :: "UserID set"
  activeTransitionID :: u16
  pendingTransitionID :: u16
  activeEpoch :: "epochState option"
  pendingEpoch :: "epochState option"
  retainedEpoch :: "epochState list"
  sendCounter :: NonceCounter
  sendRatchet :: "rref option"
  retainedSendRatchet :: "rref option"
  retainedSendExpiresAt :: "int option"
  sendRetentionTTL :: int
  strictEncrypt :: bool
  sendCipher :: "AEAD option"
  sendCipherKey :: bytes
  mlsClient :: "'c option"
  groupID :: bytes
  pendingGroupID :: bytes
  externalSenderPackage :: bytes
  pendingKeyPackage :: bytes
  lastProposalBatch :: bytes
  proposalQueue :: "bytes list"
  pendingCommitBytes :: bytes
  preCommitGroupState :: bytes
  epochReady :: nat
  recoveryAttempts :: nat
  recoveryTimeout :: int
  stats :: Stats
  degradedSince :: "int option"
  shutdown :: bool
  ratchets :: "rref \<rightharpoonup> KeyRatchet"
  nextRef :: rref
  closedChans :: "nat set"
  sent :: "gateway_msg list"
  watchdogs :: "watchdog list"
  sealed :: "(rref \<times> u64) list"
  panicked :: bool

subsection \<open>Construction\<close>

definition epochRetention :: int where "epochRetention = 10 * 1000000000"
definition epochRecoveryTimeout :: int where "epochRecoveryTimeout = 15 * 1000000000"
definition retryDelay :: int where "retryDelay = 500 * 1000000"
definition retryMaxDelay :: int where "retryMaxDelay = 5 * 1000000000"
definition retryMaxAttempts :: nat where "retryMaxAttempts = 6"

definition defaultRetryConfig :: retryConfig where
  "defaultRetryConfig = \<lparr>rc_delay = retryDelay, rc_maxDelay = retryMaxDelay, rc_maxAttempts = retryMaxAttempts\<rparr>"

definition maxRecoveryAttempts :: nat where "maxRecoveryAttempts = 3"

record config =
  cfg_recoveryTimeout :: int
  cfg_sendRetentionTTL :: int
  cfg_strictEncrypt :: bool

definition WithRecoveryTimeout :: "int \<Rightarrow> config \<Rightarrow> config" where
  "WithRecoveryTimeout d c = (if 0 < d then c\<lparr>cfg_recoveryTimeout := d\<rparr> else c)"

definition WithStrictEncrypt :: "config \<Rightarrow> config" where
  "WithStrictEncrypt c = c\<lparr>cfg_strictEncrypt := True\<rparr>"

definition zeroStats :: Stats where
  "zeroStats = \<lparr>CommitsProcessed = 0, CommitsFailed = 0, WelcomesJoined = 0, WelcomesFailed = 0, WelcomePanics = 0,
     RecoveryAttempts = 0, RecoveryAttemptsTransport = 0, EncryptFailures = 0, DecryptFailures = 0,
     PassthroughFrames = 0, TransitionFrames = 0, TransitionWindows = 0, DegradedDuration = 0,
     TransportRetryDuration = 0, RejectedReplayFrames = 0, ProposalsRejected = 0, DowngradeToV0 = 0\<rparr>"

text \<open>An option can be nil, which \<open>New\<close> skips.\<close>

definition New :: "UserID \<Rightarrow> bool \<Rightarrow> (config \<Rightarrow> config) option list \<Rightarrow> 'c Session" where
  "New uid callbacks opts =
     (let cfg = fold (\<lambda>opt c. case opt of None \<Rightarrow> c | Some f \<Rightarrow> f c) opts
        \<lparr>cfg_recoveryTimeout = epochRecoveryTimeout, cfg_sendRetentionTTL = epochRetention, cfg_strictEncrypt = False\<rparr>
      in \<lparr>retry = defaultRetryConfig, userID = uid, hasCallbacks = callbacks, channelID = 0, protocolVersion = 0, sendProtocolVersion = 0,
         transportOnly = False, plaintextRejectedFrom = None, plaintextGrace = epochRetention,
         ssrcCodecs = Map.empty, users = {}, activeTransitionID = 0, pendingTransitionID = 0,
         activeEpoch = None, pendingEpoch = None, retainedEpoch = [],
         sendCounter = NewNonceCounter, sendRatchet = None,
         retainedSendRatchet = None, retainedSendExpiresAt = None, sendRetentionTTL = cfg_sendRetentionTTL cfg,
         strictEncrypt = cfg_strictEncrypt cfg, sendCipher = None, sendCipherKey = [], mlsClient = None,
         groupID = [], pendingGroupID = [], externalSenderPackage = [], pendingKeyPackage = [],
         lastProposalBatch = [], proposalQueue = [], pendingCommitBytes = [], preCommitGroupState = [],
         epochReady = 0, recoveryAttempts = 0, recoveryTimeout = cfg_recoveryTimeout cfg,
         stats = zeroStats, degradedSince = None, shutdown = False,
         ratchets = Map.empty, nextRef = 0, closedChans = {}, sent = [], watchdogs = [],
         sealed = [], panicked = False\<rparr>)"

subsection \<open>Accessors and small operations\<close>

definition MaxSupportedProtocolVersion :: "'c Session \<Rightarrow> int" where
  "MaxSupportedProtocolVersion s = 1"

definition MaxEncryptedFrameSize :: "'c Session \<Rightarrow> int \<Rightarrow> int" where
  "MaxEncryptedFrameSize s frameSize = goint (frameSize + 64)"

definition MaxDecryptedFrameSize :: "'c Session \<Rightarrow> UserID \<Rightarrow> int \<Rightarrow> int" where
  "MaxDecryptedFrameSize s uid frameSize = frameSize"

text \<open>\<open>godave.Codec\<close>: only its Opus constant matters, given by its value.\<close>

definition toCodecKind :: "int \<Rightarrow> int \<Rightarrow> Kind" where
  "toCodecKind godaveCodecOpus codec = (if codec = godaveCodecOpus then CodecOpus else CodecUnknown)"

definition AssignSsrcToCodec :: "int \<Rightarrow> 'c Session \<Rightarrow> u32 \<Rightarrow> int \<Rightarrow> 'c Session" where
  "AssignSsrcToCodec godaveCodecOpus s ssrc codec =
     s\<lparr>ssrcCodecs := (ssrcCodecs s)(ssrc \<mapsto> toCodecKind godaveCodecOpus codec)\<rparr>"

definition AddUser :: "'c Session \<Rightarrow> UserID \<Rightarrow> 'c Session" where
  "AddUser s uid = s\<lparr>users := insert uid (users s)\<rparr>"

definition RemoveUser :: "'c Session \<Rightarrow> UserID \<Rightarrow> 'c Session" where
  "RemoveUser s uid = s\<lparr>users := users s - {uid}\<rparr>"

record State =
  st_EpochID :: u64
  st_Ready :: bool
  st_DegradedSince :: "int option"
  st_ProtocolVersion :: u16

definition session_State :: "'c Session \<Rightarrow> State" where
  "session_State s =
     \<lparr>st_EpochID = (case activeEpoch s of Some e \<Rightarrow> es_id e | None \<Rightarrow> 0),
      st_Ready = (activeEpoch s \<noteq> None \<and> sendRatchet s \<noteq> None),
      st_DegradedSince = degradedSince s, st_ProtocolVersion = protocolVersion s\<rparr>"

definition session_Stats :: "'c Session \<Rightarrow> Stats" where
  "session_Stats s = stats s"

definition Ready :: "'c Session \<Rightarrow> bool" where
  "Ready s \<longleftrightarrow> (activeEpoch s \<noteq> None \<and> sendRatchet s \<noteq> None) \<or> transportOnly s"

definition ShouldHoldFrames :: "'c Session \<Rightarrow> bool" where
  "ShouldHoldFrames s \<longleftrightarrow>
     (let ready = (activeEpoch s \<noteq> None \<and> sendRatchet s \<noteq> None) in \<not> ready \<and> protocolVersion s \<noteq> 0)"

definition isClosed :: "'c Session \<Rightarrow> nat \<Rightarrow> bool" where
  "isClosed s ch \<longleftrightarrow> ch \<in> closedChans s"

definition resetEpochReadyLocked :: "'c Session \<Rightarrow> 'c Session" where
  "resetEpochReadyLocked s =
     s\<lparr>closedChans := insert (epochReady s) (closedChans s), epochReady := Suc (epochReady s)\<rparr>"

definition signalEpochReadyLocked :: "'c Session \<Rightarrow> 'c Session" where
  "signalEpochReadyLocked s = (if isClosed s (epochReady s) then s
     else s\<lparr>closedChans := insert (epochReady s) (closedChans s)\<rparr>)"

definition dropSendKeysLocked :: "'c Session \<Rightarrow> 'c Session" where
  "dropSendKeysLocked s = s\<lparr>sendRatchet := None, retainedSendRatchet := None, retainedSendExpiresAt := None,
     sendCipher := None, sendCipherKey := []\<rparr>"

definition setTransportOnlyLocked :: "bool \<Rightarrow> 'c Session \<Rightarrow> 'c Session" where
  "setTransportOnlyLocked b s =
     (let s1 = s\<lparr>transportOnly := b\<rparr> in if b then s1\<lparr>plaintextRejectedFrom := None\<rparr> else s1)"

definition rejectsPlaintextLocked :: "int \<Rightarrow> 'c Session \<Rightarrow> bool" where
  "rejectsPlaintextLocked now s \<longleftrightarrow> protocolVersion s \<noteq> 0 \<and>
     (case plaintextRejectedFrom s of None \<Rightarrow> False | Some t \<Rightarrow> \<not> now < t)"

definition isSilencePacket :: "bytes \<Rightarrow> bool" where
  "isSilencePacket frameData \<longleftrightarrow> length frameData = 3 \<and>
     frameData ! 0 = 0xF8 \<and> frameData ! 1 = 0xFF \<and> frameData ! 2 = 0xFE"

definition copyPassthrough :: "bytes \<Rightarrow> bytes \<Rightarrow> session_error + bytes" where
  "copyPassthrough dst frameData =
     (if length dst < length frameData then Inl (SessionFrameError ErrBufferTooSmall) else Inr frameData)"

definition selectSendRatchetLocked :: "int \<Rightarrow> 'c Session \<Rightarrow> rref option \<times> 'c Session" where
  "selectSendRatchetLocked now s =
     (case retainedSendRatchet s of
        Some r \<Rightarrow>
          if (case retainedSendExpiresAt s of Some t \<Rightarrow> now < t | None \<Rightarrow> False) then (Some r, s)
          else (sendRatchet s, s\<lparr>sendCounter := NonceCounter_Reset (sendCounter s), retainedSendRatchet := None,
                 retainedSendExpiresAt := None\<rparr>)
      | None \<Rightarrow> (sendRatchet s, s))"

definition markDegradedLocked :: "int \<Rightarrow> 'c Session \<Rightarrow> 'c Session" where
  "markDegradedLocked now s = (if degradedSince s \<noteq> None then s else s\<lparr>degradedSince := Some now\<rparr>)"

definition endDegradedLocked :: "int \<Rightarrow> 'c Session \<Rightarrow> 'c Session" where
  "endDegradedLocked now s =
     (case degradedSince s of
        None \<Rightarrow> s
      | Some t \<Rightarrow> s\<lparr>stats := (stats s)\<lparr>DegradedDuration := DegradedDuration (stats s) + (now - t)\<rparr>, degradedSince := None\<rparr>)"

definition markRecoveredLocked :: "int \<Rightarrow> 'c Session \<Rightarrow> 'c Session" where
  "markRecoveredLocked now s = (if degradedSince s = None then s else endDegradedLocked now s)"

definition pruneRetainedEpochsLocked :: "int \<Rightarrow> 'c Session \<Rightarrow> 'c Session" where
  "pruneRetainedEpochsLocked now s =
     s\<lparr>retainedEpoch := filter (\<lambda>e. case es_expiresAt e of Some t \<Rightarrow> now < t | None \<Rightarrow> False) (retainedEpoch s)\<rparr>"

definition newEpochAddsSender :: "epochState option \<Rightarrow> epochState option \<Rightarrow> bool" where
  "newEpochAddsSender oldEpoch newEpoch =
     (case (oldEpoch, newEpoch) of
        (Some old, Some new) \<Rightarrow> list_ex (\<lambda>(uid, _). map_of (es_senders old) uid = None) (es_senders new)
      | _ \<Rightarrow> True)"

definition Close :: "'c Session \<Rightarrow> 'c Session" where
  "Close s = s\<lparr>shutdown := True\<rparr>"

definition goWatchdog :: "watchdog \<Rightarrow> 'c Session \<Rightarrow> 'c Session" where
  "goWatchdog w s = (if shutdown s then s else s\<lparr>watchdogs := watchdogs s @ [w]\<rparr>)"

end
