(* ===== verification/Session_Media.thy ===== *)
theory Session_Media
  imports Session_State
begin

text \<open>
  The media paths of \<open>session/session.go\<close>: \<open>Encrypt\<close> and \<open>Decrypt\<close>. Both hold the session's lock for the
  whole call, so a call is one step on the session state. \<open>clk\<close> gives the readings of the clock
  during a call; in \<open>Decrypt\<close>, \<open>clk 0\<close> are the session's own and \<open>clk (Suc i)\<close> those of the ratchet of the
  \<open>i\<close>-th candidate epoch. As in package \<open>frame\<close>, a result is the bytes \<open>dst[:n]\<close>, and of the buffer only
  its length matters.
\<close>

section \<open>Definitions\<close>

definition count_encrypt_failure :: "'c Session \<Rightarrow> 'c Session" where
  "count_encrypt_failure s = s\<lparr>stats := (stats s)\<lparr>EncryptFailures := EncryptFailures (stats s) + 1\<rparr>\<rparr>"

definition count_decrypt_failure :: "'c Session \<Rightarrow> 'c Session" where
  "count_decrypt_failure s = s\<lparr>stats := (stats s)\<lparr>DecryptFailures := DecryptFailures (stats s) + 1\<rparr>\<rparr>"

definition encrypt_kind :: "'c Session \<Rightarrow> u32 \<Rightarrow> Kind" where
  "encrypt_kind s ssrc = (case ssrcCodecs s ssrc of None \<Rightarrow> CodecOpus
     | Some kind \<Rightarrow> if kind = CodecUnknown then CodecOpus else kind)"

text \<open>The cached cipher: it is made anew when the key has changed.\<close>

definition refresh_cipher :: "bytes \<Rightarrow> 'c Session \<Rightarrow> session_error + 'c Session" where
  "refresh_cipher k s =
     (if sendCipherKey s \<noteq> k then
        (case NewGCM8 k of
           Inl e \<Rightarrow> Inl (SessionFrameError e)
         | Inr newCipher \<Rightarrow> Inr (s\<lparr>sendCipher := Some newCipher, sendCipherKey := k\<rparr>))
      else Inr s)"

fun of_codec :: "codec_error + 'a \<Rightarrow> session_error + 'a" where
  "of_codec (Inl e) = Inl (CodecError e)"
| "of_codec (Inr x) = Inr x"

text \<open>The part of \<open>Encrypt\<close> after a ratchet has been found.\<close>

definition encrypt_frame ::
    "kdf \<Rightarrow> (nat \<Rightarrow> int) \<Rightarrow> rref \<Rightarrow> 'c Session \<Rightarrow> u32 \<Rightarrow> bytes \<Rightarrow> bytes \<Rightarrow> (session_error + bytes) \<times> 'c Session" where
  "encrypt_frame kdf clk ref s2 ssrc frameData encryptedFrame =
     (let kind = encrypt_kind s2 ssrc;
          ((fullNonce, truncatedNonce, generation), counter') = NonceCounter_Next (sendCounter s2);
          s3 = s2\<lparr>sendCounter := counter', sealed := sealed s2 @ [(ref, fullNonce)]\<rparr>
      in case ratchets s3 ref of
           None \<Rightarrow> (Inl NilDereference, s3)
         | Some r \<Rightarrow>
             (case GetKey kdf (\<lambda>i. clk (Suc i)) r generation of
                (Inl e, r1) \<Rightarrow>
                  (Inl (MediaKeysError e), count_encrypt_failure (s3\<lparr>ratchets := (ratchets s3)(ref \<mapsto> r1)\<rparr>))
              | (Inr k, r1) \<Rightarrow>
                  (let s4 = s3\<lparr>ratchets := (ratchets s3)(ref \<mapsto> Commit kdf r1 generation)\<rparr> in
                   case refresh_cipher k s4 of
                     Inl e \<Rightarrow> (Inl e, count_encrypt_failure s4)
                   | Inr s5 \<Rightarrow>
                       (case of_codec (if kind = CodecH264 \<or> kind = CodecH265
                           then codecs_EncryptInto kind encryptedFrame frameData k truncatedNonce
                           else codecs_EncryptWithCipherInto kind encryptedFrame frameData (sendCipher s5) truncatedNonce) of
                          Inl e \<Rightarrow> (Inl e, count_encrypt_failure s5)
                        | Inr out \<Rightarrow> (Inr out, s5)))))"

definition session_Encrypt ::
    "kdf \<Rightarrow> (nat \<Rightarrow> int) \<Rightarrow> 'c Session \<Rightarrow> u32 \<Rightarrow> bytes \<Rightarrow> bytes \<Rightarrow> (session_error + bytes) \<times> 'c Session" where
  "session_Encrypt kdf clk s ssrc frameData encryptedFrame =
     (let (ratchet, s1) = selectSendRatchetLocked (clk 0) s in
      case ratchet of
        None \<Rightarrow>
          if strictEncrypt s1 \<and> sendProtocolVersion s1 \<noteq> 0
          then (Inl ErrMissingKeyRatchet, count_encrypt_failure s1)
          else (copyPassthrough encryptedFrame frameData,
                s1\<lparr>stats := (stats s1)\<lparr>PassthroughFrames := PassthroughFrames (stats s1) + 1\<rparr>\<rparr>)
      | Some ref \<Rightarrow>
          encrypt_frame kdf clk ref
            (if retainedSendRatchet s1 \<noteq> None
             then s1\<lparr>stats := (stats s1)\<lparr>TransitionFrames := TransitionFrames (stats s1) + 1\<rparr>\<rparr> else s1)
            ssrc frameData encryptedFrame)"

text \<open>What the loop of \<open>Decrypt\<close> does with one candidate epoch: skip it, remember an error and go on, or
  return from the call. \<open>RejectReplay\<close> is the branch that counts a replayed frame.\<close>

datatype candidate_result =
    Skip
  | Continue session_error
  | RejectReplay
  | Return "session_error + bytes"

fun put_sender :: "UserID \<Rightarrow> senderState \<Rightarrow> (UserID \<times> senderState) list \<Rightarrow> (UserID \<times> senderState) list" where
  "put_sender uid x [] = []"
| "put_sender uid x ((u, y) # us) = (if u = uid then (u, x) # us else (u, y) # put_sender uid x us)"

definition decrypt_candidate ::
    "kdf \<Rightarrow> (nat \<Rightarrow> int) \<Rightarrow> UserID \<Rightarrow> bytes \<Rightarrow> u32 \<Rightarrow> bytes \<Rightarrow> epochState \<Rightarrow> (rref \<rightharpoonup> KeyRatchet)
      \<Rightarrow> candidate_result \<times> epochState \<times> (rref \<rightharpoonup> KeyRatchet)" where
  "decrypt_candidate kdf clk uid frameData truncated decryptedFrame epoch rs =
     (case map_of (es_senders epoch) uid of
        None \<Rightarrow> (Skip, epoch, rs)
      | Some sender \<Rightarrow>
          (let fullNonce = ExpandTentative (ss_expander sender) truncated;
               generation = ucast (drop_bit 24 fullNonce)
           in case rs (ss_ratchet sender) of
                None \<Rightarrow> (Return (Inl NilDereference), epoch, rs)
              | Some r \<Rightarrow>
                  (case GetKey kdf clk r generation of
                     (Inl e, r1) \<Rightarrow> (Continue (MediaKeysError e), epoch, rs(ss_ratchet sender \<mapsto> r1))
                   | (Inr k, r1) \<Rightarrow>
                       (case Decrypt \<lparr>dp_Ciphertext = frameData, dp_Key = k\<rparr> of
                          Inl e \<Rightarrow> (Continue (SessionFrameError e), epoch, rs(ss_ratchet sender \<mapsto> r1))
                        | Inr (plaintext, _) \<Rightarrow>
                            if length decryptedFrame < length plaintext
                            then (Return (Inl (SessionFrameError ErrBufferTooSmall)), epoch, rs(ss_ratchet sender \<mapsto> r1))
                            else
                              (let (fresh, window) = checkAndMark (ss_replay sender) fullNonce;
                                   sender' = sender\<lparr>ss_expander := Expander_Commit (ss_expander sender) fullNonce,
                                                    ss_replay := window\<rparr>;
                                   epoch' = epoch\<lparr>es_senders := put_sender uid sender' (es_senders epoch)\<rparr>;
                                   rs' = rs(ss_ratchet sender \<mapsto> Commit kdf r1 generation)
                               in (if fresh then Return (Inr plaintext) else RejectReplay, epoch', rs'))))))"

text \<open>The loop over the candidates. It returns the answer if one was given, the last error, the number of
  replays it rejected, the candidates as it leaves them and the ratchets.\<close>

fun decrypt_loop ::
    "kdf \<Rightarrow> (nat \<Rightarrow> nat \<Rightarrow> int) \<Rightarrow> nat \<Rightarrow> UserID \<Rightarrow> bytes \<Rightarrow> u32 \<Rightarrow> bytes \<Rightarrow> epochState list \<Rightarrow> (rref \<rightharpoonup> KeyRatchet)
      \<Rightarrow> session_error option \<Rightarrow> u64
      \<Rightarrow> (session_error + bytes) option \<times> session_error option \<times> u64 \<times> epochState list \<times> (rref \<rightharpoonup> KeyRatchet)" where
  "decrypt_loop kdf clk i uid frameData truncated dst [] rs lastErr replays = (None, lastErr, replays, [], rs)"
| "decrypt_loop kdf clk i uid frameData truncated dst (e # es) rs lastErr replays =
     (case decrypt_candidate kdf (clk (Suc i)) uid frameData truncated dst e rs of
        (Return x, e', rs') \<Rightarrow> (Some x, lastErr, replays, e' # es, rs')
      | (r, e', rs') \<Rightarrow>
          (let (lastErr', replays') =
                 (case r of Continue err \<Rightarrow> (Some err, replays)
                  | RejectReplay \<Rightarrow> (Some ErrDecryptionFailed, replays + 1)
                  | _ \<Rightarrow> (lastErr, replays));
               (res, err, n, es', rs'') = decrypt_loop kdf clk (Suc i) uid frameData truncated dst es rs' lastErr' replays'
           in (res, err, n, e' # es', rs'')))"

text \<open>The candidates in the order of the code, and the session with its epochs replaced by them.\<close>

definition candidates :: "'c Session \<Rightarrow> epochState list" where
  "candidates s = (case activeEpoch s of Some e \<Rightarrow> [e] | None \<Rightarrow> [])
     @ (case pendingEpoch s of Some e \<Rightarrow> [e] | None \<Rightarrow> []) @ retainedEpoch s"

definition put_candidates :: "epochState list \<Rightarrow> 'c Session \<Rightarrow> 'c Session" where
  "put_candidates es s =
     (let (a, es1) = (if activeEpoch s \<noteq> None then (Some (hd es), tl es) else (None, es));
          (p, es2) = (if pendingEpoch s \<noteq> None then (Some (hd es1), tl es1) else (None, es1))
      in s\<lparr>activeEpoch := a, pendingEpoch := p, retainedEpoch := es2\<rparr>)"

definition session_Decrypt ::
    "kdf \<Rightarrow> (nat \<Rightarrow> nat \<Rightarrow> int) \<Rightarrow> 'c Session \<Rightarrow> UserID \<Rightarrow> bytes \<Rightarrow> bytes \<Rightarrow> (session_error + bytes) \<times> 'c Session" where
  "session_Decrypt kdf clk s uid frameData decryptedFrame =
     (if \<not> LooksLikeDAVEFrame frameData then
        (if rejectsPlaintextLocked (clk 0 0) s \<and> \<not> isSilencePacket frameData
         then (Inl ErrDecryptionFailed, count_decrypt_failure s)
         else (copyPassthrough decryptedFrame frameData, s))
      else
        (case Parse frameData of
           Inl e \<Rightarrow> (Inl (SessionFrameError e), count_decrypt_failure s)
         | Inr parsed \<Rightarrow>
             (let s1 = pruneRetainedEpochsLocked (clk 0 0) s;
                  (res, lastErr, replays, es, rs) = decrypt_loop kdf clk 0 uid frameData (pf_TruncatedNonce parsed)
                     decryptedFrame (candidates s1) (ratchets s1) None 0;
                  s2 = put_candidates es (s1\<lparr>ratchets := rs,
                     stats := (stats s1)\<lparr>RejectedReplayFrames := RejectedReplayFrames (stats s1) + replays\<rparr>\<rparr>)
              in case res of
                   Some r \<Rightarrow> (r, s2)
                 | None \<Rightarrow> (Inl (case lastErr of Some e \<Rightarrow> e | None \<Rightarrow> ErrDecryptionFailed), count_decrypt_failure s2))))"

section \<open>Views and invariants\<close>

text \<open>What an unauthenticated frame must not change: the bases of the ratchets.\<close>

definition bases :: "(rref \<rightharpoonup> KeyRatchet) \<Rightarrow> rref \<rightharpoonup> u32 \<times> bytes" where
  "bases rs = (\<lambda>ref. map_option (\<lambda>r. (baseGeneration r, baseSecret r)) (rs ref))"

definition sender_ok :: "senderState \<Rightarrow> bool" where
  "sender_ok x \<longleftrightarrow> window_inv (ss_replay x)"

definition epoch_ok :: "epochState \<Rightarrow> bool" where
  "epoch_ok e \<longleftrightarrow> (\<forall>(u, x) \<in> set (es_senders e). sender_ok x)"

text \<open>The cached cipher belongs to the cached key.\<close>

definition cipher_ok :: "'c Session \<Rightarrow> bool" where
  "cipher_ok s \<longleftrightarrow> sendCipherKey s = [] \<or> (\<exists>g. NewGCM8 (sendCipherKey s) = Inr g \<and> sendCipher s = Some g)"

text \<open>\<open>sec\<close> gives the base secret each ratchet was made from; every ratchet of the store belongs to it.\<close>

definition ratchets_ok :: "kdf \<Rightarrow> (rref \<Rightarrow> bytes) \<Rightarrow> (rref \<rightharpoonup> KeyRatchet) \<Rightarrow> bool" where
  "ratchets_ok kdf sec rs \<longleftrightarrow> (\<forall>ref r. rs ref = Some r \<longrightarrow> ratchet_inv kdf (sec ref) r)"

definition media_inv :: "kdf \<Rightarrow> (rref \<Rightarrow> bytes) \<Rightarrow> 'c Session \<Rightarrow> bool" where
  "media_inv kdf sec s \<longleftrightarrow> ratchets_ok kdf sec (ratchets s) \<and> list_all epoch_ok (candidates s) \<and> cipher_ok s"

text \<open>A frame is authentic for a sender when it decrypts under the key of the sender's base secret, for the
  generation that the sender's expander reads from the nonce of the frame.\<close>

definition sender_key :: "kdf \<Rightarrow> (rref \<Rightarrow> bytes) \<Rightarrow> senderState \<Rightarrow> u32 \<Rightarrow> mediakeys_error + bytes" where
  "sender_key kdf sec x tn = key_at kdf (sec (ss_ratchet x)) (ucast (drop_bit 24 (ExpandTentative (ss_expander x) tn)))"

definition authentic :: "kdf \<Rightarrow> (rref \<Rightarrow> bytes) \<Rightarrow> bytes \<Rightarrow> u32 \<Rightarrow> senderState \<Rightarrow> bytes \<Rightarrow> bool" where
  "authentic kdf sec f tn x pt \<longleftrightarrow>
     (\<exists>k tn'. sender_key kdf sec x tn = Inr k \<and> Decrypt \<lparr>dp_Ciphertext = f, dp_Key = k\<rparr> = Inr (pt, tn'))"

section \<open>Lemmas on one candidate\<close>

lemma map_of_put_sender:
  "map_of xs uid = Some y \<Longrightarrow> map_of (put_sender uid x xs) u = (if u = uid then Some x else map_of xs u)"
  by (induction xs) (auto split: if_splits)

lemma set_put_sender: "set (put_sender uid x xs) \<subseteq> insert (uid, x) (set xs)"
  by (induction xs) (auto split: if_splits)

lemma bases_upd_same [simp]:
  "rs ref = Some r \<Longrightarrow> baseGeneration r' = baseGeneration r \<Longrightarrow> baseSecret r' = baseSecret r \<Longrightarrow> bases (rs(ref \<mapsto> r')) = bases rs"
  by (auto simp: bases_def)

lemma GetKey_bases:
  "rs ref = Some r \<Longrightarrow> GetKey kdf clk r g = (x, r1) \<Longrightarrow> bases (rs(ref \<mapsto> r1)) = bases rs"
  using GetKey_base [of kdf clk r g] by simp

text \<open>All that a candidate can do, by cases.\<close>

text \<open>A candidate that does not authenticate the frame, or whose plaintext does not fit.\<close>

lemma decrypt_candidate_fails:
  assumes "map_of (es_senders e) uid = Some x" "rs (ss_ratchet x) = Some r"
    and "GetKey kdf clk r (ucast (drop_bit 24 (ExpandTentative (ss_expander x) tn))) = (y, r1)"
    and "\<nexists>k pt tn'. y = Inr k \<and> Decrypt \<lparr>dp_Ciphertext = f, dp_Key = k\<rparr> = Inr (pt, tn') \<and> length pt \<le> length dst"
    and "decrypt_candidate kdf clk uid f tn dst e rs = (res, e', rs')"
  shows "((\<exists>err. res = Continue err) \<or> res = Return (Inl (SessionFrameError ErrBufferTooSmall))) \<and> e' = e \<and> bases rs' = bases rs"
proof -
  have step: "decrypt_candidate kdf clk uid f tn dst e rs = (case y of
      Inl err \<Rightarrow> (Continue (MediaKeysError err), e, rs(ss_ratchet x \<mapsto> r1))
    | Inr k \<Rightarrow> (case Decrypt \<lparr>dp_Ciphertext = f, dp_Key = k\<rparr> of
        Inl err \<Rightarrow> (Continue (SessionFrameError err), e, rs(ss_ratchet x \<mapsto> r1))
      | Inr _ \<Rightarrow> (Return (Inl (SessionFrameError ErrBufferTooSmall)), e, rs(ss_ratchet x \<mapsto> r1))))"
    using assms(1-4) by (auto simp: decrypt_candidate_def Let_def not_le split: sum.splits)
  then have "rs' = rs(ss_ratchet x \<mapsto> r1)" using assms(5) by (auto split: sum.splits)
  then show ?thesis using GetKey_bases [of rs "ss_ratchet x" r, OF assms(2,3)] assms(5) [unfolded step] by (auto split: sum.splits)
qed

lemma decrypt_candidate_cases:
  assumes "decrypt_candidate kdf clk uid f tn dst e rs = (res, e', rs')"
  obtains (skip) "map_of (es_senders e) uid = None" "res = Skip" "e' = e" "rs' = rs"
  | (nil) "res = Return (Inl NilDereference)" "e' = e" "rs' = rs"
  | (fail) x err where "map_of (es_senders e) uid = Some x" "res = Continue err" "e' = e" "bases rs' = bases rs"
  | (small) x where "map_of (es_senders e) uid = Some x" "res = Return (Inl (SessionFrameError ErrBufferTooSmall))" "e' = e" "bases rs' = bases rs"
  | (auth) x x' r k r1 pt tn' w full where "map_of (es_senders e) uid = Some x" "full = ExpandTentative (ss_expander x) tn"
      "rs (ss_ratchet x) = Some r" "GetKey kdf clk r (ucast (drop_bit 24 full)) = (Inr k, r1)"
      "Decrypt \<lparr>dp_Ciphertext = f, dp_Key = k\<rparr> = Inr (pt, tn')" "length pt \<le> length dst"
      "x' = x\<lparr>ss_expander := Expander_Commit (ss_expander x) full, ss_replay := w\<rparr>"
      "e' = e\<lparr>es_senders := put_sender uid x' (es_senders e)\<rparr>"
      "rs' = rs(ss_ratchet x \<mapsto> Commit kdf r1 (ucast (drop_bit 24 full)))"
      "checkAndMark (ss_replay x) full = (res = Return (Inr pt), w)"
      "res = Return (Inr pt) \<or> res = RejectReplay"
proof (cases "map_of (es_senders e) uid")
  case None
  show thesis by (rule skip) (use assms None in \<open>simp_all add: decrypt_candidate_def\<close>)
next
  case (Some x)
  let ?full = "ExpandTentative (ss_expander x) tn"
  let ?g = "ucast (drop_bit 24 ?full) :: u32"
  show thesis
  proof (cases "rs (ss_ratchet x)")
    case None
    show thesis by (rule nil) (use assms Some None in \<open>simp_all add: decrypt_candidate_def Let_def\<close>)
  next
    case r: (Some r)
    obtain y r1 where g: "GetKey kdf clk r ?g = (y, r1)" by fastforce
    show thesis
    proof (cases "\<exists>k pt tn'. y = Inr k \<and> Decrypt \<lparr>dp_Ciphertext = f, dp_Key = k\<rparr> = Inr (pt, tn') \<and> length pt \<le> length dst")
      case False
      from decrypt_candidate_fails [OF Some r g False assms] show thesis using fail [OF Some] small [OF Some] by blast
    next
      case True
      then obtain k pt tn' where k: "y = Inr k" "Decrypt \<lparr>dp_Ciphertext = f, dp_Key = k\<rparr> = Inr (pt, tn')" "length pt \<le> length dst"
        by blast
      obtain ok w where c: "checkAndMark (ss_replay x) ?full = (ok, w)" by fastforce
      show thesis
        by (rule auth [OF Some refl r g [unfolded k(1)] k(2,3) refl, of w])
          (use assms Some r g k c in \<open>auto simp: decrypt_candidate_def Let_def split: if_splits\<close>)
    qed
  qed
qed

section \<open>Lemmas on the loop\<close>

lemma decrypt_loop_length:
  "decrypt_loop kdf clk i uid f tn dst es rs le n = (res, le', n', es', rs') \<Longrightarrow> length es' = length es"
  by (induction es arbitrary: i rs le n res le' n' es' rs')
    (auto simp: Let_def split: candidate_result.splits prod.splits)

lemma put_candidates_same: "put_candidates (candidates s) s = s"
  by (cases "activeEpoch s"; cases "pendingEpoch s") (simp_all add: put_candidates_def candidates_def)

lemma candidates_put:
  "length es = length (candidates s) \<Longrightarrow> candidates (put_candidates es s) = es"
  by (cases "activeEpoch s"; cases "pendingEpoch s")
    (auto simp: put_candidates_def candidates_def Let_def length_Suc_conv)

lemma put_candidates_fields [simp]:
  "ratchets (put_candidates es s) = ratchets s" "stats (put_candidates es s) = stats s"
  "sendCounter (put_candidates es s) = sendCounter s" "sendRatchet (put_candidates es s) = sendRatchet s"
  "retainedSendRatchet (put_candidates es s) = retainedSendRatchet s"
  "sendCipher (put_candidates es s) = sendCipher s" "sendCipherKey (put_candidates es s) = sendCipherKey s"
  by (simp_all add: put_candidates_def Let_def)

lemma count_decrypt_fields [simp]:
  "candidates (count_decrypt_failure s) = candidates s" "ratchets (count_decrypt_failure s) = ratchets s"
  "sendCipher (count_decrypt_failure s) = sendCipher s" "sendCipherKey (count_decrypt_failure s) = sendCipherKey s"
  by (simp_all add: count_decrypt_failure_def candidates_def)

text \<open>A candidate that does not return the call leaves it to the rest of the list.\<close>

lemma decrypt_loop_next:
  assumes "decrypt_loop kdf clk i uid f tn dst (e # es) rs le n = (res, le', n', es', rs')"
    and "decrypt_candidate kdf (clk (Suc i)) uid f tn dst e rs = (r, e1, rs1)" "\<nexists>x. r = Return x"
  shows "\<exists>le1 n1 es2. decrypt_loop kdf clk (Suc i) uid f tn dst es rs1 le1 n1 = (res, le', n', es2, rs') \<and> es' = e1 # es2"
  using assms by (cases r) (auto simp: Let_def split: prod.splits)

lemma ratchets_ok_upd:
  "ratchets_ok kdf sec rs \<Longrightarrow> ratchet_inv kdf (sec ref) r \<Longrightarrow> ratchets_ok kdf sec (rs(ref \<mapsto> r))"
  by (simp add: ratchets_ok_def)

lemma ratchets_okD: "ratchets_ok kdf sec rs \<Longrightarrow> rs ref = Some r \<Longrightarrow> ratchet_inv kdf (sec ref) r"
  by (simp add: ratchets_ok_def)

lemma GetKey_store:
  assumes "ratchets_ok kdf sec rs" "rs ref = Some r" "GetKey kdf clk r g = (x, r1)"
  shows "ratchets_ok kdf sec (rs(ref \<mapsto> r1)) \<and> ratchet_inv kdf (sec ref) r1 \<and> (\<forall>k. x = Inr k \<longrightarrow> key_at kdf (sec ref) g = Inr k)"
  using GetKey_ok [OF ratchets_okD [OF assms(1,2)] assms(3)] ratchets_ok_upd [OF assms(1)] by simp

lemma checkAndMark_window: "window_inv w \<Longrightarrow> checkAndMark w n = (ok, w') \<Longrightarrow> window_inv w'"
  using checkAndMark_inv [of w n] by simp

lemma epoch_ok_put: "epoch_ok e \<Longrightarrow> sender_ok x \<Longrightarrow> epoch_ok (e\<lparr>es_senders := put_sender uid x (es_senders e)\<rparr>)"
  using set_put_sender [of uid x "es_senders e"] by (auto simp: epoch_ok_def)

lemma epoch_ok_sender: "epoch_ok e \<Longrightarrow> map_of (es_senders e) uid = Some x \<Longrightarrow> sender_ok x"
  by (auto simp: epoch_ok_def dest: map_of_SomeD)

text \<open>The candidate step and the loop keep the invariants of the ratchets and of the windows.\<close>

lemma decrypt_candidate_ok:
  assumes "decrypt_candidate kdf clk uid f tn dst e rs = (r, e1, rs1)" "kdf_total kdf" "ratchets_ok kdf sec rs"
  shows "ratchets_ok kdf sec rs1 \<and> (epoch_ok e \<longrightarrow> epoch_ok e1)"
proof -
  have rs1: "ratchets_ok kdf sec rs1"
    using assms(1,3) unfolding decrypt_candidate_def Let_def
    by (auto simp: Commit_ok [OF _ assms(2)] dest: GetKey_store intro!: ratchets_ok_upd
        split: option.splits prod.splits sum.splits if_splits)
  have "epoch_ok e1" if "epoch_ok e"
    using assms(1)
  proof (cases rule: decrypt_candidate_cases)
    case (auth x x' rr k r1 pt tn' w full)
    have "window_inv w" using epoch_ok_sender [OF that auth(1)] auth(10) checkAndMark_window by (auto simp: sender_ok_def)
    then show ?thesis using epoch_ok_put [OF that] auth(7,8) by (simp add: sender_ok_def)
  qed (use that in auto)
  then show ?thesis using rs1 by blast
qed

lemma decrypt_loop_ok:
  assumes "decrypt_loop kdf clk i uid f tn dst es rs le n = (res, le', n', es', rs')" "kdf_total kdf" "ratchets_ok kdf sec rs"
  shows "ratchets_ok kdf sec rs' \<and> (list_all epoch_ok es \<longrightarrow> list_all epoch_ok es')"
  using assms(1,3)
proof (induction es arbitrary: i rs le n res le' n' es' rs')
  case (Cons e es)
  obtain r e1 rs1 where c: "decrypt_candidate kdf (clk (Suc i)) uid f tn dst e rs = (r, e1, rs1)"
    by (metis prod_cases3)
  note one = decrypt_candidate_ok [OF c assms(2) Cons.prems(2)]
  show ?case
  proof (cases "\<exists>y. r = Return y")
    case True
    then show ?thesis using Cons.prems(1) c one by auto
  next
    case False
    from decrypt_loop_next [OF Cons.prems(1) c this] one show ?thesis using Cons.IH by fastforce
  qed
qed simp

text \<open>Either nothing that matters has changed, or the frame is authentic for the sender in a candidate.\<close>

lemma decrypt_loop_change:
  assumes "decrypt_loop kdf clk i uid f tn dst es rs le n = (res, le', n', es', rs')" "kdf_total kdf" "ratchets_ok kdf sec rs"
  shows "(es' = es \<and> bases rs' = bases rs) \<or>
    (\<exists>e\<in>set es. \<exists>x pt. map_of (es_senders e) uid = Some x \<and> authentic kdf sec f tn x pt)"
  using assms(1,3)
proof (induction es arbitrary: i rs le n res le' n' es' rs')
  case (Cons e es)
  obtain r e1 rs1 where c: "decrypt_candidate kdf (clk (Suc i)) uid f tn dst e rs = (r, e1, rs1)"
    by (metis prod_cases3)
  have one: "(e1 = e \<and> bases rs1 = bases rs) \<or>
      (\<exists>x pt. map_of (es_senders e) uid = Some x \<and> authentic kdf sec f tn x pt)"
    using c
  proof (cases rule: decrypt_candidate_cases)
    case (auth x x' rr k r1 pt tn' w full)
    then show ?thesis using GetKey_store [OF Cons.prems(2) auth(3,4)] by (auto simp: authentic_def sender_key_def)
  qed auto
  show ?case
  proof (cases "\<exists>y. r = Return y")
    case True
    then have "es' = e1 # es \<and> rs' = rs1" using Cons.prems c by auto
    then show ?thesis using one by auto
  next
    case False
    from decrypt_loop_next [OF Cons.prems(1) c False] show ?thesis
      using Cons.IH decrypt_candidate_ok [OF c assms(2) Cons.prems(2)] one by fastforce
  qed
qed simp

text \<open>What an answer of the loop means: the plaintext of a frame that is authentic for the sender in a
  candidate, with a nonce the sender's window had not seen.\<close>

lemma decrypt_loop_answer:
  assumes "decrypt_loop kdf clk i uid f tn dst es rs le n = (Some (Inr pt), le', n', es', rs')"
    "kdf_total kdf" "ratchets_ok kdf sec rs"
  shows "\<exists>j x x'. j < length es \<and> map_of (es_senders (es ! j)) uid = Some x
      \<and> map_of (es_senders (es' ! j)) uid = Some x' \<and> ss_ratchet x' = ss_ratchet x
      \<and> authentic kdf sec f tn x pt \<and> length pt \<le> length dst
      \<and> ss_expander x' = Expander_Commit (ss_expander x) (ExpandTentative (ss_expander x) tn)
      \<and> checkAndMark (ss_replay x) (ExpandTentative (ss_expander x) tn) = (True, ss_replay x')"
  using assms(1,3)
proof (induction es arbitrary: i rs le n le' n' es' rs')
  case (Cons e es)
  obtain r e1 rs1 where c: "decrypt_candidate kdf (clk (Suc i)) uid f tn dst e rs = (r, e1, rs1)"
    by (metis prod_cases3)
  show ?case
  proof (cases "\<exists>y. r = Return y")
    case True
    then have r: "r = Return (Inr pt)" "es' = e1 # es" using Cons.prems c by auto
    from c show ?thesis
    proof (cases rule: decrypt_candidate_cases)
      case (auth x x' rr k r1 pt' tn' w full)
      then have "authentic kdf sec f tn x pt" using r GetKey_store [OF Cons.prems(2) auth(3,4)]
        by (auto simp: authentic_def sender_key_def)
      then show ?thesis using r auth
        by (intro exI [of _ 0] exI [of _ x] exI [of _ x']) (auto simp: map_of_put_sender)
    qed (use r in auto)
  next
    case False
    then obtain le1 n1 es2 where l: "decrypt_loop kdf clk (Suc i) uid f tn dst es rs1 le1 n1 = (Some (Inr pt), le', n', es2, rs')" "es' = e1 # es2"
      using decrypt_loop_next [OF Cons.prems(1) c] by blast
    have "ratchets_ok kdf sec rs1" using decrypt_candidate_ok [OF c assms(2) Cons.prems(2)] by simp
    from Cons.IH [OF l(1) this] l(2) show ?thesis by (metis Suc_less_eq length_Cons nth_Cons_Suc)
  qed
qed simp

text \<open>A loop over candidates that all refuse the nonce gives no plaintext.\<close>

lemma decrypt_loop_refused:
  assumes "decrypt_loop kdf clk i uid f tn dst es rs le n = (res, le', n', es', rs')"
    and "\<forall>e\<in>set es. \<forall>x. map_of (es_senders e) uid = Some x \<longrightarrow>
      window_inv (ss_replay x) \<and> ExpandTentative (ss_expander x) tn \<in> refused (ss_replay x)"
  shows "res \<noteq> Some (Inr pt)"
  using assms
proof (induction es arbitrary: i rs le n res le' n' es' rs')
  case (Cons e es)
  obtain r e1 rs1 where c: "decrypt_candidate kdf (clk (Suc i)) uid f tn dst e rs = (r, e1, rs1)"
    by (metis prod_cases3)
  have one: "r \<noteq> Return (Inr pt)" for pt
    using c
  proof (cases rule: decrypt_candidate_cases)
    case (auth x x' rr k r1 pt' tn' w full)
    have "\<not> fst (checkAndMark (ss_replay x) full)"
      using Cons.prems(2) auth(1,2) checkAndMark_iff [of "ss_replay x" full] by simp
    then show ?thesis using auth(10,11) by auto
  qed auto
  show ?case
  proof (cases "\<exists>y. r = Return y")
    case True
    then show ?thesis using Cons.prems(1) c one [of pt] by auto
  next
    case False
    from decrypt_loop_next [OF Cons.prems(1) c this] show ?thesis using Cons.IH Cons.prems(2) by fastforce
  qed
qed simp

text \<open>The loop adds no sender to a candidate and removes none.\<close>

lemma decrypt_loop_senders:
  assumes "decrypt_loop kdf clk i uid f tn dst es rs le n = (res, le', n', es', rs')" "j < length es"
  shows "map_of (es_senders (es' ! j)) u = None \<longleftrightarrow> map_of (es_senders (es ! j)) u = None"
  using assms
proof (induction es arbitrary: i j rs le n res le' n' es' rs')
  case (Cons e es)
  obtain r e1 rs1 where c: "decrypt_candidate kdf (clk (Suc i)) uid f tn dst e rs = (r, e1, rs1)"
    by (metis prod_cases3)
  have one: "map_of (es_senders e1) u = None \<longleftrightarrow> map_of (es_senders e) u = None"
    using c by (cases rule: decrypt_candidate_cases) (auto simp: map_of_put_sender)
  show ?case
  proof (cases "\<exists>y. r = Return y")
    case True
    then show ?thesis using Cons.prems c one by (cases j) auto
  next
    case False
    from decrypt_loop_next [OF Cons.prems(1) c this] show ?thesis using Cons.IH Cons.prems(2) one by (cases j) auto
  qed
qed simp

lemma prune_candidates:
  "set (candidates (pruneRetainedEpochsLocked now s)) \<subseteq> set (candidates s)"
  "length (filter P (candidates (pruneRetainedEpochsLocked now s))) \<le> length (filter P (candidates s))"
proof -
  have "length (filter P (filter Q xs)) \<le> length (filter P xs)" for Q :: "epochState \<Rightarrow> bool" and xs
    by (induction xs) auto
  then show "length (filter P (candidates (pruneRetainedEpochsLocked now s))) \<le> length (filter P (candidates s))"
    by (auto simp: candidates_def pruneRetainedEpochsLocked_def)
qed (auto simp: candidates_def pruneRetainedEpochsLocked_def)

lemma prune_fields_session [simp]:
  "ratchets (pruneRetainedEpochsLocked now s) = ratchets s" "stats (pruneRetainedEpochsLocked now s) = stats s"
  "sendCipher (pruneRetainedEpochsLocked now s) = sendCipher s" "sendCipherKey (pruneRetainedEpochsLocked now s) = sendCipherKey s"
  by (simp_all add: pruneRetainedEpochsLocked_def)

lemma filter_unique:
  assumes "length (filter P xs) \<le> 1" "i < length xs" "j < length xs" "P (xs ! i)" "P (xs ! j)"
  shows "i = j"
proof (rule ccontr)
  assume "i \<noteq> j"
  then have "card {i, j} \<le> card {m. m < length xs \<and> P (xs ! m)}" using assms by (intro card_mono) auto
  then show False using assms(1) \<open>i \<noteq> j\<close> by (simp add: length_filter_conv_card)
qed

text \<open>The body of \<open>Decrypt\<close> for a frame with the marker.\<close>

lemma session_Decrypt_dave:
  assumes "session_Decrypt kdf clk s uid f dst = (res, s')" "LooksLikeDAVEFrame f"
  obtains (malformed) e where "Parse f = Inl e" "res = Inl (SessionFrameError e)" "s' = count_decrypt_failure s"
  | (loop) p r le n es rs where "Parse f = Inr p"
      "decrypt_loop kdf clk 0 uid f (pf_TruncatedNonce p) dst (candidates (pruneRetainedEpochsLocked (clk 0 0) s)) (ratchets s) None 0 = (r, le, n, es, rs)"
      "candidates s' = es" "ratchets s' = rs" "\<And>pt. res = Inr pt \<longleftrightarrow> r = Some (Inr pt)"
      "sendCipher s' = sendCipher s" "sendCipherKey s' = sendCipherKey s"
proof (cases "Parse f")
  case (Inl e)
  show thesis by (rule malformed) (use assms Inl in \<open>auto simp: session_Decrypt_def\<close>)
next
  case (Inr p)
  let ?s1 = "pruneRetainedEpochsLocked (clk 0 0) s"
  obtain r le n es rs where l: "decrypt_loop kdf clk 0 uid f (pf_TruncatedNonce p) dst (candidates ?s1) (ratchets s) None 0 = (r, le, n, es, rs)"
    by (metis prod_cases5)
  let ?s2 = "?s1\<lparr>ratchets := rs, stats := (stats ?s1)\<lparr>RejectedReplayFrames := RejectedReplayFrames (stats ?s1) + n\<rparr>\<rparr>"
  have "length es = length (candidates ?s2)" using decrypt_loop_length [OF l] by (simp add: candidates_def)
  from candidates_put [OF this] have c: "candidates (put_candidates es ?s2) = es" .
  have d: "(res, s') = (case r of Some x \<Rightarrow> (x, put_candidates es ?s2)
      | None \<Rightarrow> (Inl (case le of Some e \<Rightarrow> e | None \<Rightarrow> ErrDecryptionFailed), count_decrypt_failure (put_candidates es ?s2)))"
    using assms Inr l by (simp add: session_Decrypt_def Let_def)
  show thesis
    by (rule loop [OF Inr l]) (use d c in \<open>auto split: option.splits\<close>)
qed

lemma session_Decrypt_other:
  assumes "session_Decrypt kdf clk s uid f dst = (res, s')" "\<not> LooksLikeDAVEFrame f"
  shows "candidates s' = candidates s \<and> ratchets s' = ratchets s \<and> sendCipher s' = sendCipher s \<and> sendCipherKey s' = sendCipherKey s"
  using assms by (auto simp: session_Decrypt_def split: if_splits)

lemma media_inv_prune: "media_inv kdf sec s \<Longrightarrow> media_inv kdf sec (pruneRetainedEpochsLocked now s)"
  using prune_candidates(1) [of now s] by (auto simp: media_inv_def list_all_iff cipher_ok_def)

lemma media_inv_cong:
  "candidates s' = candidates s \<Longrightarrow> ratchets s' = ratchets s \<Longrightarrow> sendCipher s' = sendCipher s \<Longrightarrow> sendCipherKey s' = sendCipherKey s
    \<Longrightarrow> media_inv kdf sec s' = media_inv kdf sec s"
  by (simp add: media_inv_def cipher_ok_def)

lemma session_Decrypt_inv:
  assumes "media_inv kdf sec s" "kdf_total kdf" "session_Decrypt kdf clk s uid f dst = (res, s')"
  shows "media_inv kdf sec s'"
proof (cases "LooksLikeDAVEFrame f")
  case False
  then show ?thesis using session_Decrypt_other [OF assms(3)] media_inv_cong [of s' s] assms(1) by simp
next
  case True
  from assms(3) True show ?thesis
  proof (cases rule: session_Decrypt_dave)
    case malformed
    then show ?thesis using assms(1) media_inv_cong [of s' s] by simp
  next
    case (loop p r le n es rs)
    have i: "ratchets_ok kdf sec (ratchets s)" "list_all epoch_ok (candidates (pruneRetainedEpochsLocked (clk 0 0) s))" "cipher_ok s"
      using media_inv_prune [OF assms(1)] assms(1) by (simp_all add: media_inv_def)
    show ?thesis using decrypt_loop_ok [OF loop(2) assms(2) i(1)] i(2,3) loop(3,4,6,7)
      by (simp add: media_inv_def cipher_ok_def)
  qed
qed

section \<open>Lemmas on a successful frame\<close>

text \<open>Media keys have the length AES-128 needs, as the key derivation is asked for.\<close>

definition kdf_key_length :: "kdf \<Rightarrow> bool" where
  "kdf_key_length kdf \<longleftrightarrow> (\<forall>s g k. deriveKeyForGeneration kdf s g = Inr k \<longrightarrow> length k = 16)"

lemma key_at_length: "kdf_key_length kdf \<Longrightarrow> key_at kdf s0 g = Inr k \<Longrightarrow> length k = 16"
  by (auto simp: kdf_key_length_def key_at_def error_iffs)

definition next_counter :: "'c Session \<Rightarrow> u64" where
  "next_counter s = counter (sendCounter s) + 1"

lemma refresh_cipher_ok:
  assumes "cipher_ok s" "length k = 16"
  shows "\<exists>s'. refresh_cipher k s = Inr s' \<and> sendCipher s' = Some (key_gcm k) \<and> sendCipherKey s' = k
    \<and> candidates s' = candidates s \<and> ratchets s' = ratchets s"
proof (cases "sendCipherKey s = k")
  case True
  moreover have "k \<noteq> []" using assms(2) by auto
  ultimately show ?thesis using assms(1,2) by (auto simp: refresh_cipher_def cipher_ok_def NewGCM8_def newGCM8_eq)
next
  case False
  then show ?thesis using assms(2) by (simp add: refresh_cipher_def NewGCM8_def newGCM8_eq candidates_def)
qed

lemma opus_frame:
  assumes "length k = 16" "length f + 16 \<le> length dst" "length f < 2 ^ 32"
  shows "\<exists>out. codecs_EncryptWithCipherInto CodecOpus dst f (Some (key_gcm k)) tn = Inr out
    \<and> LooksLikeDAVEFrame out \<and> length out \<le> length f + 16 \<and> Decrypt \<lparr>dp_Ciphertext = out, dp_Key = k\<rparr> = Inr (f, tn)"
proof -
  have v: "layout_valid [] (length f)" using in_goint_u32 [OF assms(3)] by (simp add: layout_valid_def)
  have sz: "suppl_size tn [] \<le> 16" by (rule suppl_size_no_ranges)
  obtain out where o: "encryptCoreAppend [] (key_gcm k) f tn [] = Inr out" "length out = length f + suppl_size tn []"
      "Decrypt \<lparr>dp_Ciphertext = out, dp_Key = k\<rparr> = Inr (f, tn)"
    using encryptCoreAppend_total [OF v, of tn k] sz assms(1,3) by auto
  moreover have "codecs_EncryptWithCipherInto CodecOpus dst f (Some (key_gcm k)) tn = Inr out"
    using o sz assms(2) by (simp add: codecs_EncryptWithCipherInto_def supportedForEncrypt_def codec_UnencryptedRanges_def
        EncryptWithCipherInto_def ValidateRanges_def encryptInto_def kind_defs)
  ultimately show ?thesis using encryptCoreAppend_looks [OF v o(1)] sz by auto
qed

lemma select_fields:
  assumes "selectSendRatchetLocked now s = (x, s1)"
  shows "ratchets s1 = ratchets s \<and> candidates s1 = candidates s \<and> sendCipher s1 = sendCipher s
    \<and> sendCipherKey s1 = sendCipherKey s \<and> ssrcCodecs s1 = ssrcCodecs s"
  using assms by (auto simp: selectSendRatchetLocked_def candidates_def split: option.splits if_splits)

lemma session_Encrypt_ok:
  assumes inv: "media_inv kdf sec s" "kdf_total kdf" "kdf_key_length kdf"
    and sel: "selectSendRatchetLocked (clk 0) s = (Some ref, s1)" "ratchets s ref = Some r"
    and g: "g = ucast (drop_bit 24 (next_counter s1))" "served (clk 1) r g"
    and f: "encrypt_kind s ssrc = CodecOpus" "length f + 16 \<le> length dst" "length f < 2 ^ 32"
  shows "\<exists>out s' k. session_Encrypt kdf clk s ssrc f dst = (Inr out, s') \<and> key_at kdf (sec ref) g = Inr k
    \<and> LooksLikeDAVEFrame out \<and> length out \<le> length f + 16
    \<and> Decrypt \<lparr>dp_Ciphertext = out, dp_Key = k\<rparr> = Inr (f, ucast (next_counter s1))"
proof -
  note sf = select_fields [OF sel(1)]
  have r: "ratchet_inv kdf (sec ref) r" using inv(1) sel(2) by (simp add: media_inv_def ratchets_ok_def)
  obtain k r1 where k: "GetKey kdf (\<lambda>i. clk (Suc i)) r g = (Inr k, r1)"
    using GetKey_served [OF r inv(2), of "\<lambda>i. clk (Suc i)" g] g(2) by (metis One_nat_def prod.collapse)
  then have ka: "key_at kdf (sec ref) g = Inr k" using GetKey_ok [OF r k] by simp
  have k16: "length k = 16" by (rule key_at_length [OF inv(3) ka])
  define s2 where "s2 = (if retainedSendRatchet s1 \<noteq> None
    then s1\<lparr>stats := (stats s1)\<lparr>TransitionFrames := TransitionFrames (stats s1) + 1\<rparr>\<rparr> else s1)"
  define s3 where "s3 = s2\<lparr>sendCounter := (sendCounter s2)\<lparr>counter := next_counter s1\<rparr>, sealed := sealed s2 @ [(ref, next_counter s1)]\<rparr>"
  define s4 where "s4 = s3\<lparr>ratchets := (ratchets s3)(ref \<mapsto> Commit kdf r1 g)\<rparr>"
  have s4: "cipher_ok s4" "ratchets s3 ref = Some r" "encrypt_kind s2 ssrc = CodecOpus"
    using inv(1) sf sel(2) f(1) by (auto simp: media_inv_def cipher_ok_def s4_def s3_def s2_def encrypt_kind_def)
  obtain s5 where s5: "refresh_cipher k s4 = Inr s5" "sendCipher s5 = Some (key_gcm k)"
    using refresh_cipher_ok [OF s4(1) k16] by blast
  obtain out where out: "codecs_EncryptWithCipherInto CodecOpus dst f (Some (key_gcm k)) (ucast (next_counter s1)) = Inr out"
      "LooksLikeDAVEFrame out" "length out \<le> length f + 16"
      "Decrypt \<lparr>dp_Ciphertext = out, dp_Key = k\<rparr> = Inr (f, ucast (next_counter s1))"
    using opus_frame [OF k16 f(2,3)] by blast
  have "NonceCounter_Next (sendCounter s2) = ((next_counter s1, ucast (next_counter s1), g), (sendCounter s2)\<lparr>counter := next_counter s1\<rparr>)"
    by (simp add: NonceCounter_Next_def next_counter_def s2_def g(1) Let_def)
  then have "encrypt_frame kdf clk ref s2 ssrc f dst = (Inr out, s5)"
    using k s4(2,3) s5 out(1) unfolding s4_def s3_def by (simp add: encrypt_frame_def Let_def kind_defs)
  then have "session_Encrypt kdf clk s ssrc f dst = (Inr out, s5)"
    using sel(1) by (simp add: session_Encrypt_def s2_def)
  then show ?thesis using ka out(2,3,4) by blast
qed

lemma Decrypt_parses: "Decrypt \<lparr>dp_Ciphertext = f, dp_Key = k\<rparr> = Inr (pt, tn) \<Longrightarrow> \<exists>p. Parse f = Inr p \<and> pf_TruncatedNonce p = tn"
  by (auto simp: Decrypt_def error_iffs split: if_splits)

lemma session_Decrypt_ok:
  assumes inv: "media_inv kdf sec s" "kdf_total kdf"
    and e: "activeEpoch s = Some e" "map_of (es_senders e) uid = Some x" "ratchets s (ss_ratchet x) = Some r"
    and n: "ExpandTentative (ss_expander x) tn = full" "full \<notin> refused (ss_replay x)"
    and k: "key_at kdf (sec (ss_ratchet x)) (ucast (drop_bit 24 full)) = Inr k" "served (clk 1 0) r (ucast (drop_bit 24 full))"
    and f: "LooksLikeDAVEFrame f" "Decrypt \<lparr>dp_Ciphertext = f, dp_Key = k\<rparr> = Inr (pt, tn)" "length pt \<le> length dst"
  shows "\<exists>s'. session_Decrypt kdf clk s uid f dst = (Inr pt, s')"
proof -
  let ?g = "ucast (drop_bit 24 full) :: u32"
  have r: "ratchet_inv kdf (sec (ss_ratchet x)) r" using inv(1) e(3) by (simp add: media_inv_def ratchets_ok_def)
  obtain k' r1 where g: "GetKey kdf (clk 1) r ?g = (Inr k', r1)"
    using GetKey_served [OF r inv(2), of "clk 1" ?g] k(2) by (metis prod.collapse)
  then have "k' = k" using GetKey_ok [OF r g] k(1) by simp
  have "window_inv (ss_replay x)"
    using inv(1) e(1,2) epoch_ok_sender by (fastforce simp: media_inv_def candidates_def sender_ok_def)
  then obtain w where c: "checkAndMark (ss_replay x) full = (True, w)"
    using checkAndMark_iff [of "ss_replay x" full] n(2) by (metis prod.collapse)
  obtain p where p: "Parse f = Inr p" "pf_TruncatedNonce p = tn" using Decrypt_parses [OF f(2)] by blast
  obtain es where es: "candidates (pruneRetainedEpochsLocked (clk 0 0) s) = e # es"
    using e(1) by (simp add: candidates_def pruneRetainedEpochsLocked_def)
  obtain e' rs' where "decrypt_candidate kdf (clk (Suc 0)) uid f tn dst e (ratchets s) = (Return (Inr pt), e', rs')"
    using e(2,3) n(1) g \<open>k' = k\<close> f(2,3) c by (simp add: decrypt_candidate_def Let_def)
  then have l: "fst (decrypt_loop kdf clk 0 uid f tn dst (candidates (pruneRetainedEpochsLocked (clk 0 0) s)) (ratchets s) None 0) = Some (Inr pt)"
    by (simp add: es)
  obtain res s' where d: "session_Decrypt kdf clk s uid f dst = (res, s')" by fastforce
  from d f(1) have "res = Inr pt"
  proof (cases rule: session_Decrypt_dave)
    case (loop p' r' le m es' rs'')
    then show ?thesis using l p by simp
  qed (use p in simp)
  then show ?thesis using d by blast
qed

lemma codec_frame:
  assumes "(if kind = CodecH264 \<or> kind = CodecH265 then codecs_EncryptInto kind dst f k tn
      else codecs_EncryptWithCipherInto kind dst f (Some (key_gcm k)) tn) = Inr out" "length k = 16" "length f < 2 ^ 32"
  shows "LooksLikeDAVEFrame out \<and> Decrypt \<lparr>dp_Ciphertext = out, dp_Key = k\<rparr> = Inr (f, tn)"
proof -
  have v: "layout_valid [] (length f)" using in_goint_u32 [OF assms(3)] by (simp add: layout_valid_def)
  have "encryptCoreAppend [] (key_gcm k) f tn [] = Inr out"
    using assms(1) by (auto simp: codecs_EncryptInto_def codecs_EncryptWithCipherInto_def supportedForEncrypt_def
        codec_UnencryptedRanges_def EncryptWithCipherInto_def ValidateRanges_def encryptInto_def kind_defs error_iffs
        elim!: of_frame.elims split: if_splits)
  then show ?thesis
    using encryptCoreAppend_looks [OF v] encryptCoreAppend_total [OF v, of tn k] suppl_size_no_ranges [of tn] assms(2,3) by auto
qed

lemma encrypt_frame_out:
  assumes "encrypt_frame kdf clk ref s ssrc f dst = (res, s')"
    and inv: "media_inv kdf sec s" "kdf_total kdf" "kdf_key_length kdf"
  shows "media_inv kdf sec s' \<and> (\<forall>out. res = Inr out \<and> length f < 2 ^ 32 \<longrightarrow>
    LooksLikeDAVEFrame out \<and> (\<exists>k. key_at kdf (sec ref) (ucast (drop_bit 24 (next_counter s))) = Inr k
      \<and> Decrypt \<lparr>dp_Ciphertext = out, dp_Key = k\<rparr> = Inr (f, ucast (next_counter s))))"
proof (cases "ratchets s ref")
  case None
  then show ?thesis using assms(1) inv(1)
    by (auto simp: encrypt_frame_def NonceCounter_Next_def Let_def media_inv_def cipher_ok_def candidates_def)
next
  case (Some r)
  let ?g = "ucast (drop_bit 24 (next_counter s)) :: u32" and ?tn = "ucast (next_counter s) :: u32"
  let ?s3 = "s\<lparr>sendCounter := (sendCounter s)\<lparr>counter := next_counter s\<rparr>, sealed := sealed s @ [(ref, next_counter s)]\<rparr>"
  have nx: "NonceCounter_Next (sendCounter s) = ((next_counter s, ?tn, ?g), (sendCounter s)\<lparr>counter := next_counter s\<rparr>)"
    by (simp add: NonceCounter_Next_def next_counter_def Let_def)
  obtain x r1 where g: "GetKey kdf (\<lambda>i. clk (Suc i)) r ?g = (x, r1)" by fastforce
  have ok: "ratchets_ok kdf sec (ratchets s)" using inv(1) by (simp add: media_inv_def)
  note gk = GetKey_store [OF ok Some g]
  show ?thesis
  proof (cases x)
    case (Inl e)
    then have "s' = count_encrypt_failure (?s3\<lparr>ratchets := (ratchets s)(ref \<mapsto> r1)\<rparr>)" "res = Inl (MediaKeysError e)"
      using assms(1) Some g nx by (simp_all add: encrypt_frame_def)
    then show ?thesis using gk inv(1) by (simp add: media_inv_def cipher_ok_def candidates_def count_encrypt_failure_def)
  next
    case (Inr k)
    have k: "key_at kdf (sec ref) ?g = Inr k" "length k = 16" using gk Inr key_at_length [OF inv(3)] by auto
    let ?s4 = "?s3\<lparr>ratchets := (ratchets s)(ref \<mapsto> Commit kdf r1 ?g)\<rparr>"
    have r4: "ratchets_ok kdf sec (ratchets ?s4)" using gk Commit_ok [OF _ inv(2)] ratchets_ok_upd [OF ok] by simp
    have "cipher_ok ?s4" using inv(1) by (simp add: media_inv_def cipher_ok_def)
    from refresh_cipher_ok [OF this k(2)] obtain s5 where s5: "refresh_cipher k ?s4 = Inr s5" "sendCipher s5 = Some (key_gcm k)"
      "sendCipherKey s5 = k" "candidates s5 = candidates ?s4" "ratchets s5 = ratchets ?s4" by blast
    have inv5: "media_inv kdf sec s5" "media_inv kdf sec (count_encrypt_failure s5)"
      using s5 r4 k(2) inv(1)
      by (auto simp: media_inv_def cipher_ok_def candidates_def count_encrypt_failure_def NewGCM8_def newGCM8_eq)
    let ?c = "if encrypt_kind s ssrc = CodecH264 \<or> encrypt_kind s ssrc = CodecH265
        then codecs_EncryptInto (encrypt_kind s ssrc) dst f k ?tn
        else codecs_EncryptWithCipherInto (encrypt_kind s ssrc) dst f (sendCipher s5) ?tn"
    have "(res, s') = (case of_codec ?c of Inl e \<Rightarrow> (Inl e, count_encrypt_failure s5) | Inr out \<Rightarrow> (Inr out, s5))"
      using assms(1) [symmetric] Some g Inr nx s5(1) by (simp add: encrypt_frame_def Let_def split del: if_split)
    moreover have "LooksLikeDAVEFrame out \<and> Decrypt \<lparr>dp_Ciphertext = out, dp_Key = k\<rparr> = Inr (f, ?tn)"
      if "?c = Inr out" "length f < 2 ^ 32" for out
      using codec_frame [OF that(1) [unfolded s5(2)] k(2) that(2)] .
    ultimately show ?thesis using inv5 k(1) by (cases ?c) (auto split del: if_split)
  qed
qed

lemma media_inv_select:
  assumes "media_inv kdf sec s" "selectSendRatchetLocked now s = (x, s1)"
  shows "media_inv kdf sec s1"
  using media_inv_cong [of s1 s] select_fields [OF assms(2)] assms(1) by simp

lemma session_Encrypt_cases:
  assumes "session_Encrypt kdf clk s ssrc f dst = (res, s')" "media_inv kdf sec s"
  obtains (none) s1 where "selectSendRatchetLocked (clk 0) s = (None, s1)" "media_inv kdf sec s'"
      "res = (if strictEncrypt s \<and> sendProtocolVersion s \<noteq> 0 then Inl ErrMissingKeyRatchet else copyPassthrough dst f)"
  | (ratchet) ref s1 s2 where "selectSendRatchetLocked (clk 0) s = (Some ref, s1)" "encrypt_frame kdf clk ref s2 ssrc f dst = (res, s')"
      "media_inv kdf sec s2" "sendCounter s2 = sendCounter s1"
proof -
  obtain x s1 where sel: "selectSendRatchetLocked (clk 0) s = (x, s1)" by fastforce
  have i1: "media_inv kdf sec s1" by (rule media_inv_select [OF assms(2) sel])
  have st: "media_inv kdf sec (s1\<lparr>stats := y\<rparr>)" for y using i1 media_inv_cong [of "s1\<lparr>stats := y\<rparr>" s1] by (simp add: candidates_def)
  have same: "strictEncrypt s1 = strictEncrypt s" "sendProtocolVersion s1 = sendProtocolVersion s"
    using sel by (auto simp: selectSendRatchetLocked_def split: option.splits if_splits)
  show thesis
  proof (cases x)
    case None
    show thesis by (rule none) (use assms(1) sel None st same in \<open>auto simp: session_Encrypt_def count_encrypt_failure_def split: if_splits\<close>)
  next
    case (Some ref)
    let ?s2 = "if retainedSendRatchet s1 \<noteq> None
      then s1\<lparr>stats := (stats s1)\<lparr>TransitionFrames := TransitionFrames (stats s1) + 1\<rparr>\<rparr> else s1"
    show thesis by (rule ratchet [of ref s1 ?s2]) (use assms(1) sel Some st i1 in \<open>auto simp: session_Encrypt_def\<close>)
  qed
qed

lemma session_Encrypt_inv:
  assumes "media_inv kdf sec s" "kdf_total kdf" "kdf_key_length kdf" "session_Encrypt kdf clk s ssrc f dst = (res, s')"
  shows "media_inv kdf sec s'"
  using assms(4,1)
proof (cases rule: session_Encrypt_cases)
  case (ratchet ref s1 s2)
  then show ?thesis using encrypt_frame_out [OF ratchet(2,3) assms(2,3)] by simp
qed

text \<open>A nonce expander that is close enough to a counter to recover it.\<close>

definition expander_near :: "NonceExpander \<Rightarrow> u64 \<Rightarrow> bool" where
  "expander_near e c \<longleftrightarrow> (if initialized e then absDiff c (highestSeen e) < 2 ^ 31 else c < 2 ^ 32)"

lemma expander_near_expands: "expander_near e c \<Longrightarrow> ExpandTentative e (ucast c) = c"
proof (cases "initialized e")
  case True
  moreover assume "expander_near e c"
  ultimately show ?thesis using expand_tentative_near [of e c] by (simp add: expander_near_def TruncatedNonceFromCounter_def)
next
  case False
  moreover assume "expander_near e c"
  ultimately show ?thesis using unat_truncated [of c] unfolding word_unat_eq_iff
    by (simp add: expander_near_def ExpandTentative_def unat_u32_u64 TruncatedNonceFromCounter_def word_less_nat_alt)
qed

lemma session_exchange:
  assumes kdf: "kdf_total kdf" "kdf_key_length kdf"
    and snd: "media_inv kdf secS S" "selectSendRatchetLocked (clk 0) S = (Some ref, S1)" "ratchets S ref = Some rS"
      "encrypt_kind S ssrc = CodecOpus"
    and c: "c = next_counter S1" "g = ucast (drop_bit 24 c)" "served (clk 1) rS g"
    and rcv: "media_inv kdf secR R" "activeEpoch R = Some e" "map_of (es_senders e) uid = Some x"
      "ratchets R (ss_ratchet x) = Some rR" "served (clk' 1 0) rR g"
    and same: "secR (ss_ratchet x) = secS ref"
    and fresh: "expander_near (ss_expander x) c" "c \<notin> refused (ss_replay x)"
    and len: "length f < 2 ^ 32" "length f + 16 \<le> length dst" "length f \<le> length dst'"
  shows "\<exists>out S' R'. session_Encrypt kdf clk S ssrc f dst = (Inr out, S') \<and> LooksLikeDAVEFrame out
    \<and> session_Decrypt kdf clk' R uid out dst' = (Inr f, R')"
proof -
  obtain out S' k where o: "session_Encrypt kdf clk S ssrc f dst = (Inr out, S')" "key_at kdf (secS ref) g = Inr k"
      "LooksLikeDAVEFrame out" "Decrypt \<lparr>dp_Ciphertext = out, dp_Key = k\<rparr> = Inr (f, ucast c)"
    using session_Encrypt_ok [OF snd(1) kdf snd(2,3) c(2) [unfolded c(1)] c(3) snd(4) len(2,1)] unfolding c(1) by blast
  have "\<exists>R'. session_Decrypt kdf clk' R uid out dst' = (Inr f, R')"
    by (rule session_Decrypt_ok [OF rcv(1) kdf(1) rcv(2-4) expander_near_expands [OF fresh(1)] fresh(2) _ _ o(3,4) len(3)])
      (use o(2) same c(2) rcv(5) in simp_all)
  then show ?thesis using o by blast
qed

lemma New_fields [simp]:
  "ratchets (New u b os) = Map.empty" "activeEpoch (New u b os) = None" "pendingEpoch (New u b os) = None"
  "retainedEpoch (New u b os) = []" "sendRatchet (New u b os) = None" "retainedSendRatchet (New u b os) = None"
  "sendCipher (New u b os) = None" "sendCipherKey (New u b os) = []" "sendCounter (New u b os) = NewNonceCounter"
  "ssrcCodecs (New u b os) = Map.empty" "strictEncrypt (New u b [Some WithStrictEncrypt]) = True"
  by (simp_all add: New_def Let_def WithStrictEncrypt_def)

text \<open>Two sessions for the witnesses: a sender, and a receiver that knows the sender's base secret.\<close>

definition pad_kdf :: kdf where
  "pad_kdf s l ctx n = Inr (take (nat n) (ctx @ s @ replicate (nat n) 0))"

lemma pad_kdf: "kdf_total pad_kdf" "kdf_key_length pad_kdf"
  by (auto simp: kdf_total_def kdf_key_length_def deriveKeyForGeneration_def advanceSecret_def pad_kdf_def MediaKeyLen_def)

definition demo_sender :: "unit Session" where
  "demo_sender = (New ''7'' False [Some WithStrictEncrypt])\<lparr>sendProtocolVersion := 1, sendRatchet := Some 0, ratchets := [0 \<mapsto> demo_ratchet]\<rparr>"

definition demo_entry :: senderState where
  "demo_entry = \<lparr>ss_ratchet = 0, ss_expander = NewNonceExpander, ss_replay = newReplayWindow\<rparr>"

definition demo_epoch :: epochState where
  "demo_epoch = \<lparr>es_id = 1, es_groupID = [], es_senders = [(''7'', demo_entry)], es_expiresAt = None\<rparr>"

definition demo_receiver :: "unit Session" where
  "demo_receiver = (New ''9'' False [])\<lparr>activeEpoch := Some demo_epoch, ratchets := [0 \<mapsto> demo_ratchet]\<rparr>"

lemma demo_inv: "media_inv kdf (\<lambda>_. replicate 16 7) demo_sender" "media_inv kdf (\<lambda>_. replicate 16 7) demo_receiver"
  using demo_ratchet_inv [of kdf]
  by (auto simp: media_inv_def ratchets_ok_def demo_sender_def demo_receiver_def candidates_def cipher_ok_def
      epoch_ok_def sender_ok_def demo_epoch_def demo_entry_def split: if_splits)

lemma demo_served: "served now demo_ratchet 0"
  by (simp add: served_def demo_ratchet_def)

lemma demo_select: "selectSendRatchetLocked now demo_sender = (Some 0, demo_sender)" "next_counter demo_sender = 1"
  "encrypt_kind demo_sender ssrc = CodecOpus" "ratchets demo_sender 0 = Some demo_ratchet"
  by (simp_all add: selectSendRatchetLocked_def demo_sender_def next_counter_def encrypt_kind_def NewNonceCounter_def)

lemma demo_near: "expander_near (ss_expander demo_entry) 1" "1 \<notin> refused (ss_replay demo_entry)"
  by (simp_all add: expander_near_def demo_entry_def NewNonceExpander_def)

lemma demo_exchange:
  "\<exists>out S' R'. session_Encrypt pad_kdf (\<lambda>_. 5) demo_sender 1 [1, 2, 3] (replicate 64 0) = (Inr out, S') \<and> LooksLikeDAVEFrame out
     \<and> session_Decrypt pad_kdf (\<lambda>_ _. 6) demo_receiver ''7'' out (replicate 64 0) = (Inr [1, 2, 3], R')"
  by (rule session_exchange [OF pad_kdf demo_inv(1) demo_select(1,4,3) demo_select(2) [symmetric] refl _ demo_inv(2), where e = demo_epoch and x = demo_entry and rR = demo_ratchet])
    (use demo_served demo_near in \<open>simp_all add: demo_receiver_def demo_epoch_def demo_entry_def\<close>)

section \<open>Properties of decryption\<close>

text \<open>C5 decrypt_accepts_authentic. A plaintext that \<open>Decrypt\<close> returns for a frame with the DAVE marker
  is what the frame decrypts to under the key of the sender it was looked up for, in an epoch the
  session knows, for the generation read from the frame's nonce. The nonce had not been seen in
  that epoch and is refused from then on.\<close>

theorem decrypt_accepts_authentic:
  assumes "media_inv kdf sec s" "kdf_total kdf" "LooksLikeDAVEFrame f"
    and "session_Decrypt kdf clk s uid f dst = (Inr pt, s')"
  shows "\<exists>p e x e' x'. Parse f = Inr p \<and> e \<in> set (candidates s) \<and> map_of (es_senders e) uid = Some x
    \<and> authentic kdf sec f (pf_TruncatedNonce p) x pt
    \<and> e' \<in> set (candidates s') \<and> map_of (es_senders e') uid = Some x' \<and> ss_ratchet x' = ss_ratchet x
    \<and> ExpandTentative (ss_expander x) (pf_TruncatedNonce p) \<notin> refused (ss_replay x)
    \<and> ExpandTentative (ss_expander x) (pf_TruncatedNonce p) \<in> refused (ss_replay x')"
  using assms(4,3)
proof (cases rule: session_Decrypt_dave)
  case (loop p r le n es rs)
  let ?cs = "candidates (pruneRetainedEpochsLocked (clk 0 0) s)"
  have r: "r = Some (Inr pt)" using loop(5) by blast
  have ok: "ratchets_ok kdf sec (ratchets s)" "list_all epoch_ok ?cs"
    using media_inv_prune [OF assms(1)] assms(1) by (simp_all add: media_inv_def)
  obtain j x x' where a: "j < length ?cs" "map_of (es_senders (?cs ! j)) uid = Some x"
      "map_of (es_senders (es ! j)) uid = Some x'" "ss_ratchet x' = ss_ratchet x"
      "authentic kdf sec f (pf_TruncatedNonce p) x pt"
      "checkAndMark (ss_replay x) (ExpandTentative (ss_expander x) (pf_TruncatedNonce p)) = (True, ss_replay x')"
    using decrypt_loop_answer [OF loop(2) [unfolded r] assms(2) ok(1)] by blast
  have w: "window_inv (ss_replay x)"
    using ok(2) a(1,2) epoch_ok_sender by (fastforce simp: list_all_length sender_ok_def)
  have "es ! j \<in> set (candidates s')" using a(1) decrypt_loop_length [OF loop(2)] loop(3) by simp
  moreover have "?cs ! j \<in> set (candidates s)" using prune_candidates(1) a(1) by (meson nth_mem subsetD)
  moreover have "ExpandTentative (ss_expander x) (pf_TruncatedNonce p) \<notin> refused (ss_replay x)"
    "ExpandTentative (ss_expander x) (pf_TruncatedNonce p) \<in> refused (ss_replay x')"
    using window.check_iff [OF w] window.check_refuse [OF w] a(6) by (metis fst_conv, metis insert_subset snd_conv)
  ultimately show ?thesis using loop(1) a by blast
qed simp

theorem decrypt_accepts_authentic_witness:
  "\<exists>f p x. Parse f = Inr p \<and> x = demo_entry \<and> authentic pad_kdf (\<lambda>_. replicate 16 7) f (pf_TruncatedNonce p) x [1, 2, 3]"
proof -
  obtain out R' where d: "LooksLikeDAVEFrame out" "session_Decrypt pad_kdf (\<lambda>_ _. 6) demo_receiver ''7'' out (replicate 64 0) = (Inr [1, 2, 3], R')"
    using demo_exchange by blast
  have c: "candidates demo_receiver = [demo_epoch]" by (simp add: candidates_def demo_receiver_def)
  from decrypt_accepts_authentic [OF demo_inv(2) pad_kdf(1) d] show ?thesis by (auto simp: c demo_epoch_def)
qed

text \<open>C8 forged_frame_harmless. A frame that is authentic for none of the senders the session knows under
  that user changes nothing an attacker could use: no nonce expander, no replay window and no
  ratchet base of any epoch moves, whatever the nonce of the frame claims.\<close>

theorem forged_frame_harmless:
  assumes "media_inv kdf sec s" "kdf_total kdf"
    and "session_Decrypt kdf clk s uid f dst = (res, s')"
    and "\<forall>p e x pt. Parse f = Inr p \<and> e \<in> set (candidates s) \<and> map_of (es_senders e) uid = Some x \<longrightarrow>
      \<not> authentic kdf sec f (pf_TruncatedNonce p) x pt"
  shows "set (candidates s') \<subseteq> set (candidates s) \<and> bases (ratchets s') = bases (ratchets s)"
proof (cases "LooksLikeDAVEFrame f")
  case False
  then show ?thesis using session_Decrypt_other [OF assms(3)] by simp
next
  case True
  from assms(3) True show ?thesis
  proof (cases rule: session_Decrypt_dave)
    case malformed
    then show ?thesis by simp
  next
    case (loop p r le n es rs)
    have ok: "ratchets_ok kdf sec (ratchets s)" using assms(1) by (simp add: media_inv_def)
    have "es = candidates (pruneRetainedEpochsLocked (clk 0 0) s) \<and> bases rs = bases (ratchets s)"
      using decrypt_loop_change [OF loop(2) assms(2) ok] assms(4) loop(1) prune_candidates(1) [of "clk 0 0" s] by blast
    then show ?thesis using loop(3,4) prune_candidates(1) [of "clk 0 0" s] by simp
  qed
qed

lemma key_at_total: "kdf_total kdf \<Longrightarrow> \<exists>k. key_at kdf s0 g = Inr k"
proof -
  assume t: "kdf_total kdf"
  have "\<exists>s. secret_at kdf s0 n = Inr s" for n
    using t by (induction n) (auto simp: kdf_total_def)
  then obtain s where "secret_at kdf s0 (unat g) = Inr s" by blast
  then show ?thesis using t by (simp add: key_at_eq kdf_total_def)
qed

text \<open>A frame with a footer that parses and with a wrong tag.\<close>

lemma forged_tag:
  fixes pt :: bytes
  assumes k: "length k0 = 16" and v: "layout_valid rs (length pt)" and l: "length pt < 2 ^ 32" and sz: "suppl_size tn rs \<le> 255"
  shows "\<exists>f p. LooksLikeDAVEFrame f \<and> Parse f = Inr p \<and> pf_TruncatedNonce p = tn \<and>
    Decrypt \<lparr>dp_Ciphertext = f, dp_Key = k0\<rparr> = Inl ErrAuthTagMismatch"
proof -
  obtain ct aad c t body where parts: "gcm8_Seal (gcm_seal (aes_encrypt k0)) [] (full_nonce tn) ct aad = c @ t" "length t = 8"
    "length body = length pt" "ExtractCiphertext body rs = Some c" "buildAAD body rs = Some aad"
    by (rule frame_parts [OF v])
  define t' where "t' = map (\<lambda>b. b + 1) t"
  have t': "length t' = 8" "t' \<noteq> t" using parts(2) by (auto simp: t'_def numeral_eq_Suc length_Suc_conv)
  have "gcm8_Open (gcm_seal (aes_encrypt k0)) [] (full_nonce tn) (c @ t) aad = Inr ct"
    using aes_gcm.gcm8_Open_Seal [of k0 "[]" "full_nonce tn" ct aad] parts(1) by simp
  then have "gcm8_Open (gcm_seal (aes_encrypt k0)) [] (full_nonce tn) (c @ t') aad = Inl ErrAuthTagMismatch"
    using t' by (auto simp: aes_gcm.gcm8_Open_eq parts(2) split: if_splits)
  then have "Decrypt \<lparr>dp_Ciphertext = dave_frame body t' tn rs, dp_Key = k0\<rparr> = Inl ErrAuthTagMismatch"
    using Decrypt_dave_frame [OF k _ _ t'(1) sz parts(4,5)] v l parts(3) by simp
  moreover have "LooksLikeDAVEFrame (dave_frame body t' tn rs)"
    using dave_frame_nth [OF t'(1), of body tn rs] suppl_size_ge [of tn rs] by (simp add: LooksLikeDAVEFrame_def)
  ultimately show ?thesis
    using Parse_dave_frame [OF t'(1) sz] v l parts(3) by (force simp: layout_valid_def)
qed

text \<open>Witness of \<open>forged_frame_harmless\<close>: a DAVE frame in the name of a sender the session knows, whose footer
  parses and whose tag does not verify under the sender's key.\<close>

theorem forged_frame_harmless_witness:
  "\<exists>f p. LooksLikeDAVEFrame f \<and> Parse f = Inr p \<and> map_of (es_senders demo_epoch) ''7'' = Some demo_entry \<and>
     (\<exists>k. sender_key pad_kdf (\<lambda>_. replicate 16 7) demo_entry (pf_TruncatedNonce p) = Inr k \<and>
        Decrypt \<lparr>dp_Ciphertext = f, dp_Key = k\<rparr> = Inl ErrAuthTagMismatch) \<and>
     (let s' = snd (session_Decrypt pad_kdf (\<lambda>_ _. 6) demo_receiver ''7'' f (replicate 64 0))
      in set (candidates s') \<subseteq> set (candidates demo_receiver) \<and> bases (ratchets s') = bases (ratchets demo_receiver))"
proof -
  obtain k where k: "sender_key pad_kdf (\<lambda>_. replicate 16 7) demo_entry 0 = Inr k" "length k = 16"
    using key_at_total [OF pad_kdf(1)] key_at_length [OF pad_kdf(2)] unfolding sender_key_def by metis
  have "layout_valid [] (length [1, 2, 3 :: u8])" by (simp add: layout_valid_def in_goint_def)
  from forged_tag [OF k(2) this, of 0] suppl_size_no_ranges [of 0] obtain f p where f: "LooksLikeDAVEFrame f" "Parse f = Inr p"
      "pf_TruncatedNonce p = 0" "Decrypt \<lparr>dp_Ciphertext = f, dp_Key = k\<rparr> = Inl ErrAuthTagMismatch"
    by auto
  obtain res s' where d: "session_Decrypt pad_kdf (\<lambda>_ _. 6) demo_receiver ''7'' f (replicate 64 0) = (res, s')" by fastforce
  have x: "e \<in> set (candidates demo_receiver) \<Longrightarrow> map_of (es_senders e) ''7'' = Some x \<Longrightarrow> x = demo_entry" for e x
    by (auto simp: candidates_def demo_receiver_def demo_epoch_def)
  have "\<forall>q e x pt. Parse f = Inr q \<and> e \<in> set (candidates demo_receiver) \<and> map_of (es_senders e) ''7'' = Some x \<longrightarrow>
      \<not> authentic pad_kdf (\<lambda>_. replicate 16 7) f (pf_TruncatedNonce q) x pt"
    using f(2-) k(1) by (auto simp: authentic_def dest!: x)
  from forged_frame_harmless [OF demo_inv(2) pad_kdf(1) d this] show ?thesis
    using f k(1) d by (auto simp: demo_epoch_def)
qed

text \<open>A frame that was accepted is not accepted a second time, by any later
  clock and with any buffer, when the sender is known in one epoch only.\<close>

theorem replayed_frame_rejected:
  assumes "media_inv kdf sec s" "kdf_total kdf" "LooksLikeDAVEFrame f"
    and "session_Decrypt kdf clk s uid f dst = (Inr pt, s1)"
    and "length (filter (\<lambda>e. map_of (es_senders e) uid \<noteq> None) (candidates s)) = 1"
  shows "\<exists>err. fst (session_Decrypt kdf clk' s1 uid f dst') = Inl err"
  using assms(4,3)
proof (cases rule: session_Decrypt_dave)
  case (loop p r le n es rs)
  let ?cs = "candidates (pruneRetainedEpochsLocked (clk 0 0) s)" and ?tn = "pf_TruncatedNonce p"
  have r: "r = Some (Inr pt)" using loop(5) by blast
  have ok: "ratchets_ok kdf sec (ratchets s)" "list_all epoch_ok es"
    using session_Decrypt_inv [OF assms(1,2,4)] assms(1) loop(3) by (simp_all add: media_inv_def)
  have len: "length es = length ?cs" by (rule decrypt_loop_length [OF loop(2)])
  obtain j x x' where a: "j < length ?cs" "map_of (es_senders (?cs ! j)) uid = Some x"
      "map_of (es_senders (es ! j)) uid = Some x'"
      "ss_expander x' = Expander_Commit (ss_expander x) (ExpandTentative (ss_expander x) ?tn)"
      "checkAndMark (ss_replay x) (ExpandTentative (ss_expander x) ?tn) = (True, ss_replay x')"
    using decrypt_loop_answer [OF loop(2) [unfolded r] assms(2) ok(1)] by blast
  have w: "window_inv (ss_replay x)"
    using media_inv_prune [OF assms(1)] a(1,2) epoch_ok_sender
    by (fastforce simp: media_inv_def list_all_length sender_ok_def)
  have ref: "ExpandTentative (ss_expander x') ?tn \<in> refused (ss_replay x')"
    using window.check_refuse [OF w, of "ExpandTentative (ss_expander x) ?tn"] a(4,5) by (simp add: expand_again)
  have only: "i = j" if "i < length es" "map_of (es_senders (es ! i)) uid \<noteq> None" for i
    using filter_unique [of "\<lambda>e. map_of (es_senders e) uid \<noteq> None" ?cs i j]
      prune_candidates(2) [of "\<lambda>e. map_of (es_senders e) uid \<noteq> None" "clk 0 0" s] assms(5)
      decrypt_loop_senders [OF loop(2), of i uid] that a(1,2) len by auto
  have all: "\<forall>e\<in>set es. \<forall>y. map_of (es_senders e) uid = Some y \<longrightarrow>
      window_inv (ss_replay y) \<and> ExpandTentative (ss_expander y) ?tn \<in> refused (ss_replay y)"
  proof (intro ballI allI impI)
    fix e y assume "e \<in> set es" "map_of (es_senders e) uid = Some y"
    moreover from this obtain i where i: "i < length es" "e = es ! i" by (auto simp: in_set_conv_nth)
    ultimately have "i = j" "y = x'" using only [OF i(1)] a(3) by auto
    then show "window_inv (ss_replay y) \<and> ExpandTentative (ss_expander y) ?tn \<in> refused (ss_replay y)"
      using ref ok(2) i epoch_ok_sender a(3) by (fastforce simp: list_all_length sender_ok_def)
  qed
  obtain res2 s2 where d: "session_Decrypt kdf clk' s1 uid f dst' = (res2, s2)" by fastforce
  from d assms(3) have "res2 \<noteq> Inr pt2" for pt2
  proof (cases rule: session_Decrypt_dave)
    case l2: (loop p2 r2 le2 n2 es2 rs2)
    have "p2 = p" using l2(1) loop(1) by simp
    have "\<forall>e\<in>set (candidates (pruneRetainedEpochsLocked (clk' 0 0) s1)). \<forall>y. map_of (es_senders e) uid = Some y \<longrightarrow>
      window_inv (ss_replay y) \<and> ExpandTentative (ss_expander y) ?tn \<in> refused (ss_replay y)"
      using all prune_candidates(1) [of "clk' 0 0" s1] loop(3) by blast
    from decrypt_loop_refused [OF l2(2) [unfolded \<open>p2 = p\<close>] this] show ?thesis using l2(5) by blast
  qed simp
  then show ?thesis using d by (cases res2) auto
qed simp

theorem replayed_frame_rejected_witness:
  "\<exists>f s1 err. session_Decrypt pad_kdf (\<lambda>_ _. 6) demo_receiver ''7'' f (replicate 64 0) = (Inr [1, 2, 3], s1)
     \<and> fst (session_Decrypt pad_kdf (\<lambda>_ _. 7) s1 ''7'' f (replicate 64 0)) = Inl err"
proof -
  obtain out R' where d: "LooksLikeDAVEFrame out" "session_Decrypt pad_kdf (\<lambda>_ _. 6) demo_receiver ''7'' out (replicate 64 0) = (Inr [1, 2, 3], R')"
    using demo_exchange by blast
  have c: "length (filter (\<lambda>e. map_of (es_senders e) ''7'' \<noteq> None) (candidates demo_receiver)) = 1"
    by (simp add: candidates_def demo_receiver_def demo_epoch_def)
  from replayed_frame_rejected [OF demo_inv(2) pad_kdf(1) d c] d(2) show ?thesis by blast
qed

section \<open>Properties of encryption and of both paths\<close>

text \<open>C6 session_end_to_end. A frame that a session encrypts is decrypted to the same frame by every
  session that has the sender's base secret in its active epoch, when the receiver's expander is
  close to the counter, the nonce is fresh there, both ratchets serve the generation and the
  buffers are large enough. The receiver needs nothing else from the sender: nonce, generation and
  key are recovered from the frame.\<close>

theorem session_end_to_end:
  assumes "kdf_total kdf" "kdf_key_length kdf"
    and "media_inv kdf secS S" "selectSendRatchetLocked (clk 0) S = (Some ref, S1)" "ratchets S ref = Some rS"
      "encrypt_kind S ssrc = CodecOpus"
    and "c = next_counter S1" "g = ucast (drop_bit 24 c)" "served (clk 1) rS g"
    and "media_inv kdf secR R" "activeEpoch R = Some e" "map_of (es_senders e) uid = Some x"
      "ratchets R (ss_ratchet x) = Some rR" "served (clk' 1 0) rR g"
    and "secR (ss_ratchet x) = secS ref"
    and "expander_near (ss_expander x) c" "c \<notin> refused (ss_replay x)"
    and "length f < 2 ^ 32" "length f + 16 \<le> length dst" "length f \<le> length dst'"
  shows "\<exists>out S' R'. session_Encrypt kdf clk S ssrc f dst = (Inr out, S')
    \<and> session_Decrypt kdf clk' R uid out dst' = (Inr f, R')"
  using session_exchange [where clk = clk and clk' = clk', OF assms] by blast

theorem session_end_to_end_witness:
  "\<exists>out S' R'. session_Encrypt pad_kdf (\<lambda>_. 5) demo_sender 1 [4, 5] (replicate 64 0) = (Inr out, S')
     \<and> session_Decrypt pad_kdf (\<lambda>_ _. 6) demo_receiver ''7'' out (replicate 64 0) = (Inr [4, 5], R')"
  by (rule session_end_to_end [OF pad_kdf demo_inv(1) demo_select(1,4,3) demo_select(2) [symmetric] refl _ demo_inv(2), where e = demo_epoch and x = demo_entry and rR = demo_ratchet])
    (use demo_served demo_near in \<open>simp_all add: demo_receiver_def demo_epoch_def demo_entry_def\<close>)

text \<open>C9 encrypt_never_leaks. What \<open>Encrypt\<close> returns: with a send ratchet the result is a DAVE frame that
  decrypts to the input under that ratchet's key; without one it is the input unchanged, and never
  in a strict session whose protocol version is above 0, which fails instead.\<close>

theorem encrypt_never_leaks:
  assumes "media_inv kdf sec s" "kdf_total kdf" "kdf_key_length kdf" "length f < 2 ^ 32"
    and "session_Encrypt kdf clk s ssrc f dst = (Inr out, s')"
  shows "case selectSendRatchetLocked (clk 0) s of
      (None, s1) \<Rightarrow> out = f \<and> (strictEncrypt s \<longrightarrow> sendProtocolVersion s = 0)
    | (Some ref, s1) \<Rightarrow> LooksLikeDAVEFrame out \<and>
        (\<exists>k. key_at kdf (sec ref) (ucast (drop_bit 24 (next_counter s1))) = Inr k
          \<and> Decrypt \<lparr>dp_Ciphertext = out, dp_Key = k\<rparr> = Inr (f, ucast (next_counter s1)))"
  using assms(5,1)
proof (cases rule: session_Encrypt_cases)
  case (none s1)
  then show ?thesis by (auto simp: copyPassthrough_def split: if_splits)
next
  case (ratchet ref s1 s2)
  have "next_counter s2 = next_counter s1" using ratchet(4) by (simp add: next_counter_def)
  then show ?thesis using encrypt_frame_out [OF ratchet(2,3) assms(2,3)] ratchet(1) assms(4) by simp
qed

theorem encrypt_never_leaks_witness:
  "\<exists>out S' k. session_Encrypt pad_kdf (\<lambda>_. 5) demo_sender 1 [1, 2, 3] (replicate 64 0) = (Inr out, S')
     \<and> Decrypt \<lparr>dp_Ciphertext = out, dp_Key = k\<rparr> = Inr ([1, 2, 3], 1)"
proof -
  obtain out S' where e: "session_Encrypt pad_kdf (\<lambda>_. 5) demo_sender 1 [1, 2, 3] (replicate 64 0) = (Inr out, S')"
    using demo_exchange by blast
  from encrypt_never_leaks [OF demo_inv(1) pad_kdf _ e] e show ?thesis by (auto simp: demo_select)
qed

text \<open>Every sequence of \<open>Encrypt\<close> and \<open>Decrypt\<close> calls, with any frames, users, buffers and
  clocks, keeps the session well-formed: every ratchet of the store holds the secret and the keys
  of its base secret, every replay window is consistent, and the cached cipher belongs to the
  cached key.\<close>

datatype media_op =
    OpEncrypt "nat \<Rightarrow> int" u32 bytes bytes
  | OpDecrypt "nat \<Rightarrow> nat \<Rightarrow> int" UserID bytes bytes

fun media_step :: "kdf \<Rightarrow> media_op \<Rightarrow> 'c Session \<Rightarrow> 'c Session" where
  "media_step kdf (OpEncrypt clk ssrc f dst) s = snd (session_Encrypt kdf clk s ssrc f dst)"
| "media_step kdf (OpDecrypt clk uid f dst) s = snd (session_Decrypt kdf clk s uid f dst)"

theorem media_invariant:
  assumes "media_inv kdf sec s" "kdf_total kdf" "kdf_key_length kdf"
  shows "media_inv kdf sec (fold (media_step kdf) ops s)"
  using assms(1)
proof (induction ops arbitrary: s)
  case (Cons op ops)
  have "media_inv kdf sec (media_step kdf op s)"
    using Cons.prems session_Encrypt_inv [OF Cons.prems assms(2,3) prod.collapse [symmetric]]
      session_Decrypt_inv [OF Cons.prems assms(2) prod.collapse [symmetric]] by (cases op) auto
  then show ?case using Cons.IH by simp
qed simp

theorem media_invariant_witness:
  "media_inv pad_kdf (\<lambda>_. replicate 16 7)
     (fold (media_step pad_kdf) [OpDecrypt (\<lambda>_ _. 6) ''7'' [1] [], OpEncrypt (\<lambda>_. 5) 1 [1] []] demo_receiver)"
  by (rule media_invariant [OF demo_inv(2) pad_kdf])

end
