(* ===== verification/Mls_Wire.thy ===== *)
theory Mls_Wire
  imports Session_State Media_Keys
begin

text \<open>
  The byte-level helpers of \<open>session/mls.go\<close>: user ids and credential identities, the length prefix of
  an MLS vector, and the body of a revoke batch. \<open>strconv\<close> is modelled on strings of digits.
\<close>

section \<open>Definitions\<close>

text \<open>\<open>strconv.ParseUint(s, 10, 64)\<close>: digits only, at least one, below \<open>2 ^ 64\<close>.\<close>

fun parse_uint_loop :: "nat \<Rightarrow> string \<Rightarrow> nat option" where
  "parse_uint_loop n [] = Some n"
| "parse_uint_loop n (c # cs) =
     (if is_digit c then
        (let n' = 10 * n + char_digit c in if n' < 2 ^ 64 then parse_uint_loop n' cs else None)
      else None)"

definition ParseUint :: "string \<Rightarrow> u64 option" where
  "ParseUint s = (if s = [] then None else map_option of_nat (parse_uint_loop 0 s))"

definition FormatUint :: "u64 \<Rightarrow> string" where
  "FormatUint n = decimal (unat n)"

definition userIDToIdentityBytes :: "UserID \<Rightarrow> session_error + bytes" where
  "userIDToIdentityBytes uid =
     (case ParseUint uid of
        None \<Rightarrow> Inl ParseUserID
      | Some n \<Rightarrow> Inr (BigEndian_PutUint64 n))"

definition identityBytesToUserID :: "bytes \<Rightarrow> session_error + UserID \<times> u64" where
  "identityBytesToUserID identity =
     (if length identity \<noteq> 8 then Inl ErrInvalidCredentialIdentity
      else let n = BigEndian_Uint64 identity in Inr (FormatUint n, n))"

definition readTLSVectorLength :: "bytes \<Rightarrow> session_error + u32 \<times> nat" where
  "readTLSVectorLength data =
     (if length data = 0 then Inl ErrInvalidVectorLength
      else let prefix = drop_bit 6 (data ! 0) in
        if prefix = 0 then Inr (ucast (data ! 0 AND 0x3F), 1)
        else if prefix = 1 then
          (if length data < 2 then Inl ErrInvalidVectorLength
           else Inr (push_bit 8 (ucast (data ! 0 AND 0x3F)) OR ucast (data ! 1), 2))
        else if prefix = 2 then
          (if length data < 4 then Inl ErrInvalidVectorLength
           else Inr (push_bit 24 (ucast (data ! 0 AND 0x3F)) OR push_bit 16 (ucast (data ! 1))
                  OR push_bit 8 (ucast (data ! 2)) OR ucast (data ! 3), 4))
        else Inl ErrInvalidVectorLength)"

definition proposalRefSize :: nat where "proposalRefSize = 32"

definition maxRevokeRefs :: nat where "maxRevokeRefs = 256"

text \<open>The slice a vector's length prefix announces.\<close>

definition vector_body :: "bytes \<Rightarrow> session_error + bytes" where
  "vector_body payload =
     ebind (readTLSVectorLength payload) (\<lambda>(vecLen, headerSize).
     let end' = headerSize + unat vecLen in
     if length payload < end' then Inl ErrProposalsTruncated
     else Inr (drop headerSize (take end' payload)))"

fun split_refs :: "nat \<Rightarrow> bytes \<Rightarrow> bytes list" where
  "split_refs 0 body = []"
| "split_refs (Suc n) body = take proposalRefSize body # split_refs n (drop proposalRefSize body)"

text \<open>The references of a revoke batch; no references is the early return on an empty body.\<close>

definition revoke_refs :: "bytes \<Rightarrow> session_error + bytes list" where
  "revoke_refs payload =
     ebind (vector_body payload) (\<lambda>body.
     if length body = 0 then Inr []
     else if length body mod proposalRefSize \<noteq> 0 then Inl ErrProposalsTruncated
     else let n = length body div proposalRefSize in
       if maxRevokeRefs < n then Inl ErrProposalsTooMany
       else Inr (split_refs n body))"

section \<open>Lemmas\<close>

lemma decimal_value_digits:
  "parse_uint_loop n s = Some m \<longleftrightarrow> list_all is_digit s \<and> m = foldl (\<lambda>n c. 10 * n + char_digit c) n s
     \<and> (s \<noteq> [] \<longrightarrow> m < 2 ^ 64)"
proof (induction s arbitrary: n)
  case (Cons c cs)
  have "foldl (\<lambda>n c. 10 * n + char_digit c) x cs \<ge> x" for x
  proof (induction cs arbitrary: x)
    case (Cons a cs)
    have "10 * x + char_digit a \<le> foldl (\<lambda>n c. 10 * n + char_digit c) (10 * x + char_digit a) cs" by (rule Cons)
    then show ?case by simp
  qed simp
  from this [of "10 * n + char_digit c"] Cons.IH [of "10 * n + char_digit c"] show ?case
    by (cases "is_digit c \<and> 10 * n + char_digit c < 2 ^ 64") (simp_all add: Let_def, linarith?, auto)
qed auto

lemma ParseUint_Format: "ParseUint (FormatUint n) = Some n"
proof -
  have "decimal (unat n) \<noteq> []" by (subst decimal.simps) simp
  moreover have "parse_uint_loop 0 (decimal (unat n)) = Some (unat n)"
    using decimal_correct [of "unat n"] unsigned_less [of n, where ?'a = nat]
    by (simp add: decimal_value_digits decimal_value_def)
  ultimately show ?thesis by (simp add: ParseUint_def FormatUint_def)
qed

lemma split_refs_concat:
  "length body = n * 32 \<Longrightarrow> concat (split_refs n body) = body \<and> length (split_refs n body) = n
     \<and> list_all (\<lambda>r. length r = 32) (split_refs n body)"
  by (induction n arbitrary: body) (simp_all add: proposalRefSize_def)

lemma u8_high_bit [simp]: "8 \<le> n \<Longrightarrow> \<not> bit (b :: u8) n"
  by (auto dest: bit_imp_le_length)

lemma small_bit: "bit v n \<Longrightarrow> unat v < 2 ^ k \<Longrightarrow> n < k" for v :: u32
proof -
  assume b: "bit v n" and "unat v < 2 ^ k"
  then have "take_bit k (unat v) = unat v" by (simp add: take_bit_nat_eq_self)
  moreover have "bit (unat v) n" using b by (simp add: bit_unsigned_iff)
  ultimately show "n < k" by (metis bit_take_bit_iff)
qed

lemma prefix_bits:
  "bit (0x3F :: u8) n \<longleftrightarrow> n < 6" "bit (0x40 :: u8) n \<longleftrightarrow> n = 6" "bit (0x80 :: u8) n \<longleftrightarrow> n = 7"
  "bit (0x3F :: int) n \<longleftrightarrow> n < 6" "bit (0x40 :: int) n \<longleftrightarrow> n = 6" "bit (0x80 :: int) n \<longleftrightarrow> n = 7"
proof -
  have e: "(0x3F :: u8) = mask 6" "(0x40 :: u8) = 2 ^ 6" "(0x80 :: u8) = 2 ^ 7"
    "(0x3F :: int) = mask 6" "(0x40 :: int) = 2 ^ 6" "(0x80 :: int) = 2 ^ 7" by (simp_all add: mask_eq_exp_minus_1)
  show "bit (0x3F :: u8) n \<longleftrightarrow> n < 6" "bit (0x3F :: int) n \<longleftrightarrow> n < 6"
    unfolding e(1,4) bit_mask_iff by auto
  show "bit (0x40 :: u8) n \<longleftrightarrow> n = 6" "bit (0x40 :: int) n \<longleftrightarrow> n = 6" "bit (0x80 :: u8) n \<longleftrightarrow> n = 7" "bit (0x80 :: int) n \<longleftrightarrow> n = 7"
    unfolding e(2,3,5,6) bit_exp_iff by auto
qed

lemma BigEndian_Put_Uint64: "length b = 8 \<Longrightarrow> BigEndian_PutUint64 (BigEndian_Uint64 b) = b"
proof -
  assume "length b = 8"
  then obtain b0 b1 b2 b3 b4 b5 b6 b7 where b: "b = [b0, b1, b2, b3, b4, b5, b6, b7]"
    by (auto simp: length_Suc_conv eval_nat_numeral)
  show ?thesis unfolding b BigEndian_PutUint64_def BigEndian_Uint64_def
    by (auto intro!: bit_word_eqI simp: bit_simps dest: bit_imp_le_length)
qed

text \<open>The three encodings the length prefix can have, the shortest for each value.\<close>

definition tls_length :: "u32 \<Rightarrow> bytes" where
  "tls_length v = (if v < 64 then [ucast v]
     else if v < 16384 then [0x40 OR ucast (drop_bit 8 v), ucast v]
     else [0x80 OR ucast (drop_bit 24 v), ucast (drop_bit 16 v), ucast (drop_bit 8 v), ucast v])"

lemma tls_two_bytes:
  fixes v :: u32
  assumes "v < 16384"
  shows "drop_bit 6 (0x40 OR ucast (drop_bit 8 v) :: u8) = 1"
    "push_bit 8 (ucast ((0x40 OR ucast (drop_bit 8 v) :: u8) AND 0x3F)) OR ucast (ucast v :: u8) = v"
proof -
  have b: "bit v n \<Longrightarrow> n < 14" for n using small_bit [of v n 14] assms by (simp add: word_less_nat_alt)
  show "drop_bit 6 (0x40 OR ucast (drop_bit 8 v) :: u8) = 1"
    by (rule bit_word_eqI) (auto simp: bit_simps prefix_bits dest: b)
  show "push_bit 8 (ucast ((0x40 OR ucast (drop_bit 8 v) :: u8) AND 0x3F)) OR ucast (ucast v :: u8) = v"
    by (rule bit_word_eqI) (auto simp: bit_simps prefix_bits dest: b)
qed

lemma tls_four_bytes:
  fixes v :: u32
  assumes "v < 2 ^ 30"
  shows "drop_bit 6 (0x80 OR ucast (drop_bit 24 v) :: u8) = 2"
    "push_bit 24 (ucast ((0x80 OR ucast (drop_bit 24 v) :: u8) AND 0x3F)) OR push_bit 16 (ucast (ucast (drop_bit 16 v) :: u8))
       OR push_bit 8 (ucast (ucast (drop_bit 8 v) :: u8)) OR ucast (ucast v :: u8) = v"
proof -
  have b: "bit v n \<Longrightarrow> n < 30" for n using small_bit [of v n 30] assms by (simp add: word_less_nat_alt)
  show "drop_bit 6 (0x80 OR ucast (drop_bit 24 v) :: u8) = 2"
    by (rule bit_word_eqI) (auto simp: bit_simps prefix_bits dest: b)
  show "push_bit 24 (ucast ((0x80 OR ucast (drop_bit 24 v) :: u8) AND 0x3F)) OR push_bit 16 (ucast (ucast (drop_bit 16 v) :: u8))
       OR push_bit 8 (ucast (ucast (drop_bit 8 v) :: u8)) OR ucast (ucast v :: u8) = v"
  proof (rule bit_word_eqI)
    fix n :: nat
    consider "n < 8" | "8 \<le> n" "n < 16" | "16 \<le> n" "n < 24" | "24 \<le> n" by linarith
    then show "bit (push_bit 24 (ucast ((0x80 OR ucast (drop_bit 24 v) :: u8) AND 0x3F)) OR push_bit 16 (ucast (ucast (drop_bit 16 v) :: u8))
       OR push_bit 8 (ucast (ucast (drop_bit 8 v) :: u8)) OR ucast (ucast v :: u8) :: u32) n = bit v n"
      by cases (auto simp: bit_simps prefix_bits dest: b)
  qed
qed

lemma tls_one_byte:
  fixes v :: u32
  assumes "v < 64"
  shows "drop_bit 6 (ucast v :: u8) = 0" "ucast ((ucast v :: u8) AND 0x3F) = v"
proof -
  have b: "bit v n \<Longrightarrow> n < 6" for n using small_bit [of v n 6] assms by (simp add: word_less_nat_alt)
  show "drop_bit 6 (ucast v :: u8) = 0"
    by (rule bit_word_eqI) (auto simp: bit_simps dest: b)
  show "ucast ((ucast v :: u8) AND 0x3F) = v"
    by (rule bit_word_eqI) (auto simp: bit_simps prefix_bits dest: b)
qed

section \<open>Properties\<close>

text \<open>The user id read from a credential identity turns back into exactly that
  identity, so no two identities of a group share a user id, and the user id is the decimal form
  of the sender id from which the media keys are derived.\<close>

theorem identity_roundtrip:
  assumes "identityBytesToUserID identity = Inr (uid, n)"
  shows "userIDToIdentityBytes uid = Inr identity \<and> uid = FormatUint n \<and> BigEndian_PutUint64 n = identity"
  using assms by (auto simp: identityBytesToUserID_def userIDToIdentityBytes_def ParseUint_Format BigEndian_Put_Uint64 Let_def
      split: if_splits)

theorem identity_roundtrip_witness:
  "userIDToIdentityBytes ''258'' = Inr [0, 0, 0, 0, 0, 0, 1, 2]"
proof -
  have "identityBytesToUserID [0, 0, 0, 0, 0, 0, 1, 2] = Inr (''258'', 258)" by code_simp
  from identity_roundtrip [OF this] show ?thesis by blast
qed

text \<open>The length prefix of every vector shorter than \<open>2 ^ 30\<close> bytes is read back with
  its width, whatever bytes follow it.\<close>

theorem tls_vector_roundtrip:
  assumes "v < 2 ^ 30"
  shows "readTLSVectorLength (tls_length v @ rest) = Inr (v, length (tls_length v))"
proof -
  consider "v < 64" | "\<not> v < 64" "v < 16384" | "\<not> v < 64" "\<not> v < 16384" by blast
  then show ?thesis
  proof cases
    case 1
    then show ?thesis using tls_one_byte [OF 1] by (simp add: readTLSVectorLength_def tls_length_def)
  next
    case 2
    then show ?thesis using tls_two_bytes [OF 2(2)] by (simp add: readTLSVectorLength_def tls_length_def)
  next
    case 3
    then show ?thesis using tls_four_bytes [OF assms] by (simp add: readTLSVectorLength_def tls_length_def)
  qed
qed

theorem tls_vector_roundtrip_witness:
  "readTLSVectorLength (tls_length 300 @ [9]) = Inr (300, 2)"
  using tls_vector_roundtrip [of 300 "[9]"] by (simp add: tls_length_def)

text \<open>The references of a revoke batch are the consecutive 32-byte pieces of the vector's
  body, all of it, and at most 256 of them.\<close>

theorem revoke_refs_exact:
  assumes "revoke_refs payload = Inr refs"
  shows "vector_body payload = Inr (concat refs) \<and> (\<forall>r\<in>set refs. length r = 32) \<and> length refs \<le> 256"
proof -
  obtain body where b: "vector_body payload = Inr body" using assms by (auto simp: revoke_refs_def error_iffs)
  show ?thesis
  proof (cases "body = []")
    case True
    then show ?thesis using assms b by (simp add: revoke_refs_def)
  next
    case False
    then have n: "length body mod 32 = 0" "length body div 32 \<le> 256" "refs = split_refs (length body div 32) body"
      using assms b by (auto simp: revoke_refs_def proposalRefSize_def maxRevokeRefs_def Let_def split: if_splits)
    have "length body = length body div 32 * 32" using n(1) by (metis add.right_neutral div_mult_mod_eq)
    note c = split_refs_concat [OF this, folded n(3)]
    show ?thesis using c n(2) b by (auto simp only: list_all_iff)
  qed
qed

theorem revoke_refs_exact_witness:
  "vector_body (32 # replicate 32 5 @ [1]) = Inr (replicate 32 5)"
proof -
  let ?b = "replicate 32 5 :: bytes"
  have "vector_body (32 # ?b @ [1]) = Inr ?b"
    by (simp add: vector_body_def readTLSVectorLength_def)
  moreover have "split_refs 1 ?b = [?b]" by (simp add: proposalRefSize_def)
  ultimately have "revoke_refs (32 # ?b @ [1]) = Inr [?b]"
    by (simp add: revoke_refs_def proposalRefSize_def maxRevokeRefs_def del: split_refs.simps)
  from revoke_refs_exact [OF this] show ?thesis by simp
qed

end
