(* ===== verification/Session_Mls.thy ===== *)
theory Session_Mls
  imports Session_Media Mls_Wire
begin

text \<open>
  The MLS side of a session: \<open>session/mls.go\<close> and the sending helpers of \<open>session/retry.go\<close>. The handlers
  that call these operations are in \<open>Session_Handlers\<close>.

  Everything the code calls outside the repository is a field of the record \<open>Env\<close>, which is an argument of
  the definitions: the operations of the mls-go client and of its store (\<open>'c\<close> is the state of both), the
  parsers of mls-go with the parts of their results that the code reads, the numbers of its
  constants, the answers of the gateway callbacks, and the clock. Every call of a handler is given
  its own record, so nothing is assumed about randomness inside mls-go.

  \<open>sendLocked\<close> releases \<open>mu\<close> while a callback runs. Other handlers and the watchdogs are kept out by
  \<open>sendMu\<close>, but calls that take only \<open>mu\<close> can happen then; the list of those that do is part of \<open>Env\<close>, and
  \<open>sendLocked\<close> runs them. The answers of the environment depend on the messages sent so far, and
  readings of the clock also on a number that tells the readings between two sends apart.
\<close>

section \<open>The environment\<close>

text \<open>What the code reads of a parsed MLS message; \<open>None\<close> is a nil pointer or \<open>ok == false\<close>.\<close>

record PublicMessage =
  pm_SenderType :: u8
  pm_ContentType :: u8
  pm_ProposalData :: "bytes option"
  pm_CommitData :: "bytes option"

record MLSMessage =
  mm_Public :: "PublicMessage option"
  mm_Welcome :: "bytes option"
  mm_Marshal :: bytes

text \<open>A proposal with the identity in the credential of an Add, if it has one; an external sender with its
  marshaled credential and the bytes of its key, or the error of the conversion to ECDH; a group
  state with its exporter secret and its cipher suite.\<close>

record Proposal =
  pr_Type :: u16
  pr_AddIdentity :: "bytes option"

record ExternalSender =
  xs_Credential :: "bytes option"
  xs_PublicKey :: "(go_error + bytes) option"

record GroupState =
  gs_ExporterSecret :: "bytes option"
  gs_CipherSuite :: u16

datatype 'a outcome = Returns "go_error + 'a" | Panics go_error

text \<open>Calls that can happen while a callback runs.\<close>

datatype free_op =
    FreeMedia media_op
  | FreeAddUser UserID
  | FreeRemoveUser UserID
  | FreeAssignSsrcToCodec int u32 int
  | FreeSetChannelID u64
  | FreeClose

record 'c Env =
  NewClient :: "bytes \<Rightarrow> go_error + 'c"
  FreshKeyPackageBytes :: "'c \<Rightarrow> (go_error + bytes) \<times> 'c"
  JoinGroup :: "'c \<Rightarrow> bytes \<Rightarrow> bytes outcome \<times> 'c"
  GroupInfo :: "'c \<Rightarrow> bytes \<Rightarrow> go_error + bytes"
  ProcessCommit :: "bytes \<Rightarrow> bytes \<Rightarrow> 'c \<Rightarrow> (go_error + unit) \<times> 'c"
  ProcessPublicMessage :: "bytes \<Rightarrow> bytes \<Rightarrow> 'c \<Rightarrow> (go_error + unit) \<times> 'c"
  RevokeProposals :: "bytes \<Rightarrow> bytes list \<Rightarrow> 'c \<Rightarrow> (go_error + unit) \<times> 'c"
  ListMembers :: "'c \<Rightarrow> bytes \<Rightarrow> go_error + bytes list"
  Epoch :: "'c \<Rightarrow> bytes \<Rightarrow> go_error + u64"
  CreateGroupWithExternalSender :: "bytes \<Rightarrow> bytes \<Rightarrow> bytes \<Rightarrow> 'c \<Rightarrow> (go_error + bytes) \<times> 'c"
  CommitPendingProposals :: "bytes \<Rightarrow> 'c \<Rightarrow> (go_error + bytes \<times> bytes) \<times> 'c"
  ClientEpochAuthenticator :: "'c \<Rightarrow> bytes \<Rightarrow> go_error + bytes"
  LoadGroupState :: "'c \<Rightarrow> bytes \<Rightarrow> go_error + bytes"
  SaveGroupState :: "bytes \<Rightarrow> bytes \<Rightarrow> 'c \<Rightarrow> (go_error + unit) \<times> 'c"
  UnmarshalMLSMessage :: "bytes \<Rightarrow> go_error + MLSMessage"
  UnmarshalWelcome :: "bytes \<Rightarrow> go_error + u16"
  UnmarshalGroupInfo :: "bytes \<Rightarrow> go_error + (u16 \<times> bytes) list"
  UnmarshalCommit :: "bytes \<Rightarrow> go_error + Proposal option list"
  UnmarshalProposal :: "bytes \<Rightarrow> go_error + Proposal"
  UnmarshalGroupState :: "bytes \<Rightarrow> go_error + GroupState"
  ParseSingleExternalSender :: "bytes \<Rightarrow> go_error + ExternalSender option"
  UnmarshalExternalSendersExtension :: "bytes \<Rightarrow> go_error + ExternalSender list"
  DeriveSecret :: "u16 \<Rightarrow> bytes \<Rightarrow> string \<Rightarrow> go_error + bytes"
  SuiteHash :: "u16 \<Rightarrow> bytes \<Rightarrow> go_error + bytes"
  MLS128DHKEMP256 :: u16
  ExtensionTypeExternalSenders :: u16
  SenderTypeExternal :: u8
  ContentTypeProposal :: u8
  ProposalTypeAdd :: u16
  ProposalTypeRemove :: u16
  env_send :: "gateway_msg list \<Rightarrow> go_error option"
  env_during :: "gateway_msg list \<Rightarrow> free_op list"
  env_clock :: "nat \<Rightarrow> gateway_msg list \<Rightarrow> int"

definition time_now :: "'c Env \<Rightarrow> nat \<Rightarrow> 'c Session \<Rightarrow> int" where
  "time_now E k s = env_clock E k (sent s)"

fun free_step :: "kdf \<Rightarrow> free_op \<Rightarrow> 'c Session \<Rightarrow> 'c Session" where
  "free_step kdf (FreeMedia op) s = media_step kdf op s"
| "free_step kdf (FreeAddUser uid) s = AddUser s uid"
| "free_step kdf (FreeRemoveUser uid) s = RemoveUser s uid"
| "free_step kdf (FreeAssignSsrcToCodec godaveCodecOpus ssrc codec) s = AssignSsrcToCodec godaveCodecOpus s ssrc codec"
| "free_step kdf (FreeSetChannelID cid) s = s\<lparr>channelID := cid\<rparr>"
| "free_step kdf FreeClose s = Close s"

section \<open>Results with a state\<close>

type_synonym ('a, 'c) res = "(session_error + 'a) \<times> 'c Session"

text \<open>\<open>x, err := f(); if err != nil { return err }\<close> for operations on the session.\<close>

fun sbind :: "('a, 'c) res \<Rightarrow> ('a \<Rightarrow> 'c Session \<Rightarrow> ('b, 'c) res) \<Rightarrow> ('b, 'c) res" where
  "sbind (Inl e, s) f = (Inl e, s)"
| "sbind (Inr x, s) f = f x s"

text \<open>An error of mls-go wrapped by \<open>fmt.Errorf\<close>.\<close>

fun mls_wrap :: "string \<Rightarrow> go_error + 'a \<Rightarrow> session_error + 'a" where
  "mls_wrap msg (Inl e) = Inl (MlsError msg e)"
| "mls_wrap msg (Inr x) = Inr x"

definition go_panic :: "'c Session \<Rightarrow> ('a, 'c) res" where
  "go_panic s = (Inl NilDereference, s\<lparr>panicked := True\<rparr>)"

text \<open>\<open>s.mlsClient.client.Op(...)\<close>, for an operation that changes the client and for one that reads it.\<close>

definition client_call :: "string \<Rightarrow> ('c \<Rightarrow> (go_error + 'a) \<times> 'c) \<Rightarrow> 'c Session \<Rightarrow> ('a, 'c) res" where
  "client_call msg f s =
     (case mlsClient s of
        None \<Rightarrow> go_panic s
      | Some c \<Rightarrow> (let (r, c') = f c in (mls_wrap msg r, s\<lparr>mlsClient := Some c'\<rparr>)))"

definition client_read :: "string \<Rightarrow> ('c \<Rightarrow> go_error + 'a) \<Rightarrow> 'c Session \<Rightarrow> ('a, 'c) res" where
  "client_read msg f s =
     (case mlsClient s of
        None \<Rightarrow> go_panic s
      | Some c \<Rightarrow> (mls_wrap msg (f c), s))"

text \<open>\<open>errors.Is(err, errSendFailed)\<close>.\<close>

fun is_send_failed :: "session_error \<Rightarrow> bool" where
  "is_send_failed (errSendFailed _) = True"
| "is_send_failed _ = False"

section \<open>Definitions\<close>

subsection \<open>Exporter\<close>

text \<open>The text of the errors that pass through the exporter and of those \<open>retrySend\<close> inspects.\<close>

fun error_text :: "session_error \<Rightarrow> go_error" where
  "error_text ErrNilExporterStore = ''session: mls exporter store is nil''"
| "error_text ErrExporterSecretUnavailable = ''session: exporter secret not available''"
| "error_text (MlsError msg e) = msg @ '': '' @ e"
| "error_text (MediaKeysError (ExternalError msg e)) = msg @ '': '' @ e"
| "error_text (MediaKeysError ErrNilExporterSecret) = ''mediakeys: exporter secret nil''"
| "error_text (errSendFailed e) = ''send mls key package: session: gateway send failed: '' @ e"
| "error_text errSuperseded = ''session: send no longer wanted''"
| "error_text ContextCanceled = ''context canceled''"
| "error_text _ = []"

definition exporterAdapter_Export :: "kdf \<Rightarrow> 'c Env \<Rightarrow> 'c option \<Rightarrow> bytes \<Rightarrow> string \<Rightarrow> bytes \<Rightarrow> int \<Rightarrow> session_error + bytes" where
  "exporterAdapter_Export kdf E store gid label ctx len =
     (case store of
        None \<Rightarrow> Inl ErrNilExporterStore
      | Some c \<Rightarrow>
          ebind (mls_wrap ''load group state for exporter'' (LoadGroupState E c gid)) (\<lambda>state.
          ebind (mls_wrap ''unmarshal group state for exporter'' (UnmarshalGroupState E state)) (\<lambda>groupState.
          case gs_ExporterSecret groupState of
            None \<Rightarrow> Inl ErrExporterSecretUnavailable
          | Some secret \<Rightarrow>
              (case ExportWithMLSExporterSecret kdf (DeriveSecret E (gs_CipherSuite groupState))
                   (SuiteHash E (gs_CipherSuite groupState)) (Some secret) label ctx len of
                 Inl e \<Rightarrow> Inl (MediaKeysError e)
               | Inr x \<Rightarrow> Inr x))))"

definition adapter_exporter :: "kdf \<Rightarrow> 'c Env \<Rightarrow> 'c option \<Rightarrow> bytes \<Rightarrow> exporter" where
  "adapter_exporter kdf E store gid = (\<lambda>label ctx len.
     case exporterAdapter_Export kdf E store gid label ctx len of Inl e \<Rightarrow> Inl (error_text e) | Inr x \<Rightarrow> Inr x)"

subsection \<open>Sending\<close>

definition sendLocked :: "kdf \<Rightarrow> 'c Env \<Rightarrow> gateway_msg \<Rightarrow> 'c Session \<Rightarrow> (unit, 'c) res" where
  "sendLocked kdf E msg s =
     (let s1 = s\<lparr>sent := sent s @ [msg]\<rparr>;
          s2 = fold (free_step kdf) (env_during E (sent s1)) s1
      in (case env_send E (sent s1) of Some e \<Rightarrow> Inl (errSendFailed e) | None \<Rightarrow> Inr (), s2))"

definition sendInvalidCommitWelcomeLocked :: "kdf \<Rightarrow> 'c Env \<Rightarrow> u16 \<Rightarrow> 'c Session \<Rightarrow> 'c Session" where
  "sendInvalidCommitWelcomeLocked kdf E transitionID s =
     (if \<not> hasCallbacks s then s else snd (sendLocked kdf E (SendInvalidCommitWelcome transitionID) s))"

subsection \<open>Client and key packages\<close>

definition ensureMLSClientLocked :: "'c Env \<Rightarrow> 'c Session \<Rightarrow> (unit, 'c) res" where
  "ensureMLSClientLocked E s =
     (case mlsClient s of
        Some c \<Rightarrow> (Inr (), s)
      | None \<Rightarrow>
          (case userIDToIdentityBytes (userID s) of
             Inl e \<Rightarrow> (Inl e, s)
           | Inr identity \<Rightarrow>
               (case NewClient E identity of
                  Inl e \<Rightarrow> (Inl (MlsError ''create mls client'' e), s)
                | Inr c \<Rightarrow> (Inr (), s\<lparr>mlsClient := Some c\<rparr>))))"

definition freshKeyPackageLocked :: "'c Env \<Rightarrow> 'c Session \<Rightarrow> (bytes, 'c) res" where
  "freshKeyPackageLocked E s =
     sbind (ensureMLSClientLocked E s) (\<lambda>_ s1.
     client_call ''generate fresh key package'' (FreshKeyPackageBytes E) s1)"

definition sendKeyPackageLocked :: "kdf \<Rightarrow> 'c Env \<Rightarrow> bytes \<Rightarrow> 'c Session \<Rightarrow> (unit, 'c) res" where
  "sendKeyPackageLocked kdf E kp s =
     (if 0 < length (pendingKeyPackage s) then (Inr (), s)
      else sbind (if hasCallbacks s then sendLocked kdf E (SendMLSKeyPackage kp) s else (Inr (), s)) (\<lambda>_ s1.
        (Inr (), s1\<lparr>pendingKeyPackage := kp\<rparr>)))"

definition ensurePendingKeyPackageLocked :: "kdf \<Rightarrow> 'c Env \<Rightarrow> 'c Session \<Rightarrow> (unit, 'c) res" where
  "ensurePendingKeyPackageLocked kdf E s =
     sbind (ensureMLSClientLocked E s) (\<lambda>_ s1.
     if 0 < length (pendingKeyPackage s1) then (Inr (), s1)
     else sbind (freshKeyPackageLocked E s1) (\<lambda>kp s2. sendKeyPackageLocked kdf E kp s2))"

subsection \<open>The epoch of a group\<close>

text \<open>The loop over the members. It keeps the senders built so far, the store of ratchets and the next
  free reference; \<open>seen\<close> holds the users met. Every ratchet gets a reference of its own, as every one is
  a new object in Go; two epochs built from one MLS epoch have equal secrets in different ratchets.\<close>

fun rebuild_loop ::
    "exporter \<Rightarrow> bytes list \<Rightarrow> UserID set \<Rightarrow> (UserID \<times> senderState) list \<Rightarrow> (rref \<rightharpoonup> KeyRatchet) \<Rightarrow> rref
      \<Rightarrow> session_error + (UserID \<times> senderState) list \<times> (rref \<rightharpoonup> KeyRatchet) \<times> rref" where
  "rebuild_loop export [] seen' senders rs n = Inr (senders, rs, n)"
| "rebuild_loop export (identity # members) seen' senders rs n =
     ebind (identityBytesToUserID identity) (\<lambda>(memberUserID, senderID).
     if memberUserID \<in> seen' then Inl ErrDuplicateGroupIdentity
     else
       (case DeriveSenderBaseSecret (Some export) senderID of
          Inl e \<Rightarrow> Inl (MediaKeysError e)
        | Inr base \<Rightarrow>
            (case NewKeyRatchet base [] of
               Inl e \<Rightarrow> Inl (MediaKeysError e)
             | Inr ratchet \<Rightarrow>
                 rebuild_loop export members (insert memberUserID seen')
                   (senders @ [(memberUserID, \<lparr>ss_ratchet = n, ss_expander = NewNonceExpander, ss_replay = newReplayWindow\<rparr>)])
                   (rs(n \<mapsto> ratchet)) (Suc n))))"

definition rebuildEpochStateLocked :: "kdf \<Rightarrow> 'c Env \<Rightarrow> bytes \<Rightarrow> 'c Session \<Rightarrow> (epochState, 'c) res" where
  "rebuildEpochStateLocked kdf E gid s =
     sbind (client_read ''list members'' (\<lambda>c. ListMembers E c gid) s) (\<lambda>members s1.
     sbind (client_read ''read epoch'' (\<lambda>c. Epoch E c gid) s1) (\<lambda>epochID s2.
     case rebuild_loop (adapter_exporter kdf E (mlsClient s2) gid) members {} [] (ratchets s2) (nextRef s2) of
       Inl e \<Rightarrow> (Inl e, s2)
     | Inr (senders, rs, n) \<Rightarrow>
         (Inr \<lparr>es_id = epochID, es_groupID = gid, es_senders = senders, es_expiresAt = None\<rparr>,
          s2\<lparr>ratchets := rs, nextRef := n\<rparr>)))"

subsection \<open>Welcomes\<close>

definition welcomeCipherSuite :: "'c Env \<Rightarrow> bytes \<Rightarrow> session_error + u16" where
  "welcomeCipherSuite E welcome =
     (let welcome' = (case UnmarshalMLSMessage E welcome of
            Inr msg \<Rightarrow> (case mm_Welcome msg of Some w \<Rightarrow> w | None \<Rightarrow> [])
          | Inl _ \<Rightarrow> welcome)
      in mls_wrap ''parse welcome'' (UnmarshalWelcome E welcome'))"

definition joinGroupLocked :: "'c Env \<Rightarrow> bytes \<Rightarrow> 'c Session \<Rightarrow> (bytes, 'c) res" where
  "joinGroupLocked E welcome s =
     (case mlsClient s of
        None \<Rightarrow> \<comment> \<open>the nil dereference is recovered like any other panic\<close>
          (Inl errWelcomePanic, s\<lparr>stats := (stats s)\<lparr>WelcomePanics := WelcomePanics (stats s) + 1\<rparr>\<rparr>)
      | Some c \<Rightarrow>
          (case JoinGroup E c welcome of
             (Returns r, c') \<Rightarrow> (mls_wrap ''join group from welcome'' r, s\<lparr>mlsClient := Some c'\<rparr>)
           | (Panics p, c') \<Rightarrow>
               (Inl errWelcomePanic, s\<lparr>mlsClient := Some c', stats := (stats s)\<lparr>WelcomePanics := WelcomePanics (stats s) + 1\<rparr>\<rparr>)))"

definition externalSenderMatches :: "ExternalSender option \<Rightarrow> ExternalSender option \<Rightarrow> bool" where
  "externalSenderMatches expected actual =
     (case (expected, actual) of
        (Some e, Some a) \<Rightarrow>
          (case (xs_Credential e, xs_Credential a, xs_PublicKey e, xs_PublicKey a) of
             (Some ce, Some ca, Some (Inr ke), Some (Inr ka)) \<Rightarrow> ke = ka \<and> ce = ca
           | _ \<Rightarrow> False)
      | _ \<Rightarrow> False)"

definition validateJoinedWelcomeExternalSenderLocked :: "'c Env \<Rightarrow> bytes \<Rightarrow> 'c Session \<Rightarrow> (unit, 'c) res" where
  "validateJoinedWelcomeExternalSenderLocked E gid s =
     (if length (externalSenderPackage s) = 0 then (Inl ErrNoExternalSender, s)
      else case mls_wrap ''parse expected external sender'' (ParseSingleExternalSender E (externalSenderPackage s)) of
        Inl e \<Rightarrow> (Inl e, s)
      | Inr expected \<Rightarrow>
          sbind (client_read ''read group info for external sender validation'' (\<lambda>c. GroupInfo E c gid) s) (\<lambda>groupInfoBytes s1.
          (ebind (mls_wrap ''parse joined group info'' (UnmarshalGroupInfo E groupInfoBytes)) (\<lambda>extensions.
           case find (\<lambda>(t, _). t = ExtensionTypeExternalSenders E) extensions of
             None \<Rightarrow> Inl ErrInvalidExternalSender
           | Some (_, data) \<Rightarrow>
               ebind (mls_wrap ''parse joined external_senders extension'' (UnmarshalExternalSendersExtension E data)) (\<lambda>senders.
               if length senders \<noteq> 1 then Inl ErrInvalidExternalSender
               else if \<not> externalSenderMatches expected (Some (senders ! 0)) then Inl ErrInvalidExternalSender
               else Inr ())), s1)))"

definition joinPendingWelcomeLocked :: "kdf \<Rightarrow> 'c Env \<Rightarrow> bytes \<Rightarrow> 'c Session \<Rightarrow> (unit, 'c) res" where
  "joinPendingWelcomeLocked kdf E welcome s =
     (case welcomeCipherSuite E welcome of
        Inl e \<Rightarrow> (Inl e, s)
      | Inr suite \<Rightarrow>
          if suite \<noteq> MLS128DHKEMP256 E then (Inl errUnsupportedCipherSuite, s)
          else
            sbind (joinGroupLocked E welcome s) (\<lambda>gid s1.
            sbind (validateJoinedWelcomeExternalSenderLocked E gid s1) (\<lambda>_ s2.
            sbind (rebuildEpochStateLocked kdf E gid (s2\<lparr>groupID := gid, pendingGroupID := gid\<rparr>)) (\<lambda>epoch s3.
            (Inr (), s3\<lparr>pendingEpoch := Some epoch\<rparr>)))))"

subsection \<open>Commits\<close>

definition validateCommitProposalRefs :: "'c Env \<Rightarrow> bytes \<Rightarrow> session_error + unit" where
  "validateCommitProposalRefs E commit =
     ebind (mls_wrap ''parse commit message'' (UnmarshalMLSMessage E commit)) (\<lambda>msg.
     case mm_Public msg of
       None \<Rightarrow> Inl ErrInlineProposalInCommit
     | Some pub \<Rightarrow>
         (case pm_CommitData pub of
            None \<Rightarrow> Inl ErrInlineProposalInCommit
          | Some data \<Rightarrow>
              if length data = 0 then Inl ErrInlineProposalInCommit
              else ebind (mls_wrap ''parse commit body'' (UnmarshalCommit E data)) (\<lambda>proposals.
                if list_ex (\<lambda>p. p \<noteq> None) proposals then Inl ErrInlineProposalInCommit else Inr ())))"

definition processCommitLocked :: "kdf \<Rightarrow> 'c Env \<Rightarrow> bytes \<Rightarrow> 'c Session \<Rightarrow> (unit, 'c) res" where
  "processCommitLocked kdf E commit s =
     (if length (groupID s) = 0 then (Inl ErrNoActiveGroup, s)
      else case validateCommitProposalRefs E commit of
        Inl e \<Rightarrow> (Inl e, s)
      | Inr _ \<Rightarrow>
          sbind (client_call ''process commit'' (ProcessCommit E (groupID s) commit) s) (\<lambda>_ s1.
          sbind (rebuildEpochStateLocked kdf E (groupID s1) s1) (\<lambda>epoch s2.
          (Inr (), s2\<lparr>pendingEpoch := Some epoch, pendingGroupID := groupID s2\<rparr>))))"

subsection \<open>Proposals\<close>

definition proposalAllowedByDAVELocked :: "'c Env \<Rightarrow> MLSMessage \<Rightarrow> session_error + bool" where
  "proposalAllowedByDAVELocked E msg =
     (case mm_Public msg of
        None \<Rightarrow> Inr False
      | Some pubMsg \<Rightarrow>
          if pm_SenderType pubMsg \<noteq> SenderTypeExternal E then Inr False
          else if pm_ContentType pubMsg \<noteq> ContentTypeProposal E then Inr False
          else case pm_ProposalData pubMsg of
            None \<Rightarrow> Inr False
          | Some data \<Rightarrow>
              ebind (mls_wrap [] (UnmarshalProposal E data)) (\<lambda>proposal.
              Inr (pr_Type proposal = ProposalTypeAdd E \<or> pr_Type proposal = ProposalTypeRemove E)))"

definition addProposalUserID :: "'c Env \<Rightarrow> MLSMessage \<Rightarrow> session_error + UserID option" where
  "addProposalUserID E msg =
     (case mm_Public msg of
        None \<Rightarrow> Inr None
      | Some pubMsg \<Rightarrow>
          (case pm_ProposalData pubMsg of
             None \<Rightarrow> Inr None
           | Some data \<Rightarrow>
               ebind (mls_wrap [] (UnmarshalProposal E data)) (\<lambda>proposal.
               if pr_Type proposal \<noteq> ProposalTypeAdd E then Inr None
               else case pr_AddIdentity proposal of
                 None \<Rightarrow> Inr None
               | Some identity \<Rightarrow> ebind (identityBytesToUserID identity) (\<lambda>(uid, _). Inr (Some uid)))))"

text \<open>The checks a message has to pass before it reaches the MLS client; each failure counts as a
  rejected proposal and the loop goes on behind the message. A message that is longer when it is
  marshaled again than the rest of the batch makes Go panic at one of the slice expressions at the end
  of its turn; the model panics before the checks of that turn, so that what they do in such a turn
  (a counter, a call of the client if the capacity allows the first slice) is not described. The
  hypothesis \<open>marshal_ok\<close> excludes it.\<close>

definition proposal_passes :: "'c Env \<Rightarrow> UserID set \<Rightarrow> MLSMessage \<Rightarrow> bool" where
  "proposal_passes E expected msg =
     (case proposalAllowedByDAVELocked E msg of
        Inl _ \<Rightarrow> False
      | Inr allowed \<Rightarrow> allowed \<and>
          (case addProposalUserID E msg of
             Inl _ \<Rightarrow> False
           | Inr None \<Rightarrow> True
           | Inr (Some uid) \<Rightarrow> uid \<in> expected))"

function proposal_loop :: "'c Env \<Rightarrow> bool \<Rightarrow> bytes \<Rightarrow> 'c Session \<Rightarrow> bool \<times> (unit, 'c) res" where
  "proposal_loop E acceptedAny remaining s =
     (if length remaining = 0 then (acceptedAny, Inr (), s)
      else if length remaining < 4 then (acceptedAny, Inl ErrProposalTooShort, s)
      else case UnmarshalMLSMessage E remaining of
        Inl e \<Rightarrow> (acceptedAny, Inl (MlsError ''parse proposal message'' e), s)
      | Inr msg \<Rightarrow>
          (let n = length (mm_Marshal msg) in
           if n = 0 then (acceptedAny, Inl ErrEmptyProposal, s)
           else if length remaining < n then (acceptedAny, go_panic s)
           else if \<not> proposal_passes E (users s) msg then
             proposal_loop E acceptedAny (drop n remaining)
               (s\<lparr>stats := (stats s)\<lparr>ProposalsRejected := ProposalsRejected (stats s) + 1\<rparr>\<rparr>)
           else
             (case client_call ''process proposal public message'' (ProcessPublicMessage E (groupID s) (take n remaining)) s of
                (Inl e, s1) \<Rightarrow> (acceptedAny, Inl e, s1)
              | (Inr _, s1) \<Rightarrow> proposal_loop E True (drop n remaining) s1)))"
  by pat_completeness auto

termination
  by (relation "measure (\<lambda>(E, a, remaining, s). length remaining)") auto

declare proposal_loop.simps [simp del]

definition processRevokeProposalsLocked :: "'c Env \<Rightarrow> bytes \<Rightarrow> 'c Session \<Rightarrow> (unit, 'c) res" where
  "processRevokeProposalsLocked E payload s =
     (case revoke_refs payload of
        Inl e \<Rightarrow> (Inl e, s)
      | Inr refs \<Rightarrow>
          if refs = [] then (Inr (), s)
          else client_call ''revoke proposals'' (RevokeProposals E (groupID s) refs) s)"

definition processProposalBatchLocked :: "'c Env \<Rightarrow> bytes \<Rightarrow> 'c Session \<Rightarrow> bool \<times> (unit, 'c) res" where
  "processProposalBatchLocked E proposals s =
     (if length proposals = 0 then (False, Inr (), s)
      else if length (groupID s) = 0 then (False, Inr (), s)
      else
        (let operationType = proposals ! 0 in
         if operationType = 1 then (False, processRevokeProposalsLocked E (drop 1 proposals) s)
         else if operationType \<noteq> 0 then (False, Inr (), s)
         else case vector_body (drop 1 proposals) of
           Inl e \<Rightarrow> (False, Inl e, s)
         | Inr remaining \<Rightarrow> proposal_loop E False remaining s))"

end
