(* ===== verification/Session_Handlers.thy ===== *)
theory Session_Handlers
  imports Session_Mls
begin

text \<open>
  The protocol handlers of \<open>session/session.go\<close> with the operations of \<open>session/mls.go\<close> that change the epochs
  of a session, the recovery watchdogs of \<open>session/mls.go\<close> and \<open>session/retry.go\<close>, and the transition system
  they form.

  A handler holds \<open>sendMu\<close> for its whole call, so a call is one step, inside which \<open>sendLocked\<close> lets the
  media calls in. A watchdog takes the locks for a part of its work at a time, so it is a small
  state machine (\<open>watchdog\<close>) whose moves are steps of their own: the wait ends, an attempt to send the
  key package is made, the back-off ends, supervision starts anew.
\<close>

section \<open>Epochs, groups and recovery\<close>

subsection \<open>Watchdogs that are started\<close>

definition watchRecoveryLocked :: "session_error option \<Rightarrow> 'c Session \<Rightarrow> 'c Session" where
  "watchRecoveryLocked sendErr s =
     (if maxRecoveryAttempts \<le> recoveryAttempts s then s
      else
        (let s1 = s\<lparr>stats := (stats s)\<lparr>RecoveryAttempts := RecoveryAttempts (stats s) + 1\<rparr>\<rparr>;
             s2 = (if (case sendErr of Some e \<Rightarrow> is_send_failed e | None \<Rightarrow> False)
               then s1\<lparr>stats := (stats s1)\<lparr>RecoveryAttemptsTransport := RecoveryAttemptsTransport (stats s1) + 1\<rparr>\<rparr> else s1)
         in goWatchdog (Waiting (epochReady s2) (pendingTransitionID s2) False) s2))"

definition watchDroppedSendLocked :: "session_error \<Rightarrow> 'c Session \<Rightarrow> 'c Session" where
  "watchDroppedSendLocked err s =
     (if \<not> is_send_failed err then s else watchRecoveryLocked (Some err) (resetEpochReadyLocked s))"

definition sendReadyForTransitionLocked :: "kdf \<Rightarrow> 'c Env \<Rightarrow> u16 \<Rightarrow> 'c Session \<Rightarrow> 'c Session" where
  "sendReadyForTransitionLocked kdf E transitionID s =
     (if \<not> hasCallbacks s then s
      else case sendLocked kdf E (SendReadyForTransition transitionID) s of
        (Inr _, s1) \<Rightarrow> s1
      | (Inl err, s1) \<Rightarrow> if activeEpoch s1 = None then watchDroppedSendLocked err s1 else s1)"

definition invalidateMLSStateLocked :: "'c Env \<Rightarrow> 'c Session \<Rightarrow> 'c Session" where
  "invalidateMLSStateLocked E s =
     (let s1 = s\<lparr>mlsClient := None, groupID := [], pendingGroupID := [], pendingEpoch := None, pendingCommitBytes := [],
            preCommitGroupState := [], proposalQueue := [], pendingKeyPackage := []\<rparr>
      in resetEpochReadyLocked (markDegradedLocked (time_now E 0 s1) s1))"

definition err_of :: "session_error + unit \<Rightarrow> session_error option" where
  "err_of r = (case r of Inl e \<Rightarrow> Some e | Inr _ \<Rightarrow> None)"

definition invalidateAndResendKeyPackageLocked :: "kdf \<Rightarrow> 'c Env \<Rightarrow> 'c Session \<Rightarrow> 'c Session" where
  "invalidateAndResendKeyPackageLocked kdf E s =
     (let (r, s1) = ensurePendingKeyPackageLocked kdf E (invalidateMLSStateLocked E s)
      in watchRecoveryLocked (err_of r) s1)"

subsection \<open>Groups\<close>

definition createGroupWithExternalSenderLocked :: "kdf \<Rightarrow> 'c Env \<Rightarrow> 'c Session \<Rightarrow> (unit, 'c) res" where
  "createGroupWithExternalSenderLocked kdf E s =
     (if 0 < length (groupID s) then (Inr (), s)
      else if length (externalSenderPackage s) = 0 then (Inl ErrNoExternalSender, s)
      else if channelID s = 0 then (Inl ErrNoChannelID, s)
      else
        sbind (ensurePendingKeyPackageLocked kdf E s) (\<lambda>_ s1.
        sbind (client_call ''create mls group'' (CreateGroupWithExternalSender E (BigEndian_PutUint64 (channelID s1))
            (pendingKeyPackage s1) (externalSenderPackage s1)) s1) (\<lambda>gid s2.
        (Inr (), s2\<lparr>groupID := gid\<rparr>))))"

definition restorePreCommitStateLocked :: "'c Env \<Rightarrow> 'c Session \<Rightarrow> (unit, 'c) res" where
  "restorePreCommitStateLocked E s =
     (if length (preCommitGroupState s) = 0 then (Inl ErrNoPreCommitState, s)
      else
        sbind (client_call ''restore pre-commit state'' (SaveGroupState E (groupID s) (preCommitGroupState s)) s) (\<lambda>_ s1.
        (Inr (), s1\<lparr>pendingEpoch := None, pendingGroupID := [], pendingCommitBytes := [], preCommitGroupState := []\<rparr>)))"

text \<open>The payload of opcode 28: the commit and the Welcome without its MLSMessage wrapper.\<close>

definition commit_payload :: "'c Env \<Rightarrow> bytes \<Rightarrow> bytes \<Rightarrow> session_error + bytes" where
  "commit_payload E commit welcome =
     (if 0 < length welcome then
        ebind (mls_wrap ''unwrap welcome message'' (UnmarshalMLSMessage E welcome)) (\<lambda>wMsg.
        case mm_Welcome wMsg of Some w \<Rightarrow> Inr (commit @ w) | None \<Rightarrow> Inl ErrExpectedWelcome)
      else Inr commit)"

text \<open>The end of \<open>commitProposalsLocked\<close>: the commit is handed to the gateway.\<close>

definition send_commit :: "kdf \<Rightarrow> 'c Env \<Rightarrow> bytes \<Rightarrow> 'c Session \<Rightarrow> 'c Session" where
  "send_commit kdf E payload s =
     (if \<not> hasCallbacks s then s
      else case sendLocked kdf E (SendMLSCommitWelcome payload) s of
        (Inl err, s1) \<Rightarrow> watchDroppedSendLocked err (snd (restorePreCommitStateLocked E s1))
      | (Inr _, s1) \<Rightarrow>
          (let s2 = resetEpochReadyLocked s1
           in goWatchdog (Waiting (epochReady s2) (pendingTransitionID s2) True) s2))"

definition commitProposalsLocked :: "kdf \<Rightarrow> 'c Env \<Rightarrow> 'c Session \<Rightarrow> (unit, 'c) res" where
  "commitProposalsLocked kdf E s =
     sbind (client_read ''snapshot pre-commit state'' (\<lambda>c. LoadGroupState E c (groupID s)) s) (\<lambda>preState s1.
     sbind (client_call ''commit pending proposals'' (CommitPendingProposals E (groupID s1)) s1) (\<lambda>(commit, welcome) s2.
     sbind (rebuildEpochStateLocked kdf E (groupID s2) (s2\<lparr>pendingCommitBytes := commit, preCommitGroupState := preState\<rparr>)) (\<lambda>epoch s3.
     let s4 = s3\<lparr>pendingEpoch := Some epoch, pendingGroupID := groupID s3\<rparr> in
     case commit_payload E commit welcome of
       Inl e \<Rightarrow> (Inl e, s4)
     | Inr payload \<Rightarrow> (Inr (), send_commit kdf E payload s4))))"

definition processAndCommitProposalBatchLocked :: "kdf \<Rightarrow> 'c Env \<Rightarrow> bytes \<Rightarrow> 'c Session \<Rightarrow> 'c Session" where
  "processAndCommitProposalBatchLocked kdf E proposals s =
     (case ensureMLSClientLocked E s of
        (Inl _, s1) \<Rightarrow> s1
      | (Inr _, s1) \<Rightarrow>
          (case processProposalBatchLocked E proposals s1 of
             (acceptedAny, Inl _, s2) \<Rightarrow> s2
           | (acceptedAny, Inr _, s2) \<Rightarrow>
               if length (groupID s2) = 0 then s2
               else if 0 < length proposals \<and> proposals ! 0 = 1 then s2
               else if \<not> acceptedAny then s2
               else snd (commitProposalsLocked kdf E s2)))"

subsection \<open>Activation\<close>

text \<open>The loop of \<open>drainProposalQueueLocked\<close>, with the length of the queue as its bound: every turn takes one
  batch off the queue and nothing inside puts one on.\<close>

fun drain_loop :: "kdf \<Rightarrow> 'c Env \<Rightarrow> nat \<Rightarrow> 'c Session \<Rightarrow> 'c Session" where
  "drain_loop kdf E 0 s = s"
| "drain_loop kdf E (Suc n) s =
     (if 0 < length (proposalQueue s) \<and> pendingEpoch s = None
      then drain_loop kdf E n (processAndCommitProposalBatchLocked kdf E (hd (proposalQueue s))
             (s\<lparr>proposalQueue := tl (proposalQueue s)\<rparr>))
      else s)"

definition drainProposalQueueLocked :: "kdf \<Rightarrow> 'c Env \<Rightarrow> 'c Session \<Rightarrow> 'c Session" where
  "drainProposalQueueLocked kdf E s = drain_loop kdf E (length (proposalQueue s)) s"

text \<open>\<open>activatePendingEpochLocked\<close> up to the queue: the epochs change, the previous send ratchet is retained
  or dropped, the new one is taken.\<close>

definition retain_send_ratchet :: "'c Env \<Rightarrow> 'c Session \<Rightarrow> 'c Session" where
  "retain_send_ratchet E s =
     s\<lparr>retainedSendRatchet := sendRatchet s, retainedSendExpiresAt := Some (time_now E 3 s + sendRetentionTTL s),
       stats := (stats s)\<lparr>TransitionWindows := TransitionWindows (stats s) + 1\<rparr>\<rparr>"

definition switch_send_ratchet :: "'c Env \<Rightarrow> epochState option \<Rightarrow> 'c Session \<Rightarrow> 'c Session" where
  "switch_send_ratchet E oldActive s =
     (if sendRatchet s = None then s
      else if newEpochAddsSender oldActive (activeEpoch s)
      then s\<lparr>sendCounter := NonceCounter_Reset (sendCounter s), retainedSendRatchet := None, retainedSendExpiresAt := None\<rparr>
      else retain_send_ratchet E s)"

definition take_own_ratchet :: "'c Env \<Rightarrow> epochState \<Rightarrow> 'c Session \<Rightarrow> 'c Session" where
  "take_own_ratchet E epoch s =
     (case map_of (es_senders epoch) (userID s) of
        Some sender \<Rightarrow>
          signalEpochReadyLocked (markRecoveredLocked (time_now E 4 s)
            (s\<lparr>sendRatchet := Some (ss_ratchet sender), recoveryAttempts := 0\<rparr>))
      | None \<Rightarrow> markDegradedLocked (time_now E 4 s) (s\<lparr>sendRatchet := None\<rparr>))"

definition activate_epoch :: "'c Env \<Rightarrow> epochState \<Rightarrow> 'c Session \<Rightarrow> 'c Session" where
  "activate_epoch E epoch s =
     (let oldActive = activeEpoch s;
          s1 = (case oldActive of
              Some e \<Rightarrow> s\<lparr>retainedEpoch := retainedEpoch s @ [e\<lparr>es_expiresAt := Some (time_now E 1 s + epochRetention)\<rparr>]\<rparr>
            | None \<Rightarrow> s);
          s2 = s1\<lparr>activeEpoch := Some epoch, pendingEpoch := None, sendProtocolVersion := protocolVersion s1\<rparr>;
          s3 = (if protocolVersion s2 \<noteq> 0 \<and> plaintextRejectedFrom s2 = None
            then s2\<lparr>plaintextRejectedFrom := Some (time_now E 2 s2 + plaintextGrace s2)\<rparr> else s2);
          s4 = s3\<lparr>groupID := pendingGroupID s3, pendingGroupID := []\<rparr>;
          s5 = take_own_ratchet E epoch (switch_send_ratchet E oldActive s4)
      in pruneRetainedEpochsLocked (time_now E 5 s5) s5)"

definition activatePendingEpochLocked :: "kdf \<Rightarrow> 'c Env \<Rightarrow> 'c Session \<Rightarrow> 'c Session" where
  "activatePendingEpochLocked kdf E s =
     (case pendingEpoch s of
        None \<Rightarrow> s
      | Some epoch \<Rightarrow> drainProposalQueueLocked kdf E (activate_epoch E epoch s))"

definition activateSoleMemberEpochLocked :: "kdf \<Rightarrow> 'c Env \<Rightarrow> 'c Session \<Rightarrow> 'c Session" where
  "activateSoleMemberEpochLocked kdf E s =
     (if length (groupID s) = 0 \<and> length (externalSenderPackage s) = 0 then s
      else case (if length (groupID s) = 0 then createGroupWithExternalSenderLocked kdf E s else (Inr (), s)) of
        (Inl err, s1) \<Rightarrow> watchDroppedSendLocked err s1
      | (Inr _, s1) \<Rightarrow>
          (case (if pendingEpoch s1 = None
                 then sbind (rebuildEpochStateLocked kdf E (groupID s1) s1) (\<lambda>epoch s2.
                   (Inr (), s2\<lparr>pendingEpoch := Some epoch, pendingGroupID := groupID s2\<rparr>))
                 else (Inr (), s1)) of
             (Inl _, s2) \<Rightarrow> s2
           | (Inr _, s2) \<Rightarrow> activatePendingEpochLocked kdf E s2))"

section \<open>Handlers\<close>

text \<open>\<open>haveSendMu\<close> is the result of \<open>TryLock\<close>.\<close>

definition SetChannelID :: "kdf \<Rightarrow> 'c Env \<Rightarrow> bool \<Rightarrow> u64 \<Rightarrow> 'c Session \<Rightarrow> 'c Session" where
  "SetChannelID kdf E haveSendMu cid s =
     (let groupDeferred = (channelID s = 0 \<and> 0 < length (externalSenderPackage s));
          s1 = s\<lparr>channelID := cid\<rparr>
      in if \<not> groupDeferred then s1
         else if \<not> haveSendMu \<or> length (pendingKeyPackage s1) = 0 then s1
         else snd (createGroupWithExternalSenderLocked kdf E s1))"

text \<open>The part \<open>OnSelectProtocolAck\<close> and \<open>OnDavePrepareEpoch\<close> share: all group state is cleared.\<close>

definition clear_group_state :: "'c Session \<Rightarrow> 'c Session" where
  "clear_group_state s = s\<lparr>activeEpoch := None, pendingEpoch := None, retainedEpoch := [], groupID := [], pendingGroupID := [],
     pendingCommitBytes := [], preCommitGroupState := [], proposalQueue := []\<rparr>"

definition park_send_ratchet :: "'c Env \<Rightarrow> 'c Session \<Rightarrow> 'c Session" where
  "park_send_ratchet E s =
     (if sendRatchet s \<noteq> None then retain_send_ratchet E s else s)\<lparr>sendRatchet := None\<rparr>"

definition prepare_key_package :: "kdf \<Rightarrow> 'c Env \<Rightarrow> 'c Session \<Rightarrow> 'c Session" where
  "prepare_key_package kdf E s =
     (case ensurePendingKeyPackageLocked kdf E s of
        (Inr _, s1) \<Rightarrow> s1
      | (Inl err, s1) \<Rightarrow> watchDroppedSendLocked err s1)"

definition OnSelectProtocolAck :: "kdf \<Rightarrow> 'c Env \<Rightarrow> u16 \<Rightarrow> 'c Session \<Rightarrow> 'c Session" where
  "OnSelectProtocolAck kdf E version s =
     (let s1 = setTransportOnlyLocked (version = 0) (s\<lparr>protocolVersion := version, sendProtocolVersion := version\<rparr>);
          s2 = resetEpochReadyLocked ((clear_group_state s1)\<lparr>recoveryAttempts := 0\<rparr>);
          s3 = (endDegradedLocked (time_now E 0 s2) s2)\<lparr>pendingKeyPackage := [], mlsClient := None\<rparr>
      in if version = 0 then dropSendKeysLocked s3
         else prepare_key_package kdf E (park_send_ratchet E s3))"

definition OnDavePrepareTransition :: "kdf \<Rightarrow> 'c Env \<Rightarrow> u16 \<Rightarrow> u16 \<Rightarrow> 'c Session \<Rightarrow> 'c Session" where
  "OnDavePrepareTransition kdf E transitionID version s =
     (if transitionID = 0 \<and> activeEpoch s \<noteq> None then s
      else
        (let s1 = s\<lparr>pendingTransitionID := transitionID, protocolVersion := version\<rparr> in
         if transitionID = 0 then
           (activateSoleMemberEpochLocked kdf E (s1\<lparr>activeTransitionID := 0, sendProtocolVersion := version\<rparr>))
             \<lparr>pendingTransitionID := 0\<rparr>
         else if version = 0 \<and> hasCallbacks s1 then snd (sendLocked kdf E (SendReadyForTransition transitionID) s1)
         else s1))"

definition OnDaveExecuteTransition :: "kdf \<Rightarrow> 'c Env \<Rightarrow> u16 \<Rightarrow> 'c Session \<Rightarrow> 'c Session" where
  "OnDaveExecuteTransition kdf E transitionID s =
     (if transitionID \<noteq> pendingTransitionID s then s
      else
        (let s1 = setTransportOnlyLocked (protocolVersion s = 0)
               (s\<lparr>activeTransitionID := transitionID, sendProtocolVersion := protocolVersion s\<rparr>)
         in if protocolVersion s1 = 0 then
              resetEpochReadyLocked ((dropSendKeysLocked (s1\<lparr>stats := (stats s1)\<lparr>DowngradeToV0 := DowngradeToV0 (stats s1) + 1\<rparr>\<rparr>))
                \<lparr>pendingEpoch := None, pendingGroupID := [], pendingCommitBytes := [], preCommitGroupState := [], groupID := []\<rparr>)
            else (activatePendingEpochLocked kdf E s1)\<lparr>pendingTransitionID := 0\<rparr>))"

definition OnDavePrepareEpoch :: "kdf \<Rightarrow> 'c Env \<Rightarrow> int \<Rightarrow> u16 \<Rightarrow> 'c Session \<Rightarrow> 'c Session" where
  "OnDavePrepareEpoch kdf E epoch version s =
     (let s1 = s\<lparr>protocolVersion := version\<rparr> in
      if epoch \<noteq> 1 then s1
      else
        (let s2 = setTransportOnlyLocked (version = 0) s1;
             s3 = (if activeEpoch s2 \<noteq> None \<and> \<not> transportOnly s2 \<and> degradedSince s2 = None
               then s2\<lparr>degradedSince := Some (time_now E 0 s2)\<rparr> else s2);
             s4 = park_send_ratchet E (resetEpochReadyLocked (clear_group_state s3))
         in prepare_key_package kdf E (s4\<lparr>pendingKeyPackage := [], mlsClient := None\<rparr>)))"

definition OnDaveMLSExternalSenderPackage :: "kdf \<Rightarrow> 'c Env \<Rightarrow> bytes \<Rightarrow> 'c Session \<Rightarrow> 'c Session" where
  "OnDaveMLSExternalSenderPackage kdf E package s =
     (case createGroupWithExternalSenderLocked kdf E (s\<lparr>externalSenderPackage := package\<rparr>) of
        (Inr _, s1) \<Rightarrow> s1
      | (Inl err, s1) \<Rightarrow> if err = ErrNoChannelID then s1 else watchDroppedSendLocked err s1)"

definition OnDaveMLSProposals :: "kdf \<Rightarrow> 'c Env \<Rightarrow> bytes \<Rightarrow> 'c Session \<Rightarrow> 'c Session" where
  "OnDaveMLSProposals kdf E proposals s =
     (let s1 = s\<lparr>lastProposalBatch := proposals\<rparr> in
      if pendingEpoch s1 \<noteq> None then s1\<lparr>proposalQueue := proposalQueue s1 @ [proposals]\<rparr>
      else processAndCommitProposalBatchLocked kdf E proposals s1)"

definition reconcileCompetingCommitLocked :: "kdf \<Rightarrow> 'c Env \<Rightarrow> u16 \<Rightarrow> bytes \<Rightarrow> 'c Session \<Rightarrow> bool \<times> 'c Session" where
  "reconcileCompetingCommitLocked kdf E transitionID commitMessage s =
     (case (if 0 < length (pendingCommitBytes s) then restorePreCommitStateLocked E s else (Inr (), s)) of
        (Inl _, s1) \<Rightarrow> (False, sendInvalidCommitWelcomeLocked kdf E transitionID s1)
      | (Inr _, s1) \<Rightarrow>
          (case processCommitLocked kdf E commitMessage s1 of
             (Inl _, s2) \<Rightarrow>
               (False, invalidateAndResendKeyPackageLocked kdf E (sendInvalidCommitWelcomeLocked kdf E transitionID
                  (s2\<lparr>stats := (stats s2)\<lparr>CommitsFailed := CommitsFailed (stats s2) + 1\<rparr>\<rparr>)))
           | (Inr _, s2) \<Rightarrow> (True, s2\<lparr>stats := (stats s2)\<lparr>CommitsProcessed := CommitsProcessed (stats s2) + 1\<rparr>\<rparr>)))"

text \<open>The common end of \<open>OnDaveMLSPrepareCommitTransition\<close> and \<open>OnDaveMLSWelcome\<close>.\<close>

definition finish_transition :: "kdf \<Rightarrow> 'c Env \<Rightarrow> u16 \<Rightarrow> 'c Session \<Rightarrow> 'c Session" where
  "finish_transition kdf E transitionID s =
     (if transitionID \<noteq> 0 then sendReadyForTransitionLocked kdf E transitionID s
      else (activatePendingEpochLocked kdf E (s\<lparr>activeTransitionID := 0\<rparr>))\<lparr>pendingTransitionID := 0\<rparr>)"

definition OnDaveMLSPrepareCommitTransition :: "kdf \<Rightarrow> 'c Env \<Rightarrow> u16 \<Rightarrow> bytes \<Rightarrow> 'c Session \<Rightarrow> 'c Session" where
  "OnDaveMLSPrepareCommitTransition kdf E transitionID commitMessage s =
     (case ensureMLSClientLocked E (s\<lparr>pendingTransitionID := transitionID\<rparr>) of
        (Inl _, s1) \<Rightarrow> s1
      | (Inr _, s1) \<Rightarrow>
          (case (if pendingEpoch s1 \<noteq> None \<and> pendingCommitBytes s1 = commitMessage
                 then (True, s1\<lparr>pendingCommitBytes := [], preCommitGroupState := []\<rparr>)
                 else reconcileCompetingCommitLocked kdf E transitionID commitMessage s1) of
             (False, s2) \<Rightarrow> s2
           | (True, s2) \<Rightarrow> finish_transition kdf E transitionID s2))"

definition OnDaveMLSWelcome :: "kdf \<Rightarrow> 'c Env \<Rightarrow> u16 \<Rightarrow> bytes \<Rightarrow> 'c Session \<Rightarrow> 'c Session" where
  "OnDaveMLSWelcome kdf E transitionID welcomeMessage s =
     (let s1 = s\<lparr>pendingTransitionID := transitionID\<rparr> in
      case (if 0 < length (pendingCommitBytes s1)
            then sbind (restorePreCommitStateLocked E s1) (\<lambda>_ s2. (Inr (), s2\<lparr>proposalQueue := []\<rparr>))
            else (Inr (), s1)) of
        (Inl _, s2) \<Rightarrow> sendInvalidCommitWelcomeLocked kdf E transitionID s2
      | (Inr _, s2) \<Rightarrow>
          (case ensureMLSClientLocked E s2 of
             (Inl _, s3) \<Rightarrow> s3
           | (Inr _, s3) \<Rightarrow>
               (case joinPendingWelcomeLocked kdf E welcomeMessage s3 of
                  (Inl _, s4) \<Rightarrow>
                    invalidateAndResendKeyPackageLocked kdf E (sendInvalidCommitWelcomeLocked kdf E transitionID
                      (s4\<lparr>stats := (stats s4)\<lparr>WelcomesFailed := WelcomesFailed (stats s4) + 1\<rparr>\<rparr>))
                | (Inr _, s4) \<Rightarrow>
                    finish_transition kdf E transitionID
                      (s4\<lparr>stats := (stats s4)\<lparr>WelcomesJoined := WelcomesJoined (stats s4) + 1\<rparr>\<rparr>))))"

subsection \<open>Verification codes\<close>

definition session_EpochAuthenticator :: "'c Env \<Rightarrow> 'c Session \<Rightarrow> session_error + bytes" where
  "session_EpochAuthenticator E s =
     (case mlsClient s of
        None \<Rightarrow> Inl ErrNoActiveEpoch
      | Some c \<Rightarrow>
          if length (groupID s) = 0 \<or> activeEpoch s = None then Inl ErrNoActiveEpoch
          else ebind (mls_wrap [] (ClientEpochAuthenticator E c (groupID s))) (\<lambda>secret.
            if length secret = 0 then Inl ErrNoActiveEpoch else Inr secret))"

definition EpochAuthenticatorCode :: "'c Env \<Rightarrow> 'c Session \<Rightarrow> session_error + string" where
  "EpochAuthenticatorCode E s =
     ebind (session_EpochAuthenticator E s) (\<lambda>secret.
     case DisplayableCode secret 30 5 of Inl e \<Rightarrow> Inl (MediaKeysError e) | Inr code \<Rightarrow> Inr code)"

section \<open>Watchdogs\<close>

text \<open>\<open>strings.Contains\<close>.\<close>

definition contains_text :: "string \<Rightarrow> string \<Rightarrow> bool" where
  "contains_text pat txt \<longleftrightarrow> list_ex (\<lambda>i. take (length pat) (drop i txt) = pat) [0..<Suc (length txt)]"

definition isShardNotReady :: "session_error \<Rightarrow> bool" where
  "isShardNotReady err \<longleftrightarrow> contains_text ''shard is not ready'' (error_text err)"

definition sendAttempt :: "kdf \<Rightarrow> 'c Env \<Rightarrow> nat \<Rightarrow> bytes \<Rightarrow> 'c Session \<Rightarrow> (unit, 'c) res" where
  "sendAttempt kdf E ready kp s =
     (if shutdown s then (Inl ContextCanceled, s)
      else if isClosed s ready then (Inl errSuperseded, s)
      else sendKeyPackageLocked kdf E kp s)"

text \<open>\<open>retrySend\<close> is entered, makes one attempt, and is left; leaving it adds up the time spent. The deferred
  function that does so takes only \<open>mu\<close>, so that in Go it can also run while a handler sends; here it runs
  between handlers. It touches one statistics counter that nothing reads but \<open>Stats\<close>.\<close>

definition retry_enter :: "nat \<Rightarrow> bytes \<Rightarrow> 'c Session \<Rightarrow> watchdog" where
  "retry_enter ready kp s =
     (if 0 < rc_maxAttempts (retry s) then Sending ready kp 0 (rc_delay (retry s)) None else Finishing ready None)"

definition retry_leave :: "'c Env \<Rightarrow> int option \<Rightarrow> 'c Session \<Rightarrow> 'c Session" where
  "retry_leave E retryStart s =
     (case retryStart of
        None \<Rightarrow> s
      | Some t \<Rightarrow> s\<lparr>stats := (stats s)\<lparr>TransportRetryDuration := TransportRetryDuration (stats s) + (time_now E 1 s - t)\<rparr>\<rparr>)"

definition retry_attempt ::
    "kdf \<Rightarrow> 'c Env \<Rightarrow> nat \<Rightarrow> bytes \<Rightarrow> nat \<Rightarrow> int \<Rightarrow> int option \<Rightarrow> 'c Session \<Rightarrow> watchdog \<times> 'c Session" where
  "retry_attempt kdf E ready kp i delay retryStart s =
     (case sendAttempt kdf E ready kp s of
        (Inr _, s1) \<Rightarrow> (Finishing ready None, retry_leave E retryStart s1)
      | (Inl err, s1) \<Rightarrow>
          if \<not> isShardNotReady err \<or> Suc i = rc_maxAttempts (retry s1)
          then (Finishing ready (Some err), retry_leave E retryStart s1)
          else (Backoff ready kp i delay (case retryStart of None \<Rightarrow> Some (time_now E 0 s1) | Some t \<Rightarrow> Some t), s1))"

definition backoff_next :: "int \<Rightarrow> 'c Session \<Rightarrow> int" where
  "backoff_next delay s = min (2 * delay) (rc_maxDelay (retry s))"

text \<open>\<open>recoverAfterTimeout\<close> before and after \<open>retrySend\<close>.\<close>

definition recover_begin :: "kdf \<Rightarrow> 'c Env \<Rightarrow> nat \<Rightarrow> u16 \<Rightarrow> bool \<Rightarrow> 'c Session \<Rightarrow> watchdog option \<times> 'c Session" where
  "recover_begin kdf E ready transitionID needsPending s =
     (if shutdown s \<or> isClosed s ready \<or> (needsPending \<and> pendingEpoch s = None) then (None, s)
      else
        (let s1 = sendInvalidCommitWelcomeLocked kdf E transitionID (s\<lparr>recoveryAttempts := Suc (recoveryAttempts s)\<rparr>);
             s2 = invalidateMLSStateLocked E s1
         in case freshKeyPackageLocked E s2 of
              (Inr kp, s3) \<Rightarrow> (Some (retry_enter (epochReady s2) kp s3), s3)
            | (Inl err, s3) \<Rightarrow> (Some (Finishing (epochReady s2) (Some err)), s3)))"

definition recover_finish :: "nat \<Rightarrow> session_error option \<Rightarrow> 'c Session \<Rightarrow> 'c Session" where
  "recover_finish ready err s = (if shutdown s \<or> isClosed s ready then s else watchRecoveryLocked err s)"

text \<open>The moves of a watchdog, with what it becomes; \<open>None\<close> when its goroutine ends.\<close>

inductive watchdog_move ::
    "kdf \<Rightarrow> ('c Env \<Rightarrow> bool) \<Rightarrow> watchdog \<Rightarrow> 'c Session \<Rightarrow> watchdog option \<Rightarrow> 'c Session \<Rightarrow> bool"
  for kdf :: kdf and Ok :: "'c Env \<Rightarrow> bool" where
  wait_over: "isClosed s ready \<or> shutdown s \<Longrightarrow> watchdog_move kdf Ok (Waiting ready tid np) s None s"
| wait_timeout: "Ok E \<Longrightarrow> recover_begin kdf E ready tid np s = (w, s') \<Longrightarrow> watchdog_move kdf Ok (Waiting ready tid np) s w s'"
| attempt: "Ok E \<Longrightarrow> retry_attempt kdf E ready kp i delay start s = (w, s') \<Longrightarrow>
    watchdog_move kdf Ok (Sending ready kp i delay start) s (Some w) s'"
| backoff_timer: "watchdog_move kdf Ok (Backoff ready kp i delay start) s
    (Some (Sending ready kp (Suc i) (backoff_next delay s) start)) s"
| backoff_ready: "Ok E \<Longrightarrow> isClosed s ready \<Longrightarrow> watchdog_move kdf Ok (Backoff ready kp i delay start) s
    (Some (Finishing ready (Some errSuperseded))) (retry_leave E start s)"
| backoff_shutdown: "Ok E \<Longrightarrow> shutdown s \<Longrightarrow> watchdog_move kdf Ok (Backoff ready kp i delay start) s
    (Some (Finishing ready (Some ContextCanceled))) (retry_leave E start s)"
| finish: "watchdog_move kdf Ok (Finishing ready err) s None (recover_finish ready err s)"

definition swap_watchdog :: "watchdog \<Rightarrow> watchdog option \<Rightarrow> 'c Session \<Rightarrow> 'c Session" where
  "swap_watchdog w w' s =
     s\<lparr>watchdogs := remove1 w (watchdogs s) @ (case w' of None \<Rightarrow> [] | Some x \<Rightarrow> [x])\<rparr>"

section \<open>The transition system\<close>

text \<open>The calls the voice layer makes, one constructor per handler.\<close>

datatype handler_call =
    SelectProtocolAck u16
  | PrepareTransition u16 u16
  | ExecuteTransition u16
  | PrepareEpoch int u16
  | ExternalSenderPackage bytes
  | MLSProposals bytes
  | PrepareCommitTransition u16 bytes
  | MLSWelcome u16 bytes
  | CallSetChannelID bool u64

fun handle :: "kdf \<Rightarrow> 'c Env \<Rightarrow> handler_call \<Rightarrow> 'c Session \<Rightarrow> 'c Session" where
  "handle kdf E (SelectProtocolAck v) s = OnSelectProtocolAck kdf E v s"
| "handle kdf E (PrepareTransition tid v) s = OnDavePrepareTransition kdf E tid v s"
| "handle kdf E (ExecuteTransition tid) s = OnDaveExecuteTransition kdf E tid s"
| "handle kdf E (PrepareEpoch epoch v) s = OnDavePrepareEpoch kdf E epoch v s"
| "handle kdf E (ExternalSenderPackage package) s = OnDaveMLSExternalSenderPackage kdf E package s"
| "handle kdf E (MLSProposals proposals) s = OnDaveMLSProposals kdf E proposals s"
| "handle kdf E (PrepareCommitTransition tid commit) s = OnDaveMLSPrepareCommitTransition kdf E tid commit s"
| "handle kdf E (MLSWelcome tid welcome) s = OnDaveMLSWelcome kdf E tid welcome s"
| "handle kdf E (CallSetChannelID haveSendMu cid) s = SetChannelID kdf E haveSendMu cid s"

inductive watchdog_step :: "kdf \<Rightarrow> ('c Env \<Rightarrow> bool) \<Rightarrow> 'c Session \<Rightarrow> 'c Session \<Rightarrow> bool"
  for kdf :: kdf and Ok :: "'c Env \<Rightarrow> bool" where
  "w \<in> set (watchdogs s) \<Longrightarrow> watchdog_move kdf Ok w s w' s' \<Longrightarrow> watchdog_step kdf Ok s (swap_watchdog w w' s')"

text \<open>\<open>Ok\<close> restricts the environments; \<open>\<lambda>_. True\<close> allows all of them.\<close>

inductive session_step :: "kdf \<Rightarrow> ('c Env \<Rightarrow> bool) \<Rightarrow> 'c Session \<Rightarrow> 'c Session \<Rightarrow> bool"
  for kdf :: kdf and Ok :: "'c Env \<Rightarrow> bool" where
  handler: "Ok E \<Longrightarrow> session_step kdf Ok s (handle kdf E h s)"
| free: "session_step kdf Ok s (free_step kdf op s)"
| watchdog: "watchdog_step kdf Ok s s' \<Longrightarrow> session_step kdf Ok s s'"

inductive reachable :: "kdf \<Rightarrow> ('c Env \<Rightarrow> bool) \<Rightarrow> 'c Session \<Rightarrow> bool"
  for kdf :: kdf and Ok :: "'c Env \<Rightarrow> bool" where
  start: "reachable kdf Ok (New uid callbacks opts)"
| step: "reachable kdf Ok s \<Longrightarrow> session_step kdf Ok s s' \<Longrightarrow> reachable kdf Ok s'"

inductive_cases watchdog_stepE: "watchdog_step kdf Ok s s'"
inductive_cases session_stepE: "session_step kdf Ok s s'"
inductive_simps finishing_move: "watchdog_move kdf Ok (Finishing ready err) s w' s'"

end
