(* ===== verification/Session_Invariants.thy ===== *)
theory Session_Invariants
  imports Session_Handlers
begin

text \<open>
  Invariants of sessions. The handlers change a session in many fields, but the epochs, the send keys, the
  channels and the watchdogs (its \<open>core\<close>) only in a few ways. Three locales state those ways as laws
  and prove once what follows: \<open>epoch_keeping\<close> for the operations below the handlers, \<open>handler_invariant\<close>
  for the handlers and the moves of the watchdogs, \<open>session_invariant\<close> for every reachable session.
  The invariants of the later theories are instances of these three.
\<close>

section \<open>What the media calls change\<close>

text \<open>The users of an epoch with their ratchets. \<open>same_keys\<close> says that two sessions agree on who has which
  ratchet, on the send ratchet, the store's references and the watchdogs.\<close>

definition epoch_refs :: "epochState \<Rightarrow> (UserID \<times> rref) list" where
  "epoch_refs e = map (\<lambda>(u, x). (u, ss_ratchet x)) (es_senders e)"

definition same_keys :: "'c Session \<Rightarrow> 'c Session \<Rightarrow> bool" where
  "same_keys s s' \<longleftrightarrow> userID s' = userID s \<and> retry s' = retry s \<and> sendRatchet s' = sendRatchet s \<and> nextRef s' = nextRef s
     \<and> watchdogs s' = watchdogs s \<and> dom (ratchets s') = dom (ratchets s)
     \<and> map_option epoch_refs (activeEpoch s') = map_option epoch_refs (activeEpoch s)
     \<and> map_option epoch_refs (pendingEpoch s') = map_option epoch_refs (pendingEpoch s)
     \<and> epoch_refs ` set (retainedEpoch s') \<subseteq> epoch_refs ` set (retainedEpoch s)"

lemma refresh_cipher_fields:
  "refresh_cipher k s = Inr s' \<Longrightarrow> same_keys s s' \<and> sendCounter s' = sendCounter s \<and> sealed s' = sealed s
     \<and> retainedSendRatchet s' = retainedSendRatchet s"
  by (auto simp: refresh_cipher_def same_keys_def split: if_splits sum.splits)

lemma encrypt_frame_fields:
  assumes "encrypt_frame kdf clk ref s ssrc f dst = (res, s')"
  shows "same_keys s s' \<and> sendCounter s' = (sendCounter s)\<lparr>counter := next_counter s\<rparr> \<and> sealed s' = sealed s @ [(ref, next_counter s)]
     \<and> retainedSendRatchet s' = retainedSendRatchet s"
proof -
  let ?s3 = "s\<lparr>sendCounter := (sendCounter s)\<lparr>counter := next_counter s\<rparr>, sealed := sealed s @ [(ref, next_counter s)]\<rparr>"
  let ?g = "ucast (drop_bit 24 (next_counter s)) :: u32"
  have nx: "NonceCounter_Next (sendCounter s) = ((next_counter s, ucast (next_counter s), ?g), (sendCounter s)\<lparr>counter := next_counter s\<rparr>)"
    by (simp add: NonceCounter_Next_def next_counter_def Let_def)
  show ?thesis
  proof (cases "ratchets s ref")
    case None
    then show ?thesis using assms by (auto simp: encrypt_frame_def nx Let_def same_keys_def)
  next
    case (Some r)
    obtain x r1 where g: "GetKey kdf (\<lambda>i. clk (Suc i)) r ?g = (x, r1)" by fastforce
    have d: "insert ref (dom (ratchets s)) = dom (ratchets s)" using Some by blast
    show ?thesis
    proof (cases x)
      case (Inl e)
      then show ?thesis using assms g Some d by (auto simp: encrypt_frame_def nx Let_def same_keys_def count_encrypt_failure_def)
    next
      case (Inr k)
      let ?s4 = "?s3\<lparr>ratchets := (ratchets s)(ref \<mapsto> Commit kdf r1 ?g)\<rparr>"
      have s4: "same_keys s ?s4" using d by (simp add: same_keys_def)
      show ?thesis
      proof (cases "refresh_cipher k ?s4")
        case (Inl e)
        then show ?thesis using assms g Some Inr s4 by (auto simp: encrypt_frame_def nx Let_def same_keys_def count_encrypt_failure_def)
      next
        case s5: (Inr s5)
        have "s' = s5 \<or> s' = count_encrypt_failure s5"
          using assms g Some Inr s5 by (simp add: encrypt_frame_def nx Let_def split: sum.splits)
        then show ?thesis using refresh_cipher_fields [OF s5] s4
          by (elim disjE) (simp_all add: same_keys_def count_encrypt_failure_def)
      qed
    qed
  qed
qed

lemma put_sender_refs:
  "map_of xs uid = Some x \<Longrightarrow> ss_ratchet x' = ss_ratchet x \<Longrightarrow>
     map (\<lambda>(u, x). (u, ss_ratchet x)) (put_sender uid x' xs) = map (\<lambda>(u, x). (u, ss_ratchet x)) xs"
  by (induction xs) (auto split: if_splits)

lemma decrypt_candidate_refs:
  assumes "decrypt_candidate kdf clk uid f tn dst e rs = (res, e', rs')"
  shows "epoch_refs e' = epoch_refs e \<and> dom rs' = dom rs"
proof -
  have b: "dom rs' = dom rs" if "bases rs' = bases rs"
  proof -
    have "dom (bases rs') = dom (bases rs)" using that by simp
    then show ?thesis by (simp add: bases_def dom_def)
  qed
  from assms show ?thesis
  proof (cases rule: decrypt_candidate_cases)
    case (auth x x' r k r1 pt tn' w full)
    have "ss_ratchet x' = ss_ratchet x" using auth(7) by simp
    from put_sender_refs [OF auth(1) this] show ?thesis using auth(3,8,9) by (auto simp: epoch_refs_def)
  qed (use b in auto)
qed

lemma decrypt_loop_refs:
  "decrypt_loop kdf clk i uid f tn dst es rs le n = (res, le', n', es', rs') \<Longrightarrow>
    map epoch_refs es' = map epoch_refs es \<and> dom rs' = dom rs"
proof (induction es arbitrary: i rs le n res le' n' es' rs')
  case (Cons e es)
  obtain r e1 rs1 where c: "decrypt_candidate kdf (clk (Suc i)) uid f tn dst e rs = (r, e1, rs1)" by (metis prod.exhaust)
  note cr = decrypt_candidate_refs [OF c]
  show ?case
  proof (cases "\<exists>x. r = Return x")
    case True
    then obtain x where "r = Return x" by blast
    then have "es' = e1 # es" "rs' = rs1" using Cons.prems c by simp_all
    then show ?thesis using cr by simp
  next
    case False
    from decrypt_loop_next [OF Cons.prems c False] obtain le1 n1 es2 where
      "decrypt_loop kdf clk (Suc i) uid f tn dst es rs1 le1 n1 = (res, le', n', es2, rs')" "es' = e1 # es2" by blast
    from Cons.IH [OF this(1)] this(2) show ?thesis using cr by simp
  qed
qed simp

lemma sealed_put_candidates: "sealed (put_candidates es s) = sealed s"
  by (simp add: put_candidates_def Let_def)

lemma put_candidates_refs:
  assumes "map epoch_refs es = map epoch_refs (candidates s)"
  shows "map_option epoch_refs (activeEpoch (put_candidates es s)) = map_option epoch_refs (activeEpoch s)
    \<and> map_option epoch_refs (pendingEpoch (put_candidates es s)) = map_option epoch_refs (pendingEpoch s)
    \<and> map epoch_refs (retainedEpoch (put_candidates es s)) = map epoch_refs (retainedEpoch s)"
  using assms by (cases "activeEpoch s"; cases "pendingEpoch s") (auto simp: put_candidates_def candidates_def Let_def map_eq_Cons_conv)

lemma session_Decrypt_fields:
  assumes "session_Decrypt kdf clk s uid f dst = (res, s')"
  shows "same_keys s s' \<and> sendCounter s' = sendCounter s \<and> sealed s' = sealed s \<and> retainedSendRatchet s' = retainedSendRatchet s"
proof (cases "LooksLikeDAVEFrame f \<and> (\<exists>p. Parse f = Inr p)")
  case False
  then have "s' = s \<or> s' = count_decrypt_failure s"
    using assms by (cases "Parse f") (auto simp: session_Decrypt_def split: if_splits)
  then show ?thesis by (auto simp: same_keys_def count_decrypt_failure_def)
next
  case True
  then obtain p where p: "LooksLikeDAVEFrame f" "Parse f = Inr p" by blast
  let ?s1 = "pruneRetainedEpochsLocked (clk 0 0) s"
  obtain r le n es rs where l: "decrypt_loop kdf clk 0 uid f (pf_TruncatedNonce p) dst (candidates ?s1) (ratchets ?s1) None 0 = (r, le, n, es, rs)"
    by (metis prod_cases5)
  let ?s2 = "?s1\<lparr>ratchets := rs, stats := (stats ?s1)\<lparr>RejectedReplayFrames := RejectedReplayFrames (stats ?s1) + n\<rparr>\<rparr>"
  have "s' = put_candidates es ?s2 \<or> s' = count_decrypt_failure (put_candidates es ?s2)"
    using assms p l by (auto simp: session_Decrypt_def Let_def split: option.splits)
  moreover have "same_keys s (put_candidates es ?s2)"
  proof -
    note d = decrypt_loop_refs [OF l]
    have "candidates ?s2 = candidates ?s1" by (simp add: candidates_def)
    from put_candidates_refs [of es ?s2] d this
    have "map_option epoch_refs (activeEpoch (put_candidates es ?s2)) = map_option epoch_refs (activeEpoch s)"
      "map_option epoch_refs (pendingEpoch (put_candidates es ?s2)) = map_option epoch_refs (pendingEpoch s)"
      "map epoch_refs (retainedEpoch (put_candidates es ?s2)) = map epoch_refs (retainedEpoch ?s1)"
      by (simp_all add: pruneRetainedEpochsLocked_def)
    moreover have "epoch_refs ` set (retainedEpoch (put_candidates es ?s2)) = epoch_refs ` set (retainedEpoch ?s1)"
      using calculation(3) by (metis list.set_map)
    moreover have "epoch_refs ` set (retainedEpoch ?s1) \<subseteq> epoch_refs ` set (retainedEpoch s)" by (auto simp: pruneRetainedEpochsLocked_def)
    ultimately show ?thesis using d
      by (simp add: same_keys_def) (simp add: pruneRetainedEpochsLocked_def put_candidates_def Let_def)
  qed
  ultimately show ?thesis
    by (elim disjE) (simp_all add: same_keys_def count_decrypt_failure_def sealed_put_candidates, simp_all add: pruneRetainedEpochsLocked_def)
qed

lemma select_same: "selectSendRatchetLocked now s = (x, s1) \<Longrightarrow> same_keys s s1 \<and> sealed s1 = sealed s"
  by (auto simp: selectSendRatchetLocked_def same_keys_def split: option.splits if_splits)

lemma same_keys_trans: "same_keys s s1 \<Longrightarrow> same_keys s1 s2 \<Longrightarrow> same_keys s s2"
  by (simp add: same_keys_def) (blast intro: subset_trans)

lemma session_Encrypt_fields:
  assumes "session_Encrypt kdf clk s ssrc f dst = (res, s')"
  obtains (none) s1 where "selectSendRatchetLocked (clk 0) s = (None, s1)" "same_keys s s'" "sealed s' = sealed s"
      "sendCounter s' = sendCounter s1" "retainedSendRatchet s' = retainedSendRatchet s1"
  | (ratchet) ref s1 where "selectSendRatchetLocked (clk 0) s = (Some ref, s1)" "same_keys s s'"
      "sealed s' = sealed s @ [(ref, next_counter s1)]" "sendCounter s' = (sendCounter s1)\<lparr>counter := next_counter s1\<rparr>"
      "retainedSendRatchet s' = retainedSendRatchet s1"
proof -
  obtain x s1 where sel: "selectSendRatchetLocked (clk 0) s = (x, s1)" by fastforce
  note ss = select_same [OF sel]
  show thesis
  proof (cases x)
    case None
    have "\<exists>st. s' = s1\<lparr>stats := st\<rparr>"
      using assms sel None by (auto simp: session_Encrypt_def count_encrypt_failure_def split: if_splits)
    then obtain st where "s' = s1\<lparr>stats := st\<rparr>" by blast
    then show thesis by (intro none [OF sel [unfolded None]]) (use ss in \<open>simp_all add: same_keys_def\<close>)
  next
    case (Some ref)
    let ?s2 = "if retainedSendRatchet s1 \<noteq> None
      then s1\<lparr>stats := (stats s1)\<lparr>TransitionFrames := TransitionFrames (stats s1) + 1\<rparr>\<rparr> else s1"
    have e: "encrypt_frame kdf clk ref ?s2 ssrc f dst = (res, s')" using assms sel Some by (simp add: session_Encrypt_def)
    have "same_keys s1 ?s2" "next_counter ?s2 = next_counter s1" by (simp_all add: same_keys_def next_counter_def)
    with encrypt_frame_fields [OF e] ss show thesis
      by (intro ratchet [OF sel [unfolded Some]]) (auto intro: same_keys_trans)
  qed
qed

lemma media_same: "same_keys s (media_step kdf op s)"
proof (cases op)
  case (OpEncrypt clk ssrc f dst)
  then show ?thesis using session_Encrypt_fields [of kdf clk s ssrc f dst] by (metis media_step.simps(1) prod.collapse)
next
  case (OpDecrypt clk uid f dst)
  then show ?thesis using session_Decrypt_fields [of kdf clk s uid f dst] by (metis media_step.simps(2) prod.collapse)
qed

section \<open>The fields the invariants are about\<close>

definition core :: "'c Session \<Rightarrow> _" where
  "core s = (userID s, retry s, activeEpoch s, pendingEpoch s, retainedEpoch s, sendCounter s, sendRatchet s, retainedSendRatchet s,
     sendCipher s, sendCipherKey s, ratchets s, nextRef s, sealed s, watchdogs s, epochReady s, closedChans s)"

lemma core_upd [simp]:
  "core (s\<lparr>channelID := a1\<rparr>) = core s" "core (s\<lparr>protocolVersion := a2\<rparr>) = core s"
  "core (s\<lparr>sendProtocolVersion := a3\<rparr>) = core s" "core (s\<lparr>transportOnly := a4\<rparr>) = core s"
  "core (s\<lparr>plaintextRejectedFrom := a5\<rparr>) = core s" "core (s\<lparr>ssrcCodecs := a6\<rparr>) = core s"
  "core (s\<lparr>users := a7\<rparr>) = core s" "core (s\<lparr>activeTransitionID := a8\<rparr>) = core s"
  "core (s\<lparr>pendingTransitionID := a9\<rparr>) = core s" "core (s\<lparr>retainedSendExpiresAt := b1\<rparr>) = core s"
  "core (s\<lparr>mlsClient := b2\<rparr>) = core s" "core (s\<lparr>groupID := b3\<rparr>) = core s"
  "core (s\<lparr>pendingGroupID := b4\<rparr>) = core s" "core (s\<lparr>externalSenderPackage := b5\<rparr>) = core s"
  "core (s\<lparr>pendingKeyPackage := b6\<rparr>) = core s" "core (s\<lparr>lastProposalBatch := b7\<rparr>) = core s"
  "core (s\<lparr>proposalQueue := b8\<rparr>) = core s" "core (s\<lparr>pendingCommitBytes := b9\<rparr>) = core s"
  "core (s\<lparr>preCommitGroupState := c1\<rparr>) = core s"
  "core (s\<lparr>recoveryAttempts := c3\<rparr>) = core s" "core (s\<lparr>stats := c4\<rparr>) = core s"
  "core (s\<lparr>degradedSince := c5\<rparr>) = core s" "core (s\<lparr>shutdown := c6\<rparr>) = core s"
  "core (s\<lparr>sent := c8\<rparr>) = core s" "core (s\<lparr>panicked := c9\<rparr>) = core s"
  by (simp_all add: core_def)

lemma core_helpers [simp]:
  "core (markDegradedLocked t s) = core s" "core (endDegradedLocked t s) = core s" "core (markRecoveredLocked t s) = core s"
  "core (setTransportOnlyLocked b s) = core s" "core (Close s) = core s" "core (retry_leave E st s) = core s"
  by (simp_all add: markDegradedLocked_def endDegradedLocked_def
      markRecoveredLocked_def setTransportOnlyLocked_def Close_def retry_leave_def Let_def split: option.splits)

lemma core_reset: "core s' = core s \<Longrightarrow> core (resetEpochReadyLocked s') = core (resetEpochReadyLocked s)"
  by (simp add: core_def resetEpochReadyLocked_def)

lemma core_client [simp]:
  "core (snd (go_panic s)) = core s" "core (snd (client_call msg f s)) = core s" "core (snd (client_read msg g s)) = core s"
  by (simp_all add: go_panic_def client_call_def client_read_def split: option.splits prod.splits)

lemma snd_sbind:
  "snd (sbind m f) = (case fst m of Inl e \<Rightarrow> snd m | Inr x \<Rightarrow> snd (f x (snd m)))"
  by (cases m; cases "fst m") auto

lemma core_ensure [simp]: "core (snd (ensureMLSClientLocked E s)) = core s"
  by (simp add: ensureMLSClientLocked_def split: option.splits sum.splits)

lemma core_fresh [simp]: "core (snd (freshKeyPackageLocked E s)) = core s"
  by (simp add: freshKeyPackageLocked_def snd_sbind split: sum.splits)

lemma core_join [simp]: "core (snd (joinGroupLocked E w s)) = core s"
  by (simp add: joinGroupLocked_def split: option.splits prod.splits outcome.splits)

lemma core_validate [simp]: "core (snd (validateJoinedWelcomeExternalSenderLocked E gid s)) = core s"
  by (simp add: validateJoinedWelcomeExternalSenderLocked_def snd_sbind split: sum.splits)

lemma core_proposal_loop [simp]: "core (snd (snd (proposal_loop E acc remaining s))) = core s"
proof (induction E acc remaining s rule: proposal_loop.induct)
  case (1 E acc remaining s)
  show ?case
  proof (cases "length remaining < 4")
    case True
    then show ?thesis by (subst proposal_loop.simps) simp
  next
    case False
    show ?thesis
    proof (cases "UnmarshalMLSMessage E remaining")
      case (Inr msg)
      let ?c = "client_call ''process proposal public message'' (ProcessPublicMessage E (groupID s) (take (length (mm_Marshal msg)) remaining)) s"
      have c: "core s1 = core s" if "?c = (r, s1)" for r s1
        using that by (metis core_client(2) snd_conv)
      show ?thesis using 1 [OF _ _ Inr refl] False Inr
        by (subst proposal_loop.simps) (auto simp: Let_def split: prod.splits sum.splits dest: c)
    qed (use False in \<open>subst proposal_loop.simps, simp\<close>)
  qed
qed

lemma core_batch [simp]: "core (snd (snd (processProposalBatchLocked E proposals s))) = core s"
  by (simp add: processProposalBatchLocked_def processRevokeProposalsLocked_def Let_def split: sum.splits)

text \<open>\<open>rebuildEpochStateLocked\<close> by cases.\<close>

lemma rebuild_cases:
  assumes "rebuildEpochStateLocked kdf E gid s = (r, s')"
  obtains (nil) "mlsClient s = None" "r = Inl NilDereference" "s' = s\<lparr>panicked := True\<rparr>"
  | (fail) c e where "mlsClient s = Some c" "r = Inl e" "s' = s"
  | (ok) c members epochID senders rs n where "mlsClient s = Some c" "ListMembers E c gid = Inr members" "Epoch E c gid = Inr epochID"
      "rebuild_loop (adapter_exporter kdf E (Some c) gid) members {} [] (ratchets s) (nextRef s) = Inr (senders, rs, n)"
      "r = Inr \<lparr>es_id = epochID, es_groupID = gid, es_senders = senders, es_expiresAt = None\<rparr>"
      "s' = s\<lparr>ratchets := rs, nextRef := n\<rparr>"
proof (cases "mlsClient s")
  case None
  show thesis by (rule nil [OF None]) (use assms None in \<open>simp_all add: rebuildEpochStateLocked_def client_read_def go_panic_def\<close>)
next
  case (Some c)
  show thesis
  proof (cases "\<exists>members epochID. ListMembers E c gid = Inr members \<and> Epoch E c gid = Inr epochID")
    case True
    then obtain members epochID where m: "ListMembers E c gid = Inr members" "Epoch E c gid = Inr epochID" by blast
    show thesis
    proof (cases "rebuild_loop (adapter_exporter kdf E (Some c) gid) members {} [] (ratchets s) (nextRef s)")
      case (Inl e)
      show thesis by (rule fail [OF Some, of e]) (use assms Some m Inl in \<open>simp_all add: rebuildEpochStateLocked_def client_read_def\<close>)
    next
      case (Inr x)
      obtain senders rs n where x: "x = (senders, rs, n)" by (metis prod.exhaust)
      show thesis by (rule ok [OF Some m Inr [unfolded x]])
        (use assms Some m Inr x in \<open>simp_all add: rebuildEpochStateLocked_def client_read_def\<close>)
    qed
  next
    case False
    then have "\<exists>e. r = Inl e \<and> s' = s" using assms Some
      by (cases "ListMembers E c gid"; cases "Epoch E c gid") (auto simp: rebuildEpochStateLocked_def client_read_def)
    then show thesis using fail [OF Some] by blast
  qed
qed

section \<open>What an invariant needs\<close>

text \<open>What becomes of a watchdog: the attempts stay below the number of attempts allowed.\<close>

inductive successor :: "retryConfig \<Rightarrow> watchdog \<Rightarrow> watchdog \<Rightarrow> bool" for rc :: retryConfig where
  "successor rc w (Finishing ready err)"
| "0 < rc_maxAttempts rc \<Longrightarrow> successor rc w (Sending ready kp 0 (rc_delay rc) None)"
| "Suc i \<noteq> rc_maxAttempts rc \<Longrightarrow> successor rc (Sending ready kp i delay start) (Backoff ready kp i delay start')"
| "successor rc (Backoff ready kp i delay start) (Sending ready kp (Suc i) (min (2 * delay) (rc_maxDelay rc)) start)"

text \<open>A session that starts afresh: no epoch is known and the send ratchet, if there is one, is retained.\<close>

definition restart :: "'c Session \<Rightarrow> 'c Session" where
  "restart s = (clear_group_state s)\<lparr>sendRatchet := None,
     retainedSendRatchet := (if sendRatchet s = None then retainedSendRatchet s else sendRatchet s)\<rparr>"

lemma core_clear: "core s' = core s \<Longrightarrow> core (clear_group_state s') = core (clear_group_state s)"
  by (simp add: core_def clear_group_state_def)

lemma core_drop:
  "core s' = core (resetEpochReadyLocked (clear_group_state s)) \<Longrightarrow>
    core (dropSendKeysLocked s') = core (dropSendKeysLocked (resetEpochReadyLocked (restart s)))"
  by (simp add: core_def clear_group_state_def dropSendKeysLocked_def restart_def resetEpochReadyLocked_def)

lemma core_park:
  "core s' = core (resetEpochReadyLocked (clear_group_state s)) \<Longrightarrow> core (park_send_ratchet E s') = core (resetEpochReadyLocked (restart s))"
  by (simp add: core_def clear_group_state_def park_send_ratchet_def retain_send_ratchet_def restart_def resetEpochReadyLocked_def)

text \<open>What the operations below the handlers do to the core of a session.\<close>

locale epoch_keeping =
  fixes kdf :: kdf and P :: "'c Session \<Rightarrow> bool"
  assumes core_cong: "core s' = core s \<Longrightarrow> P s \<Longrightarrow> P s'"
    and media: "P s \<Longrightarrow> P (media_step kdf op s)"
    and no_pending: "P s \<Longrightarrow> P (s\<lparr>pendingEpoch := None\<rparr>)"
    and rebuilt: "P s \<Longrightarrow> rebuildEpochStateLocked kdf E gid s = (Inr e, s') \<Longrightarrow> P (s'\<lparr>pendingEpoch := Some e\<rparr>)"
    and reset [simp]: "P s \<Longrightarrow> P (resetEpochReadyLocked s)"
    and watch: "P s \<Longrightarrow> P (s\<lparr>watchdogs := watchdogs s @ [Waiting ready tid np]\<rparr>)"
begin

lemma core_iff: "core s' = core s \<Longrightarrow> P s' \<longleftrightarrow> P s"
  by (metis core_cong)

lemma upd [simp]:
  "P (s\<lparr>channelID := a1\<rparr>) = P s" "P (s\<lparr>protocolVersion := a2\<rparr>) = P s" "P (s\<lparr>sendProtocolVersion := a3\<rparr>) = P s"
  "P (s\<lparr>ssrcCodecs := a6\<rparr>) = P s" "P (s\<lparr>users := a7\<rparr>) = P s" "P (s\<lparr>activeTransitionID := a8\<rparr>) = P s"
  "P (s\<lparr>pendingTransitionID := a9\<rparr>) = P s" "P (s\<lparr>mlsClient := b2\<rparr>) = P s" "P (s\<lparr>groupID := b3\<rparr>) = P s"
  "P (s\<lparr>pendingGroupID := b4\<rparr>) = P s" "P (s\<lparr>externalSenderPackage := b5\<rparr>) = P s" "P (s\<lparr>pendingKeyPackage := b6\<rparr>) = P s"
  "P (s\<lparr>lastProposalBatch := b7\<rparr>) = P s" "P (s\<lparr>proposalQueue := b8\<rparr>) = P s" "P (s\<lparr>pendingCommitBytes := b9\<rparr>) = P s"
  "P (s\<lparr>preCommitGroupState := c1\<rparr>) = P s" "P (s\<lparr>recoveryAttempts := c3\<rparr>) = P s" "P (s\<lparr>stats := c4\<rparr>) = P s"
  "P (s\<lparr>degradedSince := c5\<rparr>) = P s" "P (s\<lparr>sent := c8\<rparr>) = P s"
  "P (endDegradedLocked now s) = P s" "P (markDegradedLocked now s) = P s"
  "P (setTransportOnlyLocked b s) = P s" "P (Close s) = P s" "P (retry_leave E st s) = P s"
  by (rule core_iff, simp)+

lemma ops [simp]:
  "P (snd (client_call msg f s)) = P s" "P (snd (client_read msg g s)) = P s" "P (snd (ensureMLSClientLocked E s)) = P s"
  "P (snd (freshKeyPackageLocked E s)) = P s" "P (snd (joinGroupLocked E w s)) = P s"
  "P (snd (validateJoinedWelcomeExternalSenderLocked E gid s)) = P s"
  "P (snd (snd (processProposalBatchLocked E proposals s))) = P s"
  by (rule core_iff, simp)+

lemma free_step: "P s \<Longrightarrow> P (free_step kdf op s)"
  by (cases op) (simp_all add: media AddUser_def RemoveUser_def AssignSsrcToCodec_def)

lemma free_steps: "P s \<Longrightarrow> P (fold (free_step kdf) ops s)"
  by (induction ops arbitrary: s) (simp_all add: free_step)

lemma bind: "P (snd m) \<Longrightarrow> (\<And>x s. P s \<Longrightarrow> P (snd (f x s))) \<Longrightarrow> P (snd (sbind m f))"
  by (simp add: snd_sbind split: sum.splits)

lemma send: "P s \<Longrightarrow> P (snd (sendLocked kdf E msg s))"
  by (simp add: sendLocked_def free_steps Let_def)

lemma send_invalid: "P s \<Longrightarrow> P (sendInvalidCommitWelcomeLocked kdf E tid s)"
  by (simp add: sendInvalidCommitWelcomeLocked_def send)

lemma send_key_package: "P s \<Longrightarrow> P (snd (sendKeyPackageLocked kdf E kp s))"
  by (simp add: sendKeyPackageLocked_def bind send)

lemma ensure_key_package: "P s \<Longrightarrow> P (snd (ensurePendingKeyPackageLocked kdf E s))"
  unfolding ensurePendingKeyPackageLocked_def by (rule bind) (simp_all add: bind send_key_package)

lemma go_watchdog: "P s \<Longrightarrow> P (goWatchdog (Waiting ready tid np) s)"
  by (simp add: goWatchdog_def watch)

lemma watch_recovery: "P s \<Longrightarrow> P (watchRecoveryLocked err s)"
  by (simp add: watchRecoveryLocked_def go_watchdog Let_def)

lemma watch_dropped: "P s \<Longrightarrow> P (watchDroppedSendLocked err s)"
  by (simp add: watchDroppedSendLocked_def watch_recovery)

lemma invalidate: "P s \<Longrightarrow> P (invalidateMLSStateLocked E s)"
  by (simp add: invalidateMLSStateLocked_def no_pending Let_def)

lemma resend: "P s \<Longrightarrow> P (invalidateAndResendKeyPackageLocked kdf E s)"
  using ensure_key_package [OF invalidate, of s E E]
  by (auto simp: invalidateAndResendKeyPackageLocked_def watch_recovery split: prod.splits)

lemma send_ready: "P s \<Longrightarrow> P (sendReadyForTransitionLocked kdf E tid s)"
  using send [of s E "SendReadyForTransition tid"]
  by (auto simp: sendReadyForTransitionLocked_def watch_dropped split: prod.splits sum.splits)

lemma rebuild_bind:
  assumes "P s" "\<And>e s'. P (s'\<lparr>pendingEpoch := Some e\<rparr>) \<Longrightarrow> P (snd (f e s'))"
  shows "P (snd (sbind (rebuildEpochStateLocked kdf E gid s) f))"
proof (cases "rebuildEpochStateLocked kdf E gid s")
  case (Pair r s')
  show ?thesis
  proof (cases r)
    case (Inl e)
    have "core s' = core s" using Pair by (cases rule: rebuild_cases) (simp_all add: Inl)
    then show ?thesis using Pair Inl assms(1) core_iff [of s' s] by simp
  next
    case (Inr e)
    then show ?thesis using Pair rebuilt [OF assms(1)] assms(2) by simp
  qed
qed

lemma join: "P s \<Longrightarrow> P (snd (joinPendingWelcomeLocked kdf E w s))"
  by (auto simp: joinPendingWelcomeLocked_def intro!: bind rebuild_bind split: sum.splits)

lemma commit: "P s \<Longrightarrow> P (snd (processCommitLocked kdf E c s))"
  by (auto simp: processCommitLocked_def intro!: bind rebuild_bind split: sum.splits)

lemma restore: "P s \<Longrightarrow> P (snd (restorePreCommitStateLocked E s))"
  by (auto simp: restorePreCommitStateLocked_def no_pending intro!: bind)

lemma create_group: "P s \<Longrightarrow> P (snd (createGroupWithExternalSenderLocked kdf E s))"
  by (auto simp: createGroupWithExternalSenderLocked_def ensure_key_package intro!: bind)

lemma send_commit: "P s \<Longrightarrow> P (send_commit kdf E payload s)"
  using send [of s E "SendMLSCommitWelcome payload"]
  by (auto simp: send_commit_def watch_dropped restore go_watchdog Let_def split: prod.splits sum.splits)

lemma commit_proposals: "P s \<Longrightarrow> P (snd (commitProposalsLocked kdf E s))"
  by (auto simp: commitProposalsLocked_def send_commit Let_def intro!: bind rebuild_bind split: sum.splits prod.splits)

lemma process_and_commit: "P s \<Longrightarrow> P (processAndCommitProposalBatchLocked kdf E proposals s)"
proof -
  assume P: "P s"
  obtain r1 s1 where 1: "ensureMLSClientLocked E s = (r1, s1)" by fastforce
  obtain acc r2 s2 where 2: "processProposalBatchLocked E proposals s1 = (acc, r2, s2)" by (metis prod.exhaust)
  have "P s1" using ops(3) [of E s] P 1 by simp
  moreover have "P s2 = P s1" using ops(7) [of E proposals s1] 2 by simp
  ultimately show ?thesis using 1 2
    by (auto simp: processAndCommitProposalBatchLocked_def commit_proposals split: sum.splits)
qed

lemma drain: "P s \<Longrightarrow> P (drain_loop kdf E n s)"
  by (induction n arbitrary: s) (simp_all add: process_and_commit)

end

text \<open>What the handlers do besides: epochs are activated, the session starts afresh, send keys are dropped.\<close>

locale handler_invariant = epoch_keeping kdf P for kdf :: kdf and P :: "'c Session \<Rightarrow> bool" +
  assumes activate: "P s \<Longrightarrow> pendingEpoch s = Some e \<Longrightarrow> P (activate_epoch E e s)"
    and restarted: "P s \<Longrightarrow> P (restart s)"
    and no_send_keys: "P s \<Longrightarrow> P (dropSendKeysLocked s)"
begin

lemma activate_pending: "P s \<Longrightarrow> P (activatePendingEpochLocked kdf E s)"
  by (auto simp: activatePendingEpochLocked_def drainProposalQueueLocked_def drain activate split: option.splits)

lemma create_group': "P s \<Longrightarrow> createGroupWithExternalSenderLocked kdf E s = (r, s') \<Longrightarrow> P s'"
  using create_group [of s E] by simp

lemma sole_member: "P s \<Longrightarrow> P (activateSoleMemberEpochLocked kdf E s)"
proof -
  assume P: "P s"
  let ?f = "\<lambda>epoch s2. (Inr () :: session_error + unit, s2\<lparr>pendingEpoch := Some epoch, pendingGroupID := groupID s2\<rparr>)"
  have r: "P s2" if "P s1" "sbind (rebuildEpochStateLocked kdf E gid s1) ?f = (r, s2)" for gid s1 r s2
    using rebuild_bind [of s1 ?f E gid] that by simp
  obtain r1 s1 where 1: "(if length (groupID s) = 0 then createGroupWithExternalSenderLocked kdf E s else (Inr (), s)) = (r1, s1)" by fastforce
  have P1: "P s1" using 1 create_group' [OF P] P by (auto split: if_splits)
  obtain r2 s2 where 2: "(if pendingEpoch s1 = None then sbind (rebuildEpochStateLocked kdf E (groupID s1) s1) ?f else (Inr (), s1)) = (r2, s2)"
    by fastforce
  have P2: "P s2" using 2 r [OF P1] P1 by (auto split: if_splits)
  show ?thesis unfolding activateSoleMemberEpochLocked_def 1
    using P P1 P2 2 by (cases r1; cases r2) (simp_all add: watch_dropped activate_pending)
qed

lemma prepare_kp: "P s \<Longrightarrow> P (prepare_key_package kdf E s)"
  using ensure_key_package [of s E] by (auto simp: prepare_key_package_def watch_dropped split: prod.splits sum.splits)

lemma finish: "P s \<Longrightarrow> P (finish_transition kdf E tid s)"
  by (simp add: finish_transition_def send_ready activate_pending)

lemma on_ack: "P s \<Longrightarrow> P (OnSelectProtocolAck kdf E v s)"
proof -
  assume P: "P s"
  let ?s1 = "setTransportOnlyLocked (v = 0) (s\<lparr>protocolVersion := v, sendProtocolVersion := v\<rparr>)"
  let ?s2 = "resetEpochReadyLocked ((clear_group_state ?s1)\<lparr>recoveryAttempts := 0\<rparr>)"
  let ?s3 = "(endDegradedLocked (time_now E 0 ?s2) ?s2)\<lparr>pendingKeyPackage := [], mlsClient := None\<rparr>"
  have "core ((clear_group_state ?s1)\<lparr>recoveryAttempts := 0\<rparr>) = core (clear_group_state s)" using core_clear [of ?s1 s] by simp
  from core_reset [OF this] have c: "core ?s3 = core (resetEpochReadyLocked (clear_group_state s))" by simp
  have "P (resetEpochReadyLocked (restart s))" by (simp add: restarted P)
  then have "P (dropSendKeysLocked ?s3)" "P (park_send_ratchet E ?s3)"
    using core_iff [OF core_drop [OF c]] core_iff [OF core_park [OF c]] no_send_keys by blast+
  then show ?thesis unfolding OnSelectProtocolAck_def Let_def by (simp only: prepare_kp split: if_split) blast
qed

lemma on_prepare_epoch: "P s \<Longrightarrow> P (OnDavePrepareEpoch kdf E epoch v s)"
proof -
  assume P: "P s"
  let ?s2 = "setTransportOnlyLocked (v = 0) (s\<lparr>protocolVersion := v\<rparr>)"
  let ?s3 = "if activeEpoch ?s2 \<noteq> None \<and> \<not> transportOnly ?s2 \<and> degradedSince ?s2 = None
    then ?s2\<lparr>degradedSince := Some (time_now E 0 ?s2)\<rparr> else ?s2"
  have "core (clear_group_state ?s3) = core (clear_group_state s)" by (rule core_clear) simp
  from core_park [OF core_reset [OF this]] have "P (park_send_ratchet E (resetEpochReadyLocked (clear_group_state ?s3)))"
    using core_iff reset restarted P by blast
  then show ?thesis using P unfolding OnDavePrepareEpoch_def Let_def by (simp add: prepare_kp)
qed

lemma on_prepare_transition: "P s \<Longrightarrow> P (OnDavePrepareTransition kdf E tid v s)"
  by (simp add: OnDavePrepareTransition_def sole_member send Let_def)

lemma on_execute: "P s \<Longrightarrow> P (OnDaveExecuteTransition kdf E tid s)"
  by (simp add: OnDaveExecuteTransition_def activate_pending no_pending no_send_keys Let_def)

lemma on_external_sender: "P s \<Longrightarrow> P (OnDaveMLSExternalSenderPackage kdf E package s)"
  using create_group [of "s\<lparr>externalSenderPackage := package\<rparr>" E]
  by (auto simp: OnDaveMLSExternalSenderPackage_def watch_dropped split: prod.splits sum.splits)

lemma on_proposals: "P s \<Longrightarrow> P (OnDaveMLSProposals kdf E proposals s)"
  by (simp add: OnDaveMLSProposals_def process_and_commit Let_def)

lemma on_set_channel: "P s \<Longrightarrow> P (SetChannelID kdf E have cid s)"
  by (simp add: SetChannelID_def create_group Let_def)

lemma reconcile: "P s \<Longrightarrow> P (snd (reconcileCompetingCommitLocked kdf E tid c s))"
proof -
  assume P: "P s"
  obtain r1 s1 where 1: "(if 0 < length (pendingCommitBytes s) then restorePreCommitStateLocked E s else (Inr (), s)) = (r1, s1)"
    by fastforce
  have P1: "P s1" using 1 restore [OF P, of E] P by (auto split: if_splits)
  obtain r2 s2 where 2: "processCommitLocked kdf E c s1 = (r2, s2)" by fastforce
  have "P s2" using commit [OF P1, of E c] 2 by simp
  then show ?thesis unfolding reconcileCompetingCommitLocked_def 1 using P1 2
    by (cases r1; cases r2) (simp_all add: send_invalid resend)
qed

lemma on_commit: "P s \<Longrightarrow> P (OnDaveMLSPrepareCommitTransition kdf E tid c s)"
proof -
  assume P: "P s"
  obtain r1 s1 where 1: "ensureMLSClientLocked E (s\<lparr>pendingTransitionID := tid\<rparr>) = (r1, s1)" by fastforce
  have P1: "P s1" using 1 ops(3) [of E "s\<lparr>pendingTransitionID := tid\<rparr>"] P by simp
  obtain b s2 where 2: "(if pendingEpoch s1 \<noteq> None \<and> pendingCommitBytes s1 = c then (True, s1\<lparr>pendingCommitBytes := [], preCommitGroupState := []\<rparr>)
    else reconcileCompetingCommitLocked kdf E tid c s1) = (b, s2)" by fastforce
  have "P s2" using 2 reconcile [OF P1, of E tid c] P1 by (auto split: if_splits)
  then show ?thesis unfolding OnDaveMLSPrepareCommitTransition_def 1 using P1 2
    by (cases r1; cases b) (simp_all add: finish)
qed

lemma on_welcome: "P s \<Longrightarrow> P (OnDaveMLSWelcome kdf E tid w s)"
proof -
  assume P: "P s"
  let ?s1 = "s\<lparr>pendingTransitionID := tid\<rparr>"
  obtain r2 s2 where 2: "(if 0 < length (pendingCommitBytes ?s1)
      then sbind (restorePreCommitStateLocked E ?s1) (\<lambda>_ s2. (Inr (), s2\<lparr>proposalQueue := []\<rparr>)) else (Inr (), ?s1)) = (r2, s2)"
    by fastforce
  have "P (snd (sbind (restorePreCommitStateLocked E ?s1) (\<lambda>_ s2. (Inr (), s2\<lparr>proposalQueue := []\<rparr>))))"
    by (rule bind) (simp_all add: restore P)
  then have P2: "P s2" using 2 P by (auto split: if_splits)
  obtain r3 s3 where 3: "ensureMLSClientLocked E s2 = (r3, s3)" by fastforce
  have P3: "P s3" using ops(3) [of E s2] 3 P2 by simp
  obtain r4 s4 where 4: "joinPendingWelcomeLocked kdf E w s3 = (r4, s4)" by fastforce
  have "P s4" using join [OF P3, of E w] 4 by simp
  then show ?thesis unfolding OnDaveMLSWelcome_def Let_def 2 using P2 P3 3 4
    by (cases r2; cases r3; cases r4) (simp_all add: send_invalid resend finish)
qed

lemma handle: "P s \<Longrightarrow> P (handle kdf E h s)"
  by (cases h) (simp_all add: on_ack on_prepare_epoch on_prepare_transition on_execute on_external_sender on_proposals
      on_set_channel on_commit on_welcome)

lemma attempt: "P s \<Longrightarrow> P (snd (sendAttempt kdf E ready kp s))"
  by (simp add: sendAttempt_def send_key_package)

lemma retry_attempt: "P s \<Longrightarrow> P (snd (retry_attempt kdf E ready kp i delay start s))"
  using attempt [of s E ready kp] by (auto simp: retry_attempt_def split: prod.splits sum.splits)

lemma recover_begin: "P s \<Longrightarrow> P (snd (recover_begin kdf E ready tid np s))"
proof -
  assume P: "P s"
  let ?s2 = "invalidateMLSStateLocked E (sendInvalidCommitWelcomeLocked kdf E tid (s\<lparr>recoveryAttempts := Suc (recoveryAttempts s)\<rparr>))"
  have "P ?s2" by (simp add: invalidate send_invalid P)
  then have "P (snd (freshKeyPackageLocked E ?s2))" by simp
  moreover have "snd (recover_begin kdf E ready tid np s) \<in> {s, snd (freshKeyPackageLocked E ?s2)}"
    by (simp add: recover_begin_def Let_def split: prod.splits sum.splits)
  ultimately show ?thesis using P by auto
qed

lemma move: "watchdog_move kdf Ok w s w' s' \<Longrightarrow> P s \<Longrightarrow> P s'"
proof (induction rule: watchdog_move.induct)
  case (wait_timeout E ready tid np s w s')
  then show ?case using recover_begin [of s E ready tid np] by simp
next
  case (attempt E ready kp i delay start s w s')
  then show ?case using retry_attempt [of s E ready kp i delay start] by simp
qed (simp_all add: recover_finish_def watch_recovery)

end

lemma take_own_fields [simp]:
  "core (take_own_ratchet E e s) = core (s\<lparr>sendRatchet := map_option ss_ratchet (map_of (es_senders e) (userID s)),
     closedChans := (if map_of (es_senders e) (userID s) = None then closedChans s else insert (epochReady s) (closedChans s))\<rparr>)"
proof -
  have g: "core (signalEpochReadyLocked x) = core (x\<lparr>closedChans := insert (epochReady x) (closedChans x)\<rparr>)" for x :: "'a Session"
    by (simp add: signalEpochReadyLocked_def core_def isClosed_def insert_absorb)
  have m: "core (signalEpochReadyLocked (markRecoveredLocked now x)) = core (signalEpochReadyLocked x)" for now and x :: "'a Session"
    using core_helpers(3) [of now x] unfolding g by (simp add: core_def)
  show ?thesis by (simp add: take_own_ratchet_def m split: option.splits) (simp add: g, simp add: core_def)
qed

text \<open>The core of a session after an activation.\<close>

lemma activate_epoch_core:
  "core (activate_epoch E e s) =
     core (s\<lparr>activeEpoch := Some e, pendingEpoch := None,
       retainedEpoch := filter (\<lambda>x. case es_expiresAt x of Some t \<Rightarrow> time_now E 5 s < t | None \<Rightarrow> False)
         (retainedEpoch s @ (case activeEpoch s of None \<Rightarrow> [] | Some a \<Rightarrow> [a\<lparr>es_expiresAt := Some (time_now E 1 s + epochRetention)\<rparr>])),
       sendCounter := (if sendRatchet s \<noteq> None \<and> newEpochAddsSender (activeEpoch s) (Some e)
         then NonceCounter_Reset (sendCounter s) else sendCounter s),
       retainedSendRatchet := (if sendRatchet s = None then retainedSendRatchet s
         else if newEpochAddsSender (activeEpoch s) (Some e) then None else sendRatchet s),
       sendRatchet := map_option ss_ratchet (map_of (es_senders e) (userID s)),
       closedChans := (if map_of (es_senders e) (userID s) = None then closedChans s else insert (epochReady s) (closedChans s))\<rparr>)"
proof -
  have take: "sent (take_own_ratchet E e x) = sent x" for x
    by (simp add: take_own_ratchet_def signalEpochReadyLocked_def markRecoveredLocked_def endDegradedLocked_def
        markDegradedLocked_def split: option.splits)
  have switch: "sent (switch_send_ratchet E a x) = sent x" for a x
    by (simp add: switch_send_ratchet_def retain_send_ratchet_def)
  define s4 where "s4 = (let s1 = (case activeEpoch s of
        Some a \<Rightarrow> s\<lparr>retainedEpoch := retainedEpoch s @ [a\<lparr>es_expiresAt := Some (time_now E 1 s + epochRetention)\<rparr>]\<rparr> | None \<Rightarrow> s);
      s2 = s1\<lparr>activeEpoch := Some e, pendingEpoch := None, sendProtocolVersion := protocolVersion s1\<rparr>;
      s3 = (if protocolVersion s2 \<noteq> 0 \<and> plaintextRejectedFrom s2 = None
        then s2\<lparr>plaintextRejectedFrom := Some (time_now E 2 s2 + plaintextGrace s2)\<rparr> else s2)
    in s3\<lparr>groupID := pendingGroupID s3, pendingGroupID := []\<rparr>)"
  define s5 where "s5 = take_own_ratchet E e (switch_send_ratchet E (activeEpoch s) s4)"
  have c4: "core s4 = core (s\<lparr>activeEpoch := Some e, pendingEpoch := None, retainedEpoch := retainedEpoch s @ (case activeEpoch s of None \<Rightarrow> []
      | Some a \<Rightarrow> [a\<lparr>es_expiresAt := Some (time_now E 1 s + epochRetention)\<rparr>])\<rparr>) \<and> sent s4 = sent s"
    by (simp add: s4_def core_def Let_def split: option.splits)
  have c5: "core s5 = core (switch_send_ratchet E (activeEpoch s) s4\<lparr>sendRatchet := map_option ss_ratchet (map_of (es_senders e)
      (userID (switch_send_ratchet E (activeEpoch s) s4))),
      closedChans := (if map_of (es_senders e) (userID (switch_send_ratchet E (activeEpoch s) s4)) = None
        then closedChans (switch_send_ratchet E (activeEpoch s) s4)
        else insert (epochReady (switch_send_ratchet E (activeEpoch s) s4)) (closedChans (switch_send_ratchet E (activeEpoch s) s4)))\<rparr>)"
    by (simp add: s5_def)
  have sw: "core (switch_send_ratchet E (activeEpoch s) s4) = core (s4\<lparr>
       sendCounter := (if sendRatchet s4 \<noteq> None \<and> newEpochAddsSender (activeEpoch s) (activeEpoch s4)
         then NonceCounter_Reset (sendCounter s4) else sendCounter s4),
       retainedSendRatchet := (if sendRatchet s4 = None then retainedSendRatchet s4
         else if newEpochAddsSender (activeEpoch s) (activeEpoch s4) then None else sendRatchet s4)\<rparr>)"
    by (simp add: core_def switch_send_ratchet_def retain_send_ratchet_def)
  have "activate_epoch E e s = pruneRetainedEpochsLocked (time_now E 5 s5) s5"
    by (simp add: activate_epoch_def s5_def s4_def Let_def)
  moreover have "time_now E 5 s5 = time_now E 5 s" using c4 by (simp add: s5_def time_now_def take switch)
  ultimately show ?thesis using c4 c5 sw by (simp add: pruneRetainedEpochsLocked_def core_def)
qed

lemma activate_epoch_fields [simp]:
  "retry (activate_epoch E e s) = retry s" "watchdogs (activate_epoch E e s) = watchdogs s"
  using activate_epoch_core [of E e s] by (simp_all add: core_def)

lemma activate_epoch_keeps:
  "proposalQueue (activate_epoch E e s) = proposalQueue s" "pendingCommitBytes (activate_epoch E e s) = pendingCommitBytes s"
  "ssrcCodecs (activate_epoch E e s) = ssrcCodecs s"
proof -
  let ?v = "\<lambda>s. (proposalQueue s, pendingCommitBytes s, ssrcCodecs s)"
  have "?v (take_own_ratchet E e x) = ?v x" for x
    by (simp add: take_own_ratchet_def signalEpochReadyLocked_def markRecoveredLocked_def endDegradedLocked_def
        markDegradedLocked_def split: option.splits)
  moreover have "?v (switch_send_ratchet E a x) = ?v x" for a x
    by (simp add: switch_send_ratchet_def retain_send_ratchet_def)
  ultimately show "proposalQueue (activate_epoch E e s) = proposalQueue s" "pendingCommitBytes (activate_epoch E e s) = pendingCommitBytes s"
    "ssrcCodecs (activate_epoch E e s) = ssrcCodecs s"
    by (simp_all add: activate_epoch_def pruneRetainedEpochsLocked_def Let_def split: option.splits)
qed

text \<open>A move of a watchdog leaves the configuration alone and every other watchdog where it is.\<close>

interpretation growth: handler_invariant kdf "\<lambda>s. retry s = rc \<and> set ws \<subseteq> set (watchdogs s)" for kdf rc ws
proof (unfold_locales, goal_cases)
  case (2 s op)
  then show ?case using media_same [of s kdf op] by (auto simp: same_keys_def)
next
  case (4 s E gid e s')
  from 4(2) show ?case by (cases rule: rebuild_cases) (use 4(1) in auto)
next
  case (7 s e E)
  then show ?case by (simp add: activate_epoch_fields)
qed (auto simp: core_def resetEpochReadyLocked_def restart_def clear_group_state_def dropSendKeysLocked_def)

lemma move_watchdogs: "watchdog_move kdf Ok w s w' s' \<Longrightarrow> retry s' = retry s \<and> set (watchdogs s) \<subseteq> set (watchdogs s')"
  using growth.move [of kdf Ok w s w' s' "retry s" "watchdogs s"] by blast

lemma move_successor: "watchdog_move kdf Ok w s w' s' \<Longrightarrow> w' = Some x \<Longrightarrow> successor (retry s') w x"
proof (induction rule: watchdog_move.induct)
  case (wait_timeout E ready tid np s w s')
  then show ?case
    by (auto simp: recover_begin_def Let_def retry_enter_def intro: successor.intros split: if_splits prod.splits sum.splits)
next
  case (attempt E ready kp i delay start s w s')
  then show ?case by (auto simp: retry_attempt_def retry_leave_def intro: successor.intros split: prod.splits sum.splits if_splits option.splits)
qed (auto simp: backoff_next_def intro: successor.intros)

locale session_invariant = handler_invariant kdf P for kdf :: kdf and P :: "'c Session \<Rightarrow> bool" +
  assumes swap: "P s \<Longrightarrow> w \<in> set (watchdogs s) \<Longrightarrow> (\<And>x. w' = Some x \<Longrightarrow> successor (retry s) w x) \<Longrightarrow> P (swap_watchdog w w' s)"
    and init: "P (New uid callbacks opts)"
begin

lemma watchdog_step: "watchdog_step kdf Ok s s' \<Longrightarrow> P s \<Longrightarrow> P s'"
proof (induction rule: watchdog_step.induct)
  case (1 w s w' s')
  have w: "w \<in> set (watchdogs s')" using move_watchdogs [OF 1(2)] 1(1) by blast
  show ?case by (rule swap [OF move [OF 1(2,3)] w]) (use move_successor [OF 1(2)] in auto)
qed

lemma step: "session_step kdf Ok s s' \<Longrightarrow> P s \<Longrightarrow> P s'"
  by (induction rule: session_step.induct) (simp_all add: handle free_step watchdog_step)

lemma reachable: "reachable kdf Ok s \<Longrightarrow> P s"
  by (induction rule: reachable.induct) (simp_all add: init step)

end

end
