(* ===== verification/Session_Safety.thy ===== *)
theory Session_Safety
  imports Session_Invariants
begin

text \<open>
  Invariants of every reachable session, each an interpretation of \<open>session_invariant\<close>: no nonce is used
  twice with a ratchet, keys and epochs are well-formed, and the watchdogs stay within their number
  of attempts; then the properties that rest on them.
\<close>

section \<open>Definitions\<close>

text \<open>The ratchet the next frame uses while the retained one has not expired, the ratchets used so far, and
  those of the pending epoch.\<close>

definition current_ratchet :: "'c Session \<Rightarrow> rref option" where
  "current_ratchet s = (case retainedSendRatchet s of Some r \<Rightarrow> Some r | None \<Rightarrow> sendRatchet s)"

definition used_refs :: "'c Session \<Rightarrow> rref set" where
  "used_refs s = fst ` set (sealed s)"

definition pending_refs :: "'c Session \<Rightarrow> rref set" where
  "pending_refs s = (case pendingEpoch s of None \<Rightarrow> {} | Some e \<Rightarrow> snd ` set (epoch_refs e))"

definition send_refs :: "'c Session \<Rightarrow> rref set" where
  "send_refs s = set_option (sendRatchet s) \<union> set_option (retainedSendRatchet s)"

definition nonce_inv :: "'c Session \<Rightarrow> bool" where
  "nonce_inv s \<longleftrightarrow>
     (\<forall>r \<in> used_refs s \<union> send_refs s \<union> pending_refs s. r < nextRef s)
   \<and> pending_refs s \<inter> (used_refs s \<union> send_refs s) = {}
   \<and> (\<forall>r r'. retainedSendRatchet s = Some r \<and> sendRatchet s = Some r' \<longrightarrow> r' \<noteq> r \<and> r' \<notin> used_refs s)
   \<and> unat (counter (sendCounter s)) \<le> length (sealed s)
   \<and> (\<forall>(r, c) \<in> set (sealed s). unat c \<le> length (sealed s))
   \<and> (length (sealed s) < 2 ^ 64 \<longrightarrow> distinct (sealed s)
       \<and> (\<forall>r c. current_ratchet s = Some r \<and> (r, c) \<in> set (sealed s) \<longrightarrow> c \<le> counter (sendCounter s)))"

section \<open>Lemmas on rebuilt epochs\<close>

text \<open>One entry of a rebuilt epoch: the member's user id, a ratchet of the member's base secret, a new
  expander and an empty replay window.\<close>

definition fresh_entry :: "exporter \<Rightarrow> (rref \<rightharpoonup> KeyRatchet) \<Rightarrow> bytes \<Rightarrow> UserID \<times> senderState \<Rightarrow> bool" where
  "fresh_entry export rs identity entry \<longleftrightarrow>
     (\<exists>n base r. identityBytesToUserID identity = Inr (fst entry, n) \<and> DeriveSenderBaseSecret (Some export) n = Inr base
        \<and> NewKeyRatchet base [] = Inr r \<and> rs (ss_ratchet (snd entry)) = Some r
        \<and> ss_expander (snd entry) = NewNonceExpander \<and> ss_replay (snd entry) = newReplayWindow)"

lemma fresh_entry_mono:
  "fresh_entry export rs identity x \<Longrightarrow> rs' (ss_ratchet (snd x)) = rs (ss_ratchet (snd x)) \<Longrightarrow> fresh_entry export rs' identity x"
  by (auto simp: fresh_entry_def)

lemma rebuild_loop_result:
  assumes "rebuild_loop export members seen' senders rs n = Inr (senders', rs', n')" "set (map fst senders) = seen'"
  shows "\<exists>new. senders' = senders @ new \<and> map (\<lambda>x. ss_ratchet (snd x)) new = [n..<n'] \<and> n' = n + length members
    \<and> list_all2 (fresh_entry export rs') members new \<and> (distinct (map fst senders) \<longrightarrow> distinct (map fst senders'))
    \<and> (\<forall>r. r < n \<or> n' \<le> r \<longrightarrow> rs' r = rs r)"
  using assms
proof (induction members arbitrary: seen' senders rs n)
  case Nil
  then show ?case by simp
next
  case (Cons identity members)
  obtain uid i where u: "identityBytesToUserID identity = Inr (uid, i)" "uid \<notin> seen'"
    using Cons.prems(1) by (auto simp: error_iffs split: if_splits)
  obtain base r where b: "DeriveSenderBaseSecret (Some export) i = Inr base" "NewKeyRatchet base [] = Inr r"
    using Cons.prems(1) u by (auto split: sum.splits)
  let ?x = "(uid, \<lparr>ss_ratchet = n, ss_expander = NewNonceExpander, ss_replay = newReplayWindow\<rparr>)"
  have l: "rebuild_loop export members (insert uid seen') (senders @ [?x]) (rs(n \<mapsto> r)) (Suc n) = Inr (senders', rs', n')"
    using Cons.prems(1) u b by simp
  have "set (map fst (senders @ [?x])) = insert uid seen'" using Cons.prems(2) by auto
  from Cons.IH [OF l this] obtain new where new: "senders' = (senders @ [?x]) @ new"
      "map (\<lambda>x. ss_ratchet (snd x)) new = [Suc n..<n']" "n' = Suc n + length members"
      "list_all2 (fresh_entry export rs') members new" "distinct (map fst (senders @ [?x])) \<longrightarrow> distinct (map fst senders')"
      "\<forall>r'. r' < Suc n \<or> n' \<le> r' \<longrightarrow> rs' r' = (rs(n \<mapsto> r)) r'" by blast
  have "fresh_entry export rs' identity ?x"
    using u(1) b new(6) by (auto simp: fresh_entry_def)
  moreover have "[n..<n'] = n # [Suc n..<n']" using new(3) by (simp add: upt_rec)
  ultimately show ?case using new u(2) Cons.prems(2)
    by (intro exI [of _ "?x # new"]) auto
qed

lemma rebuilt_epoch:
  assumes "rebuildEpochStateLocked kdf E gid s = (Inr e, s')"
  shows "map snd (epoch_refs e) = [nextRef s..<nextRef s'] \<and> nextRef s \<le> nextRef s' \<and> distinct (map fst (es_senders e))
    \<and> s' = s\<lparr>ratchets := ratchets s', nextRef := nextRef s'\<rparr>
    \<and> (\<forall>r. r < nextRef s \<or> nextRef s' \<le> r \<longrightarrow> ratchets s' r = ratchets s r)
    \<and> (\<exists>c members. mlsClient s = Some c \<and> ListMembers E c gid = Inr members \<and> Epoch E c gid = Inr (es_id e) \<and> es_groupID e = gid
        \<and> list_all2 (fresh_entry (adapter_exporter kdf E (Some c) gid) (ratchets s')) members (es_senders e))"
  using assms
proof (cases rule: rebuild_cases)
  case (ok c members epochID senders rs n)
  from rebuild_loop_result [OF ok(4)] obtain new where new: "senders = new" "map (\<lambda>x. ss_ratchet (snd x)) new = [nextRef s..<n]"
      "n = nextRef s + length members" "list_all2 (fresh_entry (adapter_exporter kdf E (Some c) gid) rs) members new"
      "distinct (map fst senders)" "\<forall>r. r < nextRef s \<or> n \<le> r \<longrightarrow> rs r = ratchets s r" by auto
  have "map snd (epoch_refs e) = [nextRef s..<n]"
    using new(1,2) ok(5) by (simp add: epoch_refs_def comp_def case_prod_beta)
  then show ?thesis using ok new by simp
qed simp_all

section \<open>Nonces\<close>

lemma unat_Suc_small: "Suc (unat c) < 2 ^ 64 \<Longrightarrow> unat (c + 1) = Suc (unat c)" for c :: u64
  using unat_counter_add [of c 1] by simp

lemma unatSuc_le: "unat (c + 1) \<le> Suc (unat c)" for c :: u64
  by (simp add: unat_word_ariths)

lemmas nonce_defs = nonce_inv_def used_refs_def pending_refs_def send_refs_def current_ratchet_def

lemma nonce_invD:
  "nonce_inv s \<Longrightarrow> length (sealed s) < 2 ^ 64 \<Longrightarrow> current_ratchet s = Some q \<Longrightarrow> (q, c) \<in> set (sealed s) \<Longrightarrow> c \<le> counter (sendCounter s)"
  by (auto simp: nonce_inv_def)

lemma nonce_inv_cong:
  assumes "nonce_inv s" "nextRef s' = nextRef s" "sealed s' = sealed s" "sendCounter s' = sendCounter s"
    and "sendRatchet s' = sendRatchet s" "retainedSendRatchet s' = retainedSendRatchet s" "pending_refs s' \<subseteq> pending_refs s"
  shows "nonce_inv s'"
proof -
  have "used_refs s' = used_refs s" "send_refs s' = send_refs s" "current_ratchet s' = current_ratchet s"
    using assms(3,5,6) by (simp_all add: used_refs_def send_refs_def current_ratchet_def split: option.split)
  then show ?thesis using assms unfolding nonce_inv_def by (auto simp del: split_paired_Ball_Sigma)
qed

text \<open>When the retained ratchet expires, the counter starts again and the unused send ratchet takes over.\<close>

lemma nonce_inv_select:
  assumes "nonce_inv s" "selectSendRatchetLocked now s = (x, s1)"
  shows "nonce_inv s1 \<and> x = current_ratchet s1 \<and> sealed s1 = sealed s"
proof (cases "\<exists>r. retainedSendRatchet s = Some r \<and> \<not> (case retainedSendExpiresAt s of Some t \<Rightarrow> now < t | None \<Rightarrow> False)")
  case False
  then have "s1 = s \<and> x = current_ratchet s"
    using assms(2) by (cases "retainedSendRatchet s") (auto simp: selectSendRatchetLocked_def current_ratchet_def split: option.splits)
  then show ?thesis using assms by simp
next
  case True
  then obtain r where r1: "retainedSendRatchet s = Some r" "\<not> (case retainedSendExpiresAt s of Some t \<Rightarrow> now < t | None \<Rightarrow> False)" by blast
  have r: "retainedSendRatchet s = Some r" "x = sendRatchet s"
      "s1 = s\<lparr>sendCounter := NonceCounter_Reset (sendCounter s), retainedSendRatchet := None, retainedSendExpiresAt := None\<rparr>"
    using assms(2) r1 unfolding selectSendRatchetLocked_def by simp_all
  have u: "r' \<notin> used_refs s" if "sendRatchet s = Some r'" for r' using assms(1) r(1) that by (simp add: nonce_inv_def)
  have "(r', c) \<notin> set (sealed s)" if "sendRatchet s = Some r'" for r' c using u [OF that] by (force simp: used_refs_def)
  then show ?thesis using assms(1) r(2,3) by (simp add: nonce_defs NonceCounter_Reset_def) blast
qed

text \<open>The next counter is above all the counters used with the current ratchet.\<close>

lemma nonce_inv_next:
  assumes "nonce_inv s" "current_ratchet s = Some r"
    and "nextRef s' = nextRef s" "sealed s' = sealed s @ [(r, next_counter s)]" "sendCounter s' = (sendCounter s)\<lparr>counter := next_counter s\<rparr>"
      "sendRatchet s' = sendRatchet s" "retainedSendRatchet s' = retainedSendRatchet s" "pending_refs s' = pending_refs s"
  shows "nonce_inv s'"
proof -
  let ?n = "length (sealed s)" and ?c = "counter (sendCounter s)"
  have inv: "unat ?c \<le> ?n" "\<forall>(r, c)\<in>set (sealed s). unat c \<le> ?n"
    and fresh: "?n < 2 ^ 64 \<Longrightarrow> distinct (sealed s)" "?n < 2 ^ 64 \<Longrightarrow> (r, c) \<in> set (sealed s) \<Longrightarrow> c \<le> ?c" for c
    using assms(1,2) by (auto simp: nonce_inv_def)
  have le: "unat (next_counter s) \<le> Suc ?n"
    using inv(1) unatSuc_le [of ?c] by (simp add: next_counter_def)
  have up: "?c < next_counter s" if "Suc ?n < 2 ^ 64"
    using inv(1) that by (intro word_less_nat_alt [THEN iffD2]) (simp add: next_counter_def unat_Suc_small)
  have cur: "current_ratchet s' = Some r" "r \<in> send_refs s" "send_refs s' = send_refs s" "used_refs s' = insert r (used_refs s)"
    using assms(2,4,6,7) by (auto simp: current_ratchet_def send_refs_def used_refs_def split: option.splits)
  have other: "r' \<noteq> r" if "retainedSendRatchet s = Some q" "sendRatchet s = Some r'" for q r'
    using assms(1,2) that by (auto simp: nonce_inv_def current_ratchet_def)
  show ?thesis unfolding nonce_inv_def
  proof (intro conjI)
    show "\<forall>r \<in> used_refs s' \<union> send_refs s' \<union> pending_refs s'. r < nextRef s'"
      "pending_refs s' \<inter> (used_refs s' \<union> send_refs s') = {}"
      using assms(1,3,8) cur by (auto simp: nonce_inv_def)
    show "\<forall>q r'. retainedSendRatchet s' = Some q \<and> sendRatchet s' = Some r' \<longrightarrow> r' \<noteq> q \<and> r' \<notin> used_refs s'"
      using assms(1,6,7) other cur(4) by (auto simp: nonce_inv_def)
    show "unat (counter (sendCounter s')) \<le> length (sealed s')" using le assms(4,5) by simp
    show "\<forall>(r, c)\<in>set (sealed s'). unat c \<le> length (sealed s')" using inv(2) le assms(4) by auto
    show "length (sealed s') < 2 ^ 64 \<longrightarrow> distinct (sealed s') \<and>
       (\<forall>q c. current_ratchet s' = Some q \<and> (q, c) \<in> set (sealed s') \<longrightarrow> c \<le> counter (sendCounter s'))"
      using fresh up cur(1) assms(4,5) by (fastforce simp: leD dest: order.strict_trans1)
  qed
qed

lemma pending_refs_same: "same_keys s s' \<Longrightarrow> pending_refs s' = pending_refs s"
  by (cases "pendingEpoch s"; cases "pendingEpoch s'") (auto simp: same_keys_def pending_refs_def)

lemma same_keysD:
  "same_keys s s' \<Longrightarrow> pending_refs s' = pending_refs s \<and> nextRef s' = nextRef s \<and> sendRatchet s' = sendRatchet s"
  using pending_refs_same [of s s'] by (simp add: same_keys_def)

lemma nonce_inv_media: "nonce_inv s \<Longrightarrow> nonce_inv (media_step kdf op s)"
proof (cases op)
  case (OpDecrypt clk uid f dst)
  assume "nonce_inv s"
  moreover obtain res s' where d: "session_Decrypt kdf clk s uid f dst = (res, s')" by fastforce
  ultimately show ?thesis using session_Decrypt_fields [OF d] same_keysD [of s s'] OpDecrypt
    by (auto intro: nonce_inv_cong [of s])
next
  case (OpEncrypt clk ssrc f dst)
  assume inv: "nonce_inv s"
  obtain res s' where e: "session_Encrypt kdf clk s ssrc f dst = (res, s')" by fastforce
  then have "nonce_inv s'"
  proof (cases rule: session_Encrypt_fields)
    case (none s1)
    note s1 = nonce_inv_select [OF inv none(1)] select_same [OF none(1)]
    have "pending_refs s' \<subseteq> pending_refs s1" "nextRef s' = nextRef s1" "sendRatchet s' = sendRatchet s1"
      using same_keysD [OF none(2)] same_keysD [of s s1] s1 by simp_all
    then show ?thesis using s1 none(3,4,5) nonce_inv_cong [of s1 s'] by simp
  next
    case (ratchet ref s1)
    note s1 = nonce_inv_select [OF inv ratchet(1)] select_same [OF ratchet(1)]
    have "pending_refs s' = pending_refs s1" "nextRef s' = nextRef s1" "sendRatchet s' = sendRatchet s1"
      using same_keysD [OF ratchet(2)] same_keysD [of s s1] s1 by simp_all
    then show ?thesis using s1 ratchet(3,4,5) nonce_inv_next [of s1 ref s'] by simp
  qed
  then show ?thesis using OpEncrypt e by simp
qed

text \<open>A rebuilt epoch brings ratchets no one has used; an activation hands one of them to the sender.\<close>

lemma nonce_inv_rebuilt:
  assumes "nonce_inv s" "rebuildEpochStateLocked kdf E gid s = (Inr e, s')"
  shows "nonce_inv (s'\<lparr>pendingEpoch := Some e\<rparr>)"
proof -
  note r = rebuilt_epoch [OF assms(2)]
  have p: "pending_refs (s'\<lparr>pendingEpoch := Some e\<rparr>) = {nextRef s..<nextRef s'}"
    using r by (simp add: pending_refs_def flip: set_map)
  obtain rs n where s': "s' = s\<lparr>ratchets := rs, nextRef := n\<rparr>" using r by blast
  have old: "r < nextRef s" if "r \<in> used_refs s \<union> send_refs s" for r using assms(1) that by (auto simp: nonce_inv_def)
  have eq: "used_refs (s'\<lparr>pendingEpoch := Some e\<rparr>) = used_refs s" "send_refs (s'\<lparr>pendingEpoch := Some e\<rparr>) = send_refs s"
    "current_ratchet (s'\<lparr>pendingEpoch := Some e\<rparr>) = current_ratchet s"
    using s' by (simp_all add: used_refs_def send_refs_def current_ratchet_def split: option.split)
  have le: "nextRef s \<le> nextRef s'" using r by blast
  have "\<forall>r\<in>used_refs s \<union> send_refs s \<union> {nextRef s..<nextRef s'}. r < nextRef s'" using old le by fastforce
  moreover have "{nextRef s..<nextRef s'} \<inter> (used_refs s \<union> send_refs s) = {}" using old by fastforce
  ultimately show ?thesis using assms(1) s' unfolding nonce_inv_def eq p by simp blast
qed

lemma nonce_inv_activate:
  assumes "nonce_inv s" "pendingEpoch s = Some e"
  shows "nonce_inv (activate_epoch E e s)"
proof -
  let ?s' = "activate_epoch E e s"
  let ?adds = "newEpochAddsSender (activeEpoch s) (Some e)"
  have f: "nextRef ?s' = nextRef s" "sealed ?s' = sealed s" "pendingEpoch ?s' = None"
    "sendRatchet ?s' = map_option ss_ratchet (map_of (es_senders e) (userID s))"
    "retainedSendRatchet ?s' = (if sendRatchet s = None then retainedSendRatchet s else if ?adds then None else sendRatchet s)"
    "sendCounter ?s' = (if sendRatchet s \<noteq> None \<and> ?adds then NonceCounter_Reset (sendCounter s) else sendCounter s)"
    using activate_epoch_core [of E e s] by (simp_all add: core_def)
  have own: "r \<in> pending_refs s" if "sendRatchet ?s' = Some r" for r
    using that f(4) assms(2) by (force simp: pending_refs_def epoch_refs_def dest: map_of_SomeD)
  have used: "used_refs ?s' = used_refs s" "pending_refs ?s' = {}" using f(2,3) by (simp_all add: used_refs_def pending_refs_def)
  have new: "r < nextRef s" "r \<notin> used_refs s" "r \<notin> send_refs s" if "sendRatchet ?s' = Some r" for r
    using own [OF that] assms(1) by (auto simp: nonce_inv_def)
  have send: "send_refs ?s' \<subseteq> set_option (sendRatchet ?s') \<union> send_refs s" using f(5) by (auto simp: send_refs_def split: if_splits)
  have nu: "(r, c) \<notin> set (sealed s)" if "r \<notin> used_refs s" for r c using that by (force simp: used_refs_def)
  have "\<forall>r\<in>used_refs s \<union> send_refs s. r < nextRef s" using assms(1) by (auto simp: nonce_inv_def)
  then have all_refs: "\<forall>r\<in>used_refs ?s' \<union> send_refs ?s'. r < nextRef s" using send new(1) used(1) by fastforce
  show ?thesis unfolding nonce_inv_def
  proof (intro conjI)
    show "\<forall>r \<in> used_refs ?s' \<union> send_refs ?s' \<union> pending_refs ?s'. r < nextRef ?s'"
      using all_refs used(2) f(1) by simp
    show "pending_refs ?s' \<inter> (used_refs ?s' \<union> send_refs ?s') = {}" using used(2) by simp
    show "\<forall>q r'. retainedSendRatchet ?s' = Some q \<and> sendRatchet ?s' = Some r' \<longrightarrow> r' \<noteq> q \<and> r' \<notin> used_refs ?s'"
      using new(2,3) used(1) f(5) by (auto simp: send_refs_def split: if_splits)
    show "unat (counter (sendCounter ?s')) \<le> length (sealed ?s')" "\<forall>(r, c)\<in>set (sealed ?s'). unat c \<le> length (sealed ?s')"
      using assms(1) f(2,6) by (auto simp: nonce_inv_def NonceCounter_Reset_def)
    have cur: "current_ratchet ?s' = sendRatchet ?s' \<or> current_ratchet ?s' = current_ratchet s \<and> sendCounter ?s' = sendCounter s
        \<or> current_ratchet ?s' = sendRatchet s \<and> retainedSendRatchet s \<noteq> None"
      using f(5,6) by (cases "sendRatchet s"; cases "retainedSendRatchet s") (auto simp: current_ratchet_def)
    have "c \<le> counter (sendCounter ?s')" if "length (sealed s) < 2 ^ 64" "current_ratchet ?s' = Some q" "(q, c) \<in> set (sealed s)" for q c
      using cur
    proof (elim disjE conjE)
      assume "current_ratchet ?s' = current_ratchet s" "sendCounter ?s' = sendCounter s"
      then show ?thesis using nonce_invD [OF assms(1) that(1), of q c] that(2,3) by simp
    qed (use that nu new(2) assms(1) in \<open>auto simp: nonce_inv_def\<close>)
    then show "length (sealed ?s') < 2 ^ 64 \<longrightarrow> distinct (sealed ?s') \<and>
       (\<forall>q c. current_ratchet ?s' = Some q \<and> (q, c) \<in> set (sealed ?s') \<longrightarrow> c \<le> counter (sendCounter ?s'))"
      using assms(1) f(2) by (auto simp: nonce_inv_def)
  qed
qed

lemma nonce_inv_restart:
  assumes "nonce_inv s"
  shows "nonce_inv (restart s)"
proof -
  have e: "used_refs (restart s) = used_refs s" "pending_refs (restart s) = {}" "send_refs (restart s) \<subseteq> send_refs s"
    "nextRef (restart s) = nextRef s" "sealed (restart s) = sealed s" "sendCounter (restart s) = sendCounter s" "sendRatchet (restart s) = None"
    by (auto simp: used_refs_def pending_refs_def send_refs_def restart_def clear_group_state_def)
  have "c \<le> counter (sendCounter s)" if "length (sealed s) < 2 ^ 64" "current_ratchet (restart s) = Some q" "(q, c) \<in> set (sealed s)" for q c
  proof (cases "retainedSendRatchet s = None \<or> sendRatchet s = None")
    case True
    then have "current_ratchet (restart s) = current_ratchet s"
      by (auto simp: current_ratchet_def restart_def clear_group_state_def split: option.splits)
    then show ?thesis using nonce_invD [OF assms that(1), of q c] that(2,3) by simp
  next
    case False
    then have "current_ratchet (restart s) = sendRatchet s"
      by (auto simp: current_ratchet_def restart_def clear_group_state_def split: option.splits)
    then have "q \<notin> used_refs s" using False assms that(2) by (auto simp: nonce_inv_def)
    then show ?thesis using that(3) by (force simp: used_refs_def)
  qed
  then show ?thesis using assms e unfolding nonce_inv_def by auto
qed

lemma nonce_inv_drop: "nonce_inv s \<Longrightarrow> nonce_inv (dropSendKeysLocked s)"
  by (auto simp: nonce_defs dropSendKeysLocked_def)

interpretation nonces: session_invariant kdf nonce_inv for kdf
proof (unfold_locales, goal_cases)
  case (1 s' s)
  then show ?case by (auto simp: core_def pending_refs_def intro: nonce_inv_cong [of s])
next
  case (2 s op)
  then show ?case by (rule nonce_inv_media)
next
  case (3 s)
  then show ?case by (rule nonce_inv_cong) (simp_all add: pending_refs_def)
next
  case (4 s E gid e s')
  then show ?case by (rule nonce_inv_rebuilt)
next
  case (5 s)
  then show ?case by (rule nonce_inv_cong) (simp_all add: pending_refs_def resetEpochReadyLocked_def)
next
  case (7 s e E)
  then show ?case by (rule nonce_inv_activate)
next
  case (6 s ready tid np)
  then show ?case by (rule nonce_inv_cong) (simp_all add: pending_refs_def)
next
  case (10 s w w')
  from 10(1) show ?case by (rule nonce_inv_cong) (simp_all add: pending_refs_def swap_watchdog_def)
next
  case (11 uid callbacks opts)
  then show ?case by (simp add: nonce_defs New_def Let_def NewNonceCounter_def)
qed (simp_all only: nonce_inv_restart nonce_inv_drop)

section \<open>Keys and epochs\<close>

text \<open>A well-formed session: the references of the store are exactly those handed out, every ratchet that an
  epoch or the sender holds is in it, every ratchet holds the keys of the base secret it was made
  from, and the send ratchet is the one of the session's own user in the active epoch.\<close>

definition epoch_option_refs :: "epochState option \<Rightarrow> rref set" where
  "epoch_option_refs oe = (case map_option epoch_refs oe of None \<Rightarrow> {} | Some l \<Rightarrow> snd ` set l)"

definition held_refs :: "'c Session \<Rightarrow> rref set" where
  "held_refs s = send_refs s \<union> epoch_option_refs (activeEpoch s) \<union> epoch_option_refs (pendingEpoch s)
     \<union> (\<Union>l\<in>epoch_refs ` set (retainedEpoch s). snd ` set l)"

definition keys_inv :: "kdf \<Rightarrow> 'c Session \<Rightarrow> bool" where
  "keys_inv kdf s \<longleftrightarrow> (\<exists>sec. media_inv kdf sec s) \<and> dom (ratchets s) = {..<nextRef s} \<and> held_refs s \<subseteq> {..<nextRef s}
     \<and> (\<forall>r. sendRatchet s = Some r \<longrightarrow> (\<exists>e. activeEpoch s = Some e \<and> map_of (epoch_refs e) (userID s) = Some r))"

definition kdf_ok :: "kdf \<Rightarrow> bool" where
  "kdf_ok kdf \<longleftrightarrow> kdf_total kdf \<and> kdf_key_length kdf"

lemma same_keys_epochs:
  assumes "same_keys s s'"
  shows "map_option epoch_refs (activeEpoch s') = map_option epoch_refs (activeEpoch s)"
    "map_option epoch_refs (pendingEpoch s') = map_option epoch_refs (pendingEpoch s)"
    "userID s' = userID s" "sendRatchet s' = sendRatchet s" "dom (ratchets s') = dom (ratchets s)" "nextRef s' = nextRef s"
  using assms unfolding same_keys_def by blast+

lemma held_refs_same:
  assumes "same_keys s s'" "retainedSendRatchet s' \<in> {retainedSendRatchet s, None}"
  shows "held_refs s' \<subseteq> held_refs s"
proof -
  have "send_refs s' \<subseteq> send_refs s" using assms(2) same_keys_epochs(4) [OF assms(1)] by (auto simp: send_refs_def)
  moreover have "epoch_option_refs (activeEpoch s') = epoch_option_refs (activeEpoch s)"
    unfolding epoch_option_refs_def same_keys_epochs(1) [OF assms(1)] by (rule refl)
  moreover have "epoch_option_refs (pendingEpoch s') = epoch_option_refs (pendingEpoch s)"
    unfolding epoch_option_refs_def same_keys_epochs(2) [OF assms(1)] by (rule refl)
  moreover have "epoch_refs ` set (retainedEpoch s') \<subseteq> epoch_refs ` set (retainedEpoch s)"
    using assms(1) unfolding same_keys_def by (elim conjE)
  ultimately show ?thesis unfolding held_refs_def by (intro Un_mono UN_mono) simp_all
qed

lemma keys_inv_media:
  assumes "keys_inv kdf s" "kdf_ok kdf"
  shows "keys_inv kdf (media_step kdf op s)"
proof -
  let ?s' = "media_step kdf op s"
  obtain sec where m: "media_inv kdf sec s" using assms(1) by (auto simp: keys_inv_def)
  have "media_inv kdf sec ?s'" "retainedSendRatchet ?s' \<in> {retainedSendRatchet s, None}"
  proof -
    show "media_inv kdf sec ?s'" using m assms(2) unfolding kdf_ok_def
      by (cases op) (auto intro: session_Encrypt_inv [OF m _ _ prod.collapse [symmetric]] session_Decrypt_inv [OF m _ prod.collapse [symmetric]])
    show "retainedSendRatchet ?s' \<in> {retainedSendRatchet s, None}"
    proof (cases op)
      case (OpEncrypt clk ssrc f dst)
      obtain res s' where e: "session_Encrypt kdf clk s ssrc f dst = (res, s')" by fastforce
      have sel: "retainedSendRatchet s1 \<in> {retainedSendRatchet s, None}" if "selectSendRatchetLocked now s = (x, s1)" for now x s1
        using that by (auto simp: selectSendRatchetLocked_def split: option.splits if_splits)
      from e have "retainedSendRatchet s' \<in> {retainedSendRatchet s, None}"
        by (cases rule: session_Encrypt_fields) (use sel in auto)
      then show ?thesis using OpEncrypt e by simp
    next
      case (OpDecrypt clk uid f dst)
      then show ?thesis using session_Decrypt_fields [of kdf clk s uid f dst] by (metis insertI1 media_step.simps(2) prod.collapse)
    qed
  qed
  moreover have sk: "same_keys s ?s'" by (rule media_same)
  moreover have "\<exists>e. activeEpoch ?s' = Some e \<and> map_of (epoch_refs e) (userID ?s') = Some r" if r: "sendRatchet ?s' = Some r" for r
  proof -
    have k: "sendRatchet ?s' = sendRatchet s" "userID ?s' = userID s"
      "map_option epoch_refs (activeEpoch ?s') = map_option epoch_refs (activeEpoch s)" using same_keys_epochs [OF sk] by blast+
    obtain e where e: "activeEpoch s = Some e" "map_of (epoch_refs e) (userID s) = Some r"
      using assms(1) r k(1) unfolding keys_inv_def by metis
    then obtain e' where "activeEpoch ?s' = Some e'" "epoch_refs e' = epoch_refs e" using k(3) by auto
    then show ?thesis using e(2) k(2) by simp
  qed
  moreover have "dom (ratchets ?s') = dom (ratchets s)" "nextRef ?s' = nextRef s" using same_keys_epochs [OF sk] by blast+
  ultimately show ?thesis using assms(1) held_refs_same [OF sk] unfolding keys_inv_def by (metis subset_trans)
qed

text \<open>The fields \<open>keys_inv\<close> depends on; epochs may go and the send ratchets may be dropped.\<close>

lemma keys_inv_mono:
  assumes "keys_inv kdf s" "ratchets s' = ratchets s" "nextRef s' = nextRef s" "held_refs s' \<subseteq> held_refs s" "userID s' = userID s"
    and "set (candidates s') \<subseteq> set (candidates s)" "cipher_ok s \<Longrightarrow> cipher_ok s'"
    and "sendRatchet s' = None \<or> sendRatchet s' = sendRatchet s \<and> activeEpoch s' = activeEpoch s"
  shows "keys_inv kdf s'"
proof -
  obtain sec where m: "media_inv kdf sec s" using assms(1) by (auto simp: keys_inv_def)
  have "media_inv kdf sec s'" using m assms(2,6,7) by (auto simp: media_inv_def list_all_iff)
  then show ?thesis using assms(1-5,8) unfolding keys_inv_def by (metis option.distinct(1) subset_trans)
qed

lemma candidates_set:
  "set (candidates s) = set_option (activeEpoch s) \<union> set_option (pendingEpoch s) \<union> set (retainedEpoch s)"
  by (auto simp: candidates_def split: option.splits)

lemma fresh_entries:
  assumes "list_all2 (fresh_entry export rs) members xs" "(u, x) \<in> set xs"
  shows "sender_ok x \<and> (\<exists>base r. NewKeyRatchet base [] = Inr r \<and> rs (ss_ratchet x) = Some r)"
proof -
  obtain i where "i < length xs" "xs ! i = (u, x)" using assms(2) by (auto simp: in_set_conv_nth)
  then have "fresh_entry export rs (members ! i) (u, x)" using assms(1) by (metis list_all2_nthD2)
  then show ?thesis by (auto simp: fresh_entry_def sender_ok_def)
qed

text \<open>The store after a rebuild: the references are the first numbers, and each new ratchet has the keys of its base secret.\<close>

lemma rebuilt_new:
  assumes "rebuildEpochStateLocked kdf E gid s = (Inr e, s')" "nextRef s \<le> q" "q < nextRef s'"
  shows "\<exists>k. ratchets s' q = Some k \<and> ratchet_inv kdf (baseSecret k) k"
proof -
  obtain export members where fe: "list_all2 (fresh_entry export (ratchets s')) members (es_senders e)" using rebuilt_epoch [OF assms(1)] by blast
  have "snd ` set (epoch_refs e) = {nextRef s..<nextRef s'}" using rebuilt_epoch [OF assms(1)] by (auto simp flip: set_map)
  then have "q \<in> snd ` set (epoch_refs e)" using assms(2,3) by simp
  then obtain u x where "(u, x) \<in> set (es_senders e)" "ss_ratchet x = q" by (auto simp: epoch_refs_def)
  then obtain base k where k: "NewKeyRatchet base [] = Inr k" "ratchets s' q = Some k" using fresh_entries [OF fe] by blast
  then have "baseSecret k = base" by (auto simp: NewKeyRatchet_def split: if_splits)
  then show ?thesis using NewKeyRatchet_inv [OF k(1), of kdf] k(2) by simp
qed

lemma rebuilt_dom:
  assumes "rebuildEpochStateLocked kdf E gid s = (Inr e, s')" "dom (ratchets s) = {..<nextRef s}"
  shows "dom (ratchets s') = {..<nextRef s'}"
proof (intro set_eqI)
  fix q
  note r = rebuilt_epoch [OF assms(1)]
  have d: "q \<in> dom (ratchets s) \<longleftrightarrow> q < nextRef s" using assms(2) by simp
  have old: "q < nextRef s \<or> nextRef s' \<le> q \<Longrightarrow> ratchets s' q = ratchets s q" and le: "nextRef s \<le> nextRef s'" using r by blast+
  have new: "nextRef s \<le> q \<Longrightarrow> q < nextRef s' \<Longrightarrow> q \<in> dom (ratchets s')" using rebuilt_new [OF assms(1), of q] by blast
  consider "q < nextRef s" | "nextRef s \<le> q" "q < nextRef s'" | "nextRef s' \<le> q" by linarith
  then show "q \<in> dom (ratchets s') \<longleftrightarrow> q \<in> {..<nextRef s'}"
    by cases (use d le old new in \<open>auto simp: domIff\<close>)
qed

lemma keys_inv_rebuilt:
  assumes "keys_inv kdf s" "rebuildEpochStateLocked kdf E gid s = (Inr e, s')"
  shows "keys_inv kdf (s'\<lparr>pendingEpoch := Some e\<rparr>)"
proof -
  let ?s' = "s'\<lparr>pendingEpoch := Some e\<rparr>" and ?sec = "\<lambda>sec q. if q < nextRef s then sec q else baseSecret (the (ratchets s' q))"
  note r = rebuilt_epoch [OF assms(2)]
  obtain export members where fe: "list_all2 (fresh_entry export (ratchets s')) members (es_senders e)" using r by blast
  have le: "nextRef s \<le> nextRef s'" and old: "\<And>q. q < nextRef s \<Longrightarrow> ratchets s' q = ratchets s q"
    and refs: "snd ` set (epoch_refs e) = {nextRef s..<nextRef s'}"
    using r by (auto simp flip: set_map)
  have s': "s' = s\<lparr>ratchets := ratchets s', nextRef := nextRef s'\<rparr>" using r by blast
  have same: "sendRatchet s' = sendRatchet s" "retainedSendRatchet s' = retainedSendRatchet s" "activeEpoch s' = activeEpoch s"
    "retainedEpoch s' = retainedEpoch s" "userID s' = userID s" "sendCipher s' = sendCipher s" "sendCipherKey s' = sendCipherKey s"
    by (subst s', simp)+
  obtain sec where m: "media_inv kdf sec s" using assms(1) by (auto simp: keys_inv_def)
  have dom: "dom (ratchets s') = {..<nextRef s'}" by (rule rebuilt_dom [OF assms(2)]) (use assms(1) in \<open>simp add: keys_inv_def\<close>)
  have "ratchet_inv kdf (?sec sec q) k" if k: "ratchets s' q = Some k" for q k
  proof (cases "q < nextRef s")
    case True
    then show ?thesis using old [of q] k m by (simp add: media_inv_def ratchets_ok_def)
  next
    case False
    have "q < nextRef s'" using dom k by auto
    then show ?thesis using rebuilt_new [OF assms(2), of q] False k by auto
  qed
  moreover have "epoch_ok e" using fresh_entries [OF fe] by (auto simp: epoch_ok_def)
  ultimately have "media_inv kdf (?sec sec) ?s'"
    using m same by (auto simp: media_inv_def ratchets_ok_def list_all_iff candidates_set cipher_ok_def)
  moreover have "dom (ratchets ?s') = {..<nextRef ?s'}" using dom by simp
  moreover have "held_refs ?s' \<subseteq> held_refs s \<union> {nextRef s..<nextRef s'}"
    using refs same by (auto simp: held_refs_def send_refs_def epoch_option_refs_def)
  ultimately show ?thesis using assms(1) le same unfolding keys_inv_def by (intro conjI) (blast, simp, fastforce, simp)
qed

lemma keys_inv_activate:
  assumes "keys_inv kdf s" "pendingEpoch s = Some e"
  shows "keys_inv kdf (activate_epoch E e s)"
proof -
  let ?s' = "activate_epoch E e s"
  have f: "ratchets ?s' = ratchets s" "nextRef ?s' = nextRef s" "userID ?s' = userID s" "activeEpoch ?s' = Some e" "pendingEpoch ?s' = None"
    "sendCipher ?s' = sendCipher s" "sendCipherKey ?s' = sendCipherKey s"
    "sendRatchet ?s' = map_option ss_ratchet (map_of (es_senders e) (userID s))"
    "retainedSendRatchet ?s' = (if sendRatchet s = None then retainedSendRatchet s
       else if newEpochAddsSender (activeEpoch s) (Some e) then None else sendRatchet s)"
    "retainedEpoch ?s' = filter (\<lambda>x. case es_expiresAt x of Some t \<Rightarrow> time_now E 5 s < t | None \<Rightarrow> False)
         (retainedEpoch s @ (case activeEpoch s of None \<Rightarrow> [] | Some a \<Rightarrow> [a\<lparr>es_expiresAt := Some (time_now E 1 s + epochRetention)\<rparr>]))"
    using activate_epoch_core [of E e s] by (simp_all add: core_def)
  have exp: "epoch_refs (a\<lparr>es_expiresAt := t\<rparr>) = epoch_refs a" "epoch_ok (a\<lparr>es_expiresAt := t\<rparr>) = epoch_ok a" for a t
    by (simp_all add: epoch_refs_def epoch_ok_def)
  obtain sec where m: "media_inv kdf sec s" using assms(1) by (auto simp: keys_inv_def)
  have ok: "epoch_ok x" if "x \<in> set (candidates s)" for x using m that by (auto simp: media_inv_def list_all_iff)
  have "media_inv kdf sec ?s'"
    using m ok f(1,6,7) unfolding media_inv_def list_all_iff candidates_set f(4,5,10)
    by (auto simp: cipher_ok_def exp assms(2) split: option.splits)
  moreover have own: "map_of (epoch_refs e) (userID s) = map_option ss_ratchet (map_of (es_senders e) (userID s))"
    by (simp add: epoch_refs_def map_of_map)
  moreover have "held_refs ?s' \<subseteq> held_refs s"
  proof -
    have "set_option (map_of (epoch_refs e) (userID s)) \<subseteq> snd ` set (epoch_refs e)" by (force dest: map_of_SomeD)
    then have "send_refs ?s' \<subseteq> send_refs s \<union> epoch_option_refs (pendingEpoch s)"
      using own assms(2) by (auto simp: send_refs_def epoch_option_refs_def f(8,9) split: if_splits)
    moreover have "(\<Union>l\<in>epoch_refs ` set (retainedEpoch ?s'). snd ` set l) \<subseteq>
        (\<Union>l\<in>epoch_refs ` set (retainedEpoch s). snd ` set l) \<union> epoch_option_refs (activeEpoch s)"
      unfolding f(10) by (auto simp: epoch_option_refs_def exp split: option.splits)
    moreover have e: "epoch_option_refs (activeEpoch ?s') = epoch_option_refs (pendingEpoch s)" "epoch_option_refs (pendingEpoch ?s') = {}"
      using f(4,5) assms(2) by (simp_all add: epoch_option_refs_def)
    ultimately show ?thesis unfolding held_refs_def e by auto
  qed
  ultimately show ?thesis using assms(1) f(1,2,3,4,8) unfolding keys_inv_def by (metis subset_trans)
qed

interpretation keys: session_invariant kdf "\<lambda>s. kdf_ok kdf \<longrightarrow> keys_inv kdf s" for kdf
proof (unfold_locales, goal_cases)
  case (1 s' s)
  then show ?case by (auto simp: core_def held_refs_def send_refs_def candidates_set cipher_ok_def intro: keys_inv_mono [of kdf s])
next
  case (2 s op)
  then show ?case by (simp add: keys_inv_media)
next
  case (3 s)
  then show ?case by (auto simp: held_refs_def send_refs_def candidates_set cipher_ok_def epoch_option_refs_def intro: keys_inv_mono [of kdf s])
next
  case (4 s E gid e s')
  then show ?case using keys_inv_rebuilt by blast
next
  case (5 s)
  then show ?case
    by (auto simp: resetEpochReadyLocked_def held_refs_def send_refs_def candidates_set cipher_ok_def intro: keys_inv_mono [of kdf s])
next
  case (7 s e E)
  then show ?case by (simp add: keys_inv_activate)
next
  case (8 s)
  then show ?case
    by (auto simp: restart_def clear_group_state_def held_refs_def send_refs_def candidates_set cipher_ok_def epoch_option_refs_def
        intro: keys_inv_mono [of kdf s])
next
  case (9 s)
  then show ?case
    by (auto simp: dropSendKeysLocked_def held_refs_def send_refs_def candidates_set cipher_ok_def intro: keys_inv_mono [of kdf s])
next
  case (6 s ready tid np)
  then show ?case by (auto simp: held_refs_def send_refs_def candidates_set cipher_ok_def intro: keys_inv_mono [of kdf s])
next
  case (10 s w w')
  then show ?case
    by (auto simp: swap_watchdog_def held_refs_def send_refs_def candidates_set cipher_ok_def intro: keys_inv_mono [of kdf s])
next
  case (11 uid callbacks opts)
  then show ?case
    by (simp add: keys_inv_def media_inv_def ratchets_ok_def New_def Let_def candidates_def cipher_ok_def held_refs_def send_refs_def epoch_option_refs_def)
qed

section \<open>Watchdogs\<close>

text \<open>A watchdog about to make an attempt, or backing off before the next one, stays below the number of
  attempts; its back-off delay is that of its attempt.\<close>

definition backoff_delay :: "retryConfig \<Rightarrow> nat \<Rightarrow> int" where
  "backoff_delay rc i = ((\<lambda>d. min (2 * d) (rc_maxDelay rc)) ^^ i) (rc_delay rc)"

fun watchdog_ok :: "retryConfig \<Rightarrow> watchdog \<Rightarrow> bool" where
  "watchdog_ok rc (Sending ready kp i delay start) \<longleftrightarrow> i < rc_maxAttempts rc \<and> delay = backoff_delay rc i"
| "watchdog_ok rc (Backoff ready kp i delay start) \<longleftrightarrow> Suc i < rc_maxAttempts rc \<and> delay = backoff_delay rc i"
| "watchdog_ok rc _ \<longleftrightarrow> True"

definition watchdogs_inv :: "'c Session \<Rightarrow> bool" where
  "watchdogs_inv s \<longleftrightarrow> retry s = defaultRetryConfig \<and> (\<forall>w\<in>set (watchdogs s). watchdog_ok (retry s) w)"

lemma successor_ok: "successor rc w x \<Longrightarrow> watchdog_ok rc w \<Longrightarrow> watchdog_ok rc x"
  by (induction rule: successor.induct) (auto simp: backoff_delay_def)

lemma watchdogs_inv_cong: "retry s' = retry s \<Longrightarrow> watchdogs s' = watchdogs s \<Longrightarrow> watchdogs_inv s' = watchdogs_inv s"
  by (simp add: watchdogs_inv_def)

interpretation watchers: session_invariant kdf watchdogs_inv for kdf
proof (unfold_locales, goal_cases)
  case (1 s' s)
  then show ?case using watchdogs_inv_cong [of s' s] by (simp add: core_def)
next
  case (2 s op)
  then show ?case using media_same [of s kdf op] watchdogs_inv_cong [of "media_step kdf op s" s] by (simp add: same_keys_def)
next
  case (4 s E gid e s')
  from 4(2) show ?case by (cases rule: rebuild_cases) (use 4(1) watchdogs_inv_cong [of "s'\<lparr>pendingEpoch := Some e\<rparr>" s] in simp_all)
next
  case (10 s w w')
  have "watchdog_ok (retry s) x" if "w' = Some x" for x
    using successor_ok [OF 10(3) [OF that]] 10(1,2) unfolding watchdogs_inv_def by blast
  then show ?case using 10(1) notin_set_remove1
    by (auto simp: watchdogs_inv_def swap_watchdog_def split: option.splits)
qed (auto simp: watchdogs_inv_def resetEpochReadyLocked_def restart_def clear_group_state_def dropSendKeysLocked_def New_def Let_def)

end
