(* ===== verification/Session_Example.thy ===== *)
theory Session_Example
  imports Session_Safety
begin

text \<open>
  A run of a session, for the witnesses of the properties: the session of user 7 negotiates protocol
  version 1, learns its channel and the external sender, creates its group, is told to be alone in
  it (transition 0), and encrypts two frames. The environment answers every call with a fixed value.
\<close>

definition demo_env :: "unit Env" where
  "demo_env = \<lparr>NewClient = (\<lambda>_. Inr ()), FreshKeyPackageBytes = (\<lambda>c. (Inr [1], c)), JoinGroup = (\<lambda>c w. (Returns (Inr [9]), c)),
     GroupInfo = (\<lambda>c g. Inr []), ProcessCommit = (\<lambda>g m c. (Inr (), c)), ProcessPublicMessage = (\<lambda>g m c. (Inr (), c)),
     RevokeProposals = (\<lambda>g rs c. (Inr (), c)), ListMembers = (\<lambda>c g. Inr [[0, 0, 0, 0, 0, 0, 0, 7]]), Epoch = (\<lambda>c g. Inr 1),
     CreateGroupWithExternalSender = (\<lambda>g kp xs c. (Inr g, c)), CommitPendingProposals = (\<lambda>g c. (Inr ([2], []), c)),
     ClientEpochAuthenticator = (\<lambda>c g. Inr (replicate 32 1)), LoadGroupState = (\<lambda>c g. Inr [3]), SaveGroupState = (\<lambda>g st c. (Inr (), c)),
     UnmarshalMLSMessage = (\<lambda>b. Inl []), UnmarshalWelcome = (\<lambda>b. Inr 2), UnmarshalGroupInfo = (\<lambda>b. Inr []),
     UnmarshalCommit = (\<lambda>b. Inr []), UnmarshalProposal = (\<lambda>b. Inl []),
     UnmarshalGroupState = (\<lambda>b. Inr \<lparr>gs_ExporterSecret = Some (replicate 16 7), gs_CipherSuite = 2\<rparr>),
     ParseSingleExternalSender = (\<lambda>b. Inr None), UnmarshalExternalSendersExtension = (\<lambda>b. Inr []),
     DeriveSecret = (\<lambda>cs s l. Inr s), SuiteHash = (\<lambda>cs b. Inr b), MLS128DHKEMP256 = 2, ExtensionTypeExternalSenders = 5,
     SenderTypeExternal = 2, ContentTypeProposal = 2, ProposalTypeAdd = 1, ProposalTypeRemove = 3,
     env_send = (\<lambda>ms. None), env_during = (\<lambda>ms. []), env_clock = (\<lambda>k ms. 0)\<rparr>"


text \<open>The definitions the handlers of this run unfold to.\<close>

lemmas handler_defs = OnSelectProtocolAck_def OnDavePrepareTransition_def OnDaveMLSExternalSenderPackage_def SetChannelID_def
  setTransportOnlyLocked_def clear_group_state_def resetEpochReadyLocked_def endDegradedLocked_def park_send_ratchet_def
  prepare_key_package_def ensurePendingKeyPackageLocked_def ensureMLSClientLocked_def freshKeyPackageLocked_def sendKeyPackageLocked_def
  client_call_def client_read_def sendLocked_def createGroupWithExternalSenderLocked_def activateSoleMemberEpochLocked_def
  rebuildEpochStateLocked_def activatePendingEpochLocked_def activate_epoch_def switch_send_ratchet_def take_own_ratchet_def
  drainProposalQueueLocked_def pruneRetainedEpochsLocked_def signalEpochReadyLocked_def markRecoveredLocked_def isClosed_def time_now_def
  retain_send_ratchet_def dropSendKeysLocked_def

lemma demo_id: "identityBytesToUserID [0, 0, 0, 0, 0, 0, 0, 7] = Inr (''7'', 7)"
  by code_simp

lemma demo_identity: "userIDToIdentityBytes ''7'' = Inr (BigEndian_PutUint64 7)"
proof -
  have "FormatUint 7 = ''7''" by code_simp
  then show ?thesis using ParseUint_Format [of 7] by (simp add: userIDToIdentityBytes_def)
qed

lemma demo_env_simps [simp]:
  "NewClient demo_env i = Inr ()" "FreshKeyPackageBytes demo_env c = (Inr [1], c)" "ListMembers demo_env c g = Inr [[0, 0, 0, 0, 0, 0, 0, 7]]"
  "Epoch demo_env c g = Inr 1" "CreateGroupWithExternalSender demo_env g kp xs c = (Inr g, c)" "env_send demo_env ms = None"
  "env_during demo_env ms = []" "env_clock demo_env k ms = 0"
  by (simp_all add: demo_env_def)

lemma demo_base: "\<exists>b. DeriveSenderBaseSecret (Some (adapter_exporter pad_kdf demo_env (Some ()) g)) 7 = Inr b \<and> length b = 16"
  by (simp add: DeriveSenderBaseSecret_def adapter_exporter_def exporterAdapter_Export_def demo_env_def ExportWithMLSExporterSecret_def pad_kdf_def BaseSecretLen_def)


definition demo_ready :: "unit Session" where
  "demo_ready = (New ''7'' True [])\<lparr>protocolVersion := 1, sendProtocolVersion := 1, epochReady := 1, closedChans := {0}, mlsClient := Some (),
     pendingKeyPackage := [1], sent := [SendMLSKeyPackage [1]], channelID := 5, externalSenderPackage := [4], groupID := [0, 0, 0, 0, 0, 0, 0, 5]\<rparr>"

lemma demo_steps:
  "handle pad_kdf demo_env (ExternalSenderPackage [4]) (handle pad_kdf demo_env (CallSetChannelID True 5)
    (handle pad_kdf demo_env (SelectProtocolAck 1) (New ''7'' True []))) = demo_ready"
proof -
  have g: "BigEndian_PutUint64 5 = [0,0,0,0,0,0,0,5]" by code_simp
  have 1: "handle pad_kdf demo_env (SelectProtocolAck 1) (New ''7'' True []) =
     (New ''7'' True [])\<lparr>protocolVersion := 1, sendProtocolVersion := 1, epochReady := 1, closedChans := {0}, mlsClient := Some (),
     pendingKeyPackage := [1], sent := [SendMLSKeyPackage [1]]\<rparr>"
    by (simp add: handler_defs New_def demo_identity Let_def)
  show ?thesis unfolding 1 demo_ready_def
    by (simp add: handler_defs New_def Let_def g)
qed

definition demo_joined :: "unit Session" where
  "demo_joined = handle pad_kdf demo_env (PrepareTransition 0 1) demo_ready"

definition demo_own :: epochState where
  "demo_own = \<lparr>es_id = 1, es_groupID = [0, 0, 0, 0, 0, 0, 0, 5],
     es_senders = [(''7'', \<lparr>ss_ratchet = 0, ss_expander = NewNonceExpander, ss_replay = newReplayWindow\<rparr>)], es_expiresAt = None\<rparr>"

lemma demo_rebuild:
  "\<exists>r. rebuildEpochStateLocked pad_kdf demo_env [0, 0, 0, 0, 0, 0, 0, 5] demo_ready = (Inr demo_own, demo_ready\<lparr>ratchets := [0 \<mapsto> r], nextRef := 1\<rparr>)"
proof -
  obtain b where b: "DeriveSenderBaseSecret (Some (adapter_exporter pad_kdf demo_env (Some ()) [0, 0, 0, 0, 0, 0, 0, 5])) 7 = Inr b" "length b = 16" 
    using demo_base [of "[0, 0, 0, 0, 0, 0, 0, 5]"] by blast
  then obtain r where r: "NewKeyRatchet b [] = Inr r" by (simp add: NewKeyRatchet_def BaseSecretLen_def)
  have "mlsClient demo_ready = Some ()" "ratchets demo_ready = Map.empty" "nextRef demo_ready = 0"
    by (simp_all add: demo_ready_def New_def Let_def)
  then show ?thesis using b(1) r
    by (intro exI [of _ r]) (simp add: rebuildEpochStateLocked_def client_read_def demo_id demo_own_def)
qed

text \<open>The session as it is when its own epoch is built and about to be activated.\<close>

definition demo_pending :: "KeyRatchet \<Rightarrow> unit Session" where
  "demo_pending r = demo_ready\<lparr>ratchets := [0 \<mapsto> r], nextRef := 1, pendingEpoch := Some demo_own, pendingGroupID := [0, 0, 0, 0, 0, 0, 0, 5]\<rparr>"

lemma demo_joined_eq:
  assumes "rebuildEpochStateLocked pad_kdf demo_env [0, 0, 0, 0, 0, 0, 0, 5] demo_ready = (Inr demo_own, demo_ready\<lparr>ratchets := [0 \<mapsto> r], nextRef := 1\<rparr>)"
  shows "demo_joined = (activate_epoch demo_env demo_own (demo_pending r))\<lparr>pendingTransitionID := 0\<rparr>"
proof -
  have f: "demo_ready\<lparr>pendingTransitionID := 0, protocolVersion := 1, activeTransitionID := 0, sendProtocolVersion := 1\<rparr> = demo_ready"
    "groupID demo_ready = [0, 0, 0, 0, 0, 0, 0, 5]" "pendingEpoch demo_ready = None" "activeEpoch demo_ready = None"
    by (simp_all add: demo_ready_def New_def Let_def)
  have "activateSoleMemberEpochLocked pad_kdf demo_env demo_ready = activatePendingEpochLocked pad_kdf demo_env (demo_pending r)"
    by (simp add: activateSoleMemberEpochLocked_def f(2,3) assms demo_pending_def)
  moreover have "pendingEpoch (demo_pending r) = Some demo_own" by (simp add: demo_pending_def)
  moreover have "proposalQueue (activate_epoch demo_env demo_own (demo_pending r)) = []"
    by (simp add: activate_epoch_keeps demo_pending_def demo_ready_def New_def Let_def)
  ultimately show ?thesis
    by (simp add: demo_joined_def OnDavePrepareTransition_def activatePendingEpochLocked_def drainProposalQueueLocked_def Let_def f)
qed

lemma demo_joined_active: "\<exists>r. demo_joined = (activate_epoch demo_env demo_own (demo_pending r))\<lparr>pendingTransitionID := 0\<rparr>"
  using demo_rebuild demo_joined_eq by blast

lemma demo_joined_fields:
  "sendRatchet demo_joined = Some 0" "retainedSendRatchet demo_joined = None" "sealed demo_joined = []" "counter (sendCounter demo_joined) = 0"
  "activeEpoch demo_joined = Some demo_own" "pendingEpoch demo_joined = None" "epochReady demo_joined = 1" "closedChans demo_joined = {0, 1}"
  "userID demo_joined = ''7''"
proof -
  obtain r where j: "demo_joined = (activate_epoch demo_env demo_own (demo_pending r))\<lparr>pendingTransitionID := 0\<rparr>" using demo_joined_active by blast
  have "core demo_joined = core (activate_epoch demo_env demo_own (demo_pending r))" unfolding j by (rule core_upd)
  then show "sendRatchet demo_joined = Some 0" "retainedSendRatchet demo_joined = None" "sealed demo_joined = []" "counter (sendCounter demo_joined) = 0"
    "activeEpoch demo_joined = Some demo_own" "pendingEpoch demo_joined = None" "epochReady demo_joined = 1" "closedChans demo_joined = {0, 1}"
    "userID demo_joined = ''7''"
    by (simp_all add: activate_epoch_core)
      (simp_all add: core_def demo_pending_def demo_ready_def New_def Let_def demo_own_def NewNonceCounter_def insert_commute)
qed

lemma demo_reachable: "reachable pad_kdf (\<lambda>E. E = demo_env) demo_joined"
proof -
  let ?R = "reachable pad_kdf (\<lambda>E. E = demo_env)"
  have h: "?R (handle pad_kdf demo_env x s)" if "?R s" for x s
    by (rule reachable.step [OF that session_step.handler]) simp
  have "?R demo_ready" unfolding demo_steps [symmetric] by (intro h reachable.start)
  then show ?thesis unfolding demo_joined_def by (rule h)
qed

definition demo_sent :: "unit Session" where
  "demo_sent = free_step pad_kdf (FreeMedia (OpEncrypt (\<lambda>_. 0) 1 [1] (replicate 64 0)))
     (free_step pad_kdf (FreeMedia (OpEncrypt (\<lambda>_. 0) 1 [1] (replicate 64 0))) demo_joined)"

lemma demo_encrypt:
  assumes "sendRatchet s = Some r" "retainedSendRatchet s = None"
  shows "let s' = free_step kdf (FreeMedia (OpEncrypt clk ssrc f dst)) s in
    sealed s' = sealed s @ [(r, counter (sendCounter s) + 1)] \<and> counter (sendCounter s') = counter (sendCounter s) + 1
      \<and> sendRatchet s' = Some r \<and> retainedSendRatchet s' = None"
proof -
  have sel: "selectSendRatchetLocked now s = (Some r, s)" for now using assms by (simp add: selectSendRatchetLocked_def)
  obtain res s' where e: "session_Encrypt kdf clk s ssrc f dst = (res, s')" by fastforce
  from e show ?thesis
    by (cases rule: session_Encrypt_fields) (use assms sel e same_keys_epochs(4) [of s s'] in \<open>auto simp: next_counter_def\<close>)
qed

lemma demo_sealed: "sealed demo_sent = [(0, 1), (0, 2)]" "reachable pad_kdf (\<lambda>E. E = demo_env) demo_sent"
proof -
  show "sealed demo_sent = [(0, 1), (0, 2)]"
    using demo_encrypt [OF demo_joined_fields(1,2), of pad_kdf] demo_encrypt [of "free_step pad_kdf (FreeMedia (OpEncrypt (\<lambda>_. 0) 1 [1] (replicate 64 0))) demo_joined" 0 pad_kdf]
    unfolding demo_sent_def Let_def by (metis (no_types, lifting) demo_joined_fields(3,4) append_Cons append_Nil one_add_one add.left_neutral)
  show "reachable pad_kdf (\<lambda>E. E = demo_env) demo_sent"
    unfolding demo_sent_def by (intro reachable.step [OF _ session_step.free] demo_reachable)
qed

end
