(* ===== verification/Session_Properties.thy ===== *)
theory Session_Properties
  imports Session_Example
begin

text \<open>
  Properties of every reachable session, over any interleaving of handlers, media calls, other calls and
  watchdogs: nonces, keys, and the work the watchdogs can still do.
\<close>

section \<open>Nonces\<close>

text \<open>C1 nonce_never_reused. In every reachable state, over all epochs, transitions, resets and retained
  ratchets, and with frames encrypted while a handler waits for the gateway, no ratchet has been
  used twice with the same generation and truncated nonce, for up to \<open>2 ^ 56\<close> frames. A generation of a
  ratchet is one AES key, so a session uses no key of a ratchet twice with one nonce; that different
  epochs have different secrets is what MLS provides.\<close>

theorem nonce_never_reused:
  assumes "reachable kdf Ok s" "length (sealed s) < 2 ^ 56"
  shows "distinct (map (\<lambda>(ref, c). (ref, ucast (drop_bit 24 c) :: u32, ucast c :: u32)) (sealed s))"
proof -
  have inv: "nonce_inv s" by (rule nonces.reachable [OF assms(1)])
  have small: "unat c < 2 ^ 56" if "(r, c) \<in> set (sealed s)" for r c
    using inv that assms(2) by (auto simp: nonce_inv_def)
  have "inj_on (\<lambda>(ref, c). (ref, ucast (drop_bit 24 c) :: u32, ucast c :: u32)) (set (sealed s))"
  proof (rule inj_onI)
    fix x y
    assume xy: "x \<in> set (sealed s)" "y \<in> set (sealed s)"
      "(case x of (ref, c) \<Rightarrow> (ref, ucast (drop_bit 24 c) :: u32, ucast c :: u32)) = (case y of (ref, c) \<Rightarrow> (ref, ucast (drop_bit 24 c), ucast c))"
    obtain r c q d where p: "x = (r, c)" "y = (q, d)" by fastforce
    have "c = d" by (rule pair_counter [OF small small]) (use xy p in auto)
    then show "x = y" using xy(3) p by simp
  qed
  moreover have "distinct (sealed s)" using inv assms(2) by (simp add: nonce_inv_def)
  ultimately show ?thesis by (simp add: distinct_map)
qed

theorem nonce_never_reused_witness:
  "distinct (map (\<lambda>(ref, c). (ref, ucast (drop_bit 24 c) :: u32, ucast c :: u32)) (sealed demo_sent))
     \<and> sealed demo_sent = [(0, 1), (0, 2)]"
  using nonce_never_reused [OF demo_sealed(2)] demo_sealed(1) by simp

section \<open>Keys\<close>

lemma refresh_cipher_error: "refresh_cipher k s = Inl e \<Longrightarrow> e \<noteq> NilDereference"
  by (auto simp: refresh_cipher_def split: sum.splits if_splits)

lemma epoch_option_refs_simps [simp]: "epoch_option_refs None = {}" "epoch_option_refs (Some e) = snd ` set (epoch_refs e)"
  by (simp_all add: epoch_option_refs_def)

lemma encrypt_no_nil:
  fixes s :: "'c Session"
  assumes "held_refs s \<subseteq> dom (ratchets s)"
  shows "fst (session_Encrypt kdf clk s ssrc f dst) \<noteq> Inl NilDereference"
proof -
  obtain x s1 where sel: "selectSendRatchetLocked (clk 0) s = (x, s1)" by fastforce
  have r: "\<exists>k. ratchets s1 ref = Some k" if "x = Some ref" for ref
  proof -
    have "ref \<in> send_refs s" using sel that by (auto simp: selectSendRatchetLocked_def send_refs_def split: option.splits if_splits)
    moreover have "ratchets s1 = ratchets s" using select_fields [OF sel] by blast
    ultimately show ?thesis using assms by (auto simp: held_refs_def)
  qed
  have c: "of_codec m \<noteq> Inl NilDereference" for m :: "codec_error + bytes" by (cases m) auto
  have cp: "copyPassthrough dst f \<noteq> Inl NilDereference" by (simp add: copyPassthrough_def)
  have ef: "fst (encrypt_frame kdf clk ref t ssrc f dst) \<noteq> Inl NilDereference" if "ratchets t ref = Some k" for ref t k
    using that c by (auto simp: encrypt_frame_def Let_def dest: refresh_cipher_error split: prod.splits sum.splits option.splits)
  show ?thesis
  proof (cases x)
    case None
    then show ?thesis using sel cp by (simp add: session_Encrypt_def)
  next
    case (Some ref)
    then show ?thesis using sel ef r [OF Some] by (auto simp: session_Encrypt_def)
  qed
qed

lemma decrypt_candidate_no_nil:
  assumes "decrypt_candidate kdf clk uid f tn dst e rs = (r, e1, rs1)" "\<And>x. map_of (es_senders e) uid = Some x \<Longrightarrow> rs (ss_ratchet x) \<noteq> None"
  shows "r \<noteq> Return (Inl NilDereference) \<and> r \<noteq> Continue NilDereference"
proof (cases "map_of (es_senders e) uid")
  case None
  then show ?thesis using assms(1) by (auto simp: decrypt_candidate_def)
next
  case (Some x)
  obtain k where "rs (ss_ratchet x) = Some k" using assms(2) [OF Some] by blast
  then show ?thesis using assms(1) Some by (auto simp: decrypt_candidate_def Let_def split: prod.splits sum.splits if_splits)
qed

lemma decrypt_loop_no_nil:
  assumes "\<forall>e\<in>set es. snd ` set (epoch_refs e) \<subseteq> dom rs" "le \<noteq> Some NilDereference"
    and "decrypt_loop kdf clk i uid f tn dst es rs le n = (res, le', n', es', rs')"
  shows "res \<noteq> Some (Inl NilDereference) \<and> le' \<noteq> Some NilDereference"
  using assms
proof (induction es arbitrary: i rs le n n' es' rs')
  case (Cons e es)
  obtain r e1 rs1 where c: "decrypt_candidate kdf (clk (Suc i)) uid f tn dst e rs = (r, e1, rs1)" by (metis prod.exhaust)
  have rs1: "dom rs1 = dom rs" using decrypt_candidate_refs [OF c] by blast
  have "rs (ss_ratchet x) \<noteq> None" if "map_of (es_senders e) uid = Some x" for x
  proof -
    have "(uid, ss_ratchet x) \<in> set (epoch_refs e)" using map_of_SomeD [OF that] by (force simp: epoch_refs_def)
    then have "ss_ratchet x \<in> snd ` set (epoch_refs e)" by force
    moreover have "snd ` set (epoch_refs e) \<subseteq> dom rs" using Cons.prems(1) by simp
    ultimately show ?thesis by blast
  qed
  then have r: "r \<noteq> Return (Inl NilDereference)" "r \<noteq> Continue NilDereference"
    using decrypt_candidate_no_nil [OF c] by blast+
  show ?case
  proof (cases "\<exists>x. r = Return x")
    case True
    then obtain x where "r = Return x" by blast
    then have "res = Some x" "le' = le" using Cons.prems(3) c by simp_all
    then show ?thesis using Cons.prems(2) r(1) \<open>r = Return x\<close> by simp
  next
    case False
    define le1 where "le1 = (case r of Continue err \<Rightarrow> Some err | RejectReplay \<Rightarrow> Some ErrDecryptionFailed | _ \<Rightarrow> le)"
    define n1 where "n1 = (if r = RejectReplay then n + 1 else n)"
    obtain res2 le2 n2 es2 rs2 where l: "decrypt_loop kdf clk (Suc i) uid f tn dst es rs1 le1 n1 = (res2, le2, n2, es2, rs2)"
      by (metis prod_cases5)
    have "res = res2" "le' = le2" using Cons.prems(3) c l False by (cases r; simp add: le1_def n1_def)+
    then have "decrypt_loop kdf clk (Suc i) uid f tn dst es rs1 le1 n1 = (res, le', n2, es2, rs2)" using l by simp
    moreover have "le1 \<noteq> Some NilDereference" using r(2) Cons.prems(2) by (auto simp: le1_def split: candidate_result.splits)
    ultimately show ?thesis using Cons.IH [of rs1 le1 "Suc i" n1] Cons.prems(1) rs1 by auto
  qed
qed simp

lemma ratchets_prune: "ratchets (pruneRetainedEpochsLocked now s) = ratchets s"
  by (simp add: pruneRetainedEpochsLocked_def)

lemma decrypt_no_nil:
  assumes "\<forall>e\<in>set (candidates s). snd ` set (epoch_refs e) \<subseteq> dom (ratchets s)"
  shows "fst (session_Decrypt kdf clk s uid f dst) \<noteq> Inl NilDereference"
proof -
  let ?s1 = "pruneRetainedEpochsLocked (clk 0 0) s"
  have "set (candidates ?s1) \<subseteq> set (candidates s)" by (rule prune_candidates(1))
  then have ok: "\<forall>e\<in>set (candidates ?s1). snd ` set (epoch_refs e) \<subseteq> dom (ratchets ?s1)"
    using assms by (subst ratchets_prune) blast
  have L: "res \<noteq> Some (Inl NilDereference) \<and> le \<noteq> Some NilDereference"
    if "decrypt_loop kdf clk 0 uid f tn dst (candidates ?s1) (ratchets ?s1) None 0 = (res, le, n, es, rs)" for tn res le n es rs
    by (rule decrypt_loop_no_nil [OF ok _ that]) simp
  show ?thesis
  proof (cases "LooksLikeDAVEFrame f \<and> (\<exists>p. Parse f = Inr p)")
    case False
    then show ?thesis by (cases "Parse f") (auto simp: session_Decrypt_def copyPassthrough_def)
  next
    case True
    then obtain p where p: "LooksLikeDAVEFrame f" "Parse f = Inr p" by blast
    obtain r le n es rs where l: "decrypt_loop kdf clk 0 uid f (pf_TruncatedNonce p) dst (candidates ?s1) (ratchets ?s1) None 0 = (r, le, n, es, rs)"
      by (metis prod_cases5)
    show ?thesis using L [OF l] p l by (auto simp: session_Decrypt_def Let_def split: option.splits)
  qed
qed

text \<open>C4 session_wf. Every reachable session is well-formed: each ratchet held by the sender or by an epoch
  is in the store and has the keys of one base secret, each replay window is consistent, the cached
  cipher belongs to the cached key, and the send ratchet is the session's own in the active epoch.
  In particular no media call meets a missing ratchet.\<close>

theorem session_wf:
  assumes "reachable kdf Ok s" "kdf_ok kdf"
  shows "keys_inv kdf s \<and> fst (session_Encrypt kdf clk s ssrc f dst) \<noteq> Inl NilDereference
    \<and> fst (session_Decrypt kdf clk' s uid f' dst') \<noteq> Inl NilDereference"
proof (intro conjI)
  show inv: "keys_inv kdf s" using keys.reachable [OF assms(1)] assms(2) by blast
  then have held: "held_refs s \<subseteq> dom (ratchets s)" by (simp add: keys_inv_def)
  then show "fst (session_Encrypt kdf clk s ssrc f dst) \<noteq> Inl NilDereference" by (rule encrypt_no_nil)
  have "\<forall>e\<in>set (candidates s). snd ` set (epoch_refs e) \<subseteq> held_refs s"
    unfolding candidates_set held_refs_def by (cases "activeEpoch s"; cases "pendingEpoch s") auto
  then show "fst (session_Decrypt kdf clk' s uid f' dst') \<noteq> Inl NilDereference" using held by (intro decrypt_no_nil) blast
qed

theorem session_wf_witness: "keys_inv pad_kdf demo_sent"
  using session_wf [OF demo_sealed(2)] pad_kdf by (simp add: kdf_ok_def)

end
