(* ===== verification/Session_Recovery.thy ===== *)
theory Session_Recovery
  imports Session_Example
begin

text \<open>
  What the watchdogs can do: the messages one watchdog sends in its whole life and the waits between
  them (\<open>watchdog_life\<close>), and that the watchdogs of a session that gets no more calls come to an end.
\<close>

section \<open>What the media calls leave alone\<close>

definition rest :: "'c Session \<Rightarrow> _" where
  "rest s = (hasCallbacks s, protocolVersion s, sendProtocolVersion s, transportOnly s, plaintextRejectedFrom s, plaintextGrace s,
     activeTransitionID s, pendingTransitionID s, mlsClient s, groupID s, pendingGroupID s, externalSenderPackage s, pendingKeyPackage s,
     proposalQueue s, pendingCommitBytes s, preCommitGroupState s, epochReady s, closedChans s, recoveryAttempts s, sent s, panicked s)"

lemma rest_upd [simp]:
  "rest (s\<lparr>retry := a1\<rparr>) = rest s" "rest (s\<lparr>channelID := a2\<rparr>) = rest s" "rest (s\<lparr>ssrcCodecs := a3\<rparr>) = rest s" "rest (s\<lparr>users := a4\<rparr>) = rest s"
  "rest (s\<lparr>activeEpoch := a5\<rparr>) = rest s" "rest (s\<lparr>pendingEpoch := a6\<rparr>) = rest s" "rest (s\<lparr>retainedEpoch := a7\<rparr>) = rest s"
  "rest (s\<lparr>sendCounter := a8\<rparr>) = rest s" "rest (s\<lparr>sendRatchet := a9\<rparr>) = rest s" "rest (s\<lparr>retainedSendRatchet := b1\<rparr>) = rest s"
  "rest (s\<lparr>retainedSendExpiresAt := b2\<rparr>) = rest s" "rest (s\<lparr>sendCipher := b3\<rparr>) = rest s" "rest (s\<lparr>sendCipherKey := b4\<rparr>) = rest s"
  "rest (s\<lparr>stats := b5\<rparr>) = rest s" "rest (s\<lparr>degradedSince := b6\<rparr>) = rest s" "rest (s\<lparr>shutdown := b7\<rparr>) = rest s"
  "rest (s\<lparr>ratchets := b8\<rparr>) = rest s" "rest (s\<lparr>nextRef := b9\<rparr>) = rest s" "rest (s\<lparr>watchdogs := c1\<rparr>) = rest s" "rest (s\<lparr>sealed := c2\<rparr>) = rest s"
  by (simp_all add: rest_def)

lemma rest_encrypt_frame: "rest (snd (encrypt_frame kdf clk ref s ssrc f dst)) = rest s"
proof -
  have r: "rest x = rest y" if "refresh_cipher k y = Inr x" for k and x y :: "'a Session"
    using that by (auto simp: refresh_cipher_def split: if_splits sum.splits)
  show ?thesis
    by (auto simp: encrypt_frame_def Let_def count_encrypt_failure_def split: prod.splits option.splits sum.splits dest: r)
qed

lemma rest_media [simp]: "rest (media_step kdf op s) = rest s"
proof (cases op)
  case (OpEncrypt clk ssrc f dst)
  have "rest (snd (selectSendRatchetLocked now s)) = rest s" for now
    by (simp add: selectSendRatchetLocked_def split: option.splits)
  then have "rest s1 = rest s" if "selectSendRatchetLocked (clk 0) s = (x, s1)" for x s1 using that by (metis snd_conv)
  then show ?thesis using OpEncrypt
    by (auto simp: session_Encrypt_def rest_encrypt_frame count_encrypt_failure_def split: prod.splits option.splits)
next
  case (OpDecrypt clk uid f dst)
  have p: "rest (pruneRetainedEpochsLocked now t) = rest t" "rest (put_candidates es t) = rest t" for now es and t :: "'a Session"
    by (simp_all add: pruneRetainedEpochsLocked_def put_candidates_def Let_def)
  show ?thesis unfolding OpDecrypt media_step.simps
    by (auto simp: session_Decrypt_def p count_decrypt_failure_def Let_def split: prod.splits option.splits sum.splits)
qed

lemma rest_free [simp]: "rest (free_step kdf op s) = rest s"
  by (cases op) (simp_all add: AddUser_def RemoveUser_def AssignSsrcToCodec_def Close_def)

lemma rest_frees: "rest (fold (free_step kdf) ops s) = rest s"
  by (induction ops arbitrary: s) simp_all

lemma rest_send: "rest (snd (sendLocked kdf E msg s)) = rest (s\<lparr>sent := sent s @ [msg]\<rparr>)"
  by (simp add: sendLocked_def Let_def rest_frees)

section \<open>The work left to the watchdogs\<close>

definition wview :: "'c Session \<Rightarrow> nat \<times> watchdog list \<times> retryConfig" where
  "wview s = (recoveryAttempts s, watchdogs s, retry s)"

lemma wview_free: "wview (fold (free_step kdf) ops s) = wview s"
proof (induction ops arbitrary: s)
  case (Cons op ops)
  have "watchdogs (free_step kdf op s) = watchdogs s \<and> retry (free_step kdf op s) = retry s"
  proof (cases op)
    case (FreeMedia m)
    then show ?thesis using media_same [of s kdf m] by (simp add: same_keys_def)
  qed (simp_all add: AddUser_def RemoveUser_def AssignSsrcToCodec_def Close_def)
  moreover have "recoveryAttempts (free_step kdf op s) = recoveryAttempts s" using rest_free [of kdf op s] by (simp add: rest_def)
  ultimately show ?case using Cons.IH [of "free_step kdf op s"] by (simp add: wview_def)
qed simp

lemma wview_send: "wview (snd (sendLocked kdf E msg s)) = wview s"
  by (simp add: sendLocked_def Let_def wview_free) (simp add: wview_def)

lemma wview_steps:
  "wview (snd (sendKeyPackageLocked kdf E kp s)) = wview s" "wview (sendInvalidCommitWelcomeLocked kdf E tid s) = wview s"
  "wview (invalidateMLSStateLocked E s) = wview s" "wview (snd (freshKeyPackageLocked E s)) = wview s" "wview (retry_leave E st s) = wview s"
  "wview (snd (sendAttempt kdf E ready kp s)) = wview s"
proof -
  show kp: "wview (snd (sendKeyPackageLocked kdf E kp s)) = wview s"
    using wview_send [of kdf E "SendMLSKeyPackage kp" s]
    by (auto simp: sendKeyPackageLocked_def snd_sbind wview_def split: sum.splits)
  show "wview (snd (sendAttempt kdf E ready kp s)) = wview s" using kp by (simp add: sendAttempt_def)
  show "wview (sendInvalidCommitWelcomeLocked kdf E tid s) = wview s" by (simp add: sendInvalidCommitWelcomeLocked_def wview_send)
  show "wview (invalidateMLSStateLocked E s) = wview s"
    by (simp add: invalidateMLSStateLocked_def resetEpochReadyLocked_def markDegradedLocked_def wview_def Let_def)
  show "wview (snd (freshKeyPackageLocked E s)) = wview s"
    by (simp add: freshKeyPackageLocked_def snd_sbind ensureMLSClientLocked_def client_call_def go_panic_def wview_def
        split: sum.splits option.splits prod.splits)
  show "wview (retry_leave E st s) = wview s" by (simp add: retry_leave_def wview_def split: option.splits)
qed

text \<open>The moves a watchdog can still make, when a session has recovered \<open>a\<close> times and \<open>n\<close> attempts to send are
  allowed: two for every attempt, one to wait, one to finish, and as many again for every recovery
  that is left.\<close>

definition finish_weight :: "nat \<Rightarrow> nat \<Rightarrow> nat" where
  "finish_weight n a = 1 + (maxRecoveryAttempts - a) * (2 * n + 3)"

fun weight :: "nat \<Rightarrow> nat \<Rightarrow> watchdog \<Rightarrow> nat" where
  "weight n a (Waiting ready tid np) = 2 * n + 2 + finish_weight n (Suc a)"
| "weight n a (Sending ready kp i delay start) = 2 * (n - i) + finish_weight n a"
| "weight n a (Backoff ready kp i delay start) = 2 * (n - i) - 1 + finish_weight n a"
| "weight n a (Finishing ready err) = finish_weight n a"

definition work_left :: "'c Session \<Rightarrow> nat" where
  "work_left s = (\<Sum>w\<leftarrow>watchdogs s. weight (rc_maxAttempts (retry s)) (recoveryAttempts s) w)"

lemma finish_weight_pos: "0 < finish_weight n a" by (simp add: finish_weight_def)

lemma finish_weight_mono: "a \<le> b \<Longrightarrow> finish_weight n b \<le> finish_weight n a"
  by (simp add: finish_weight_def)

lemma weight_mono: "a \<le> b \<Longrightarrow> weight n b w \<le> weight n a w"
  by (cases w) (simp_all add: finish_weight_mono)

lemma finish_weight_rearm: "a < maxRecoveryAttempts \<Longrightarrow> weight n a (Waiting ready tid np) < finish_weight n a"
proof -
  assume "a < maxRecoveryAttempts"
  then obtain k where "maxRecoveryAttempts - a = Suc k" "maxRecoveryAttempts - Suc a = k" by (metis Suc_diff_Suc)
  then show ?thesis by (simp add: finish_weight_def)
qed

text \<open>Every move takes more work away than it adds.\<close>

lemma move_work:
  assumes "watchdog_move kdf Ok w s w' s'" "watchdog_ok (retry s) w"
  shows "\<exists>new. watchdogs s' = watchdogs s @ new \<and> retry s' = retry s \<and> recoveryAttempts s \<le> recoveryAttempts s'
    \<and> (let u = weight (rc_maxAttempts (retry s)) (recoveryAttempts s') in
       (\<Sum>x\<leftarrow>new. u x) + (case w' of None \<Rightarrow> 0 | Some x \<Rightarrow> u x) < weight (rc_maxAttempts (retry s)) (recoveryAttempts s) w)"
  using assms
proof (induction rule: watchdog_move.induct)
  case (wait_over s ready tid np)
  then show ?case by simp
next
  case (wait_timeout E ready tid np s w s')
  let ?s1 = "sendInvalidCommitWelcomeLocked kdf E tid (s\<lparr>recoveryAttempts := Suc (recoveryAttempts s)\<rparr>)"
  let ?s2 = "invalidateMLSStateLocked E ?s1"
  have v: "wview (snd (freshKeyPackageLocked E ?s2)) = (Suc (recoveryAttempts s), watchdogs s, retry s)"
    by (simp add: wview_steps) (simp add: wview_def)
  obtain r s3 where f: "freshKeyPackageLocked E ?s2 = (r, s3)" by fastforce
  have e: "recover_begin kdf E ready tid np s = (if shutdown s \<or> isClosed s ready \<or> (np \<and> pendingEpoch s = None) then (None, s)
      else case r of Inr kp \<Rightarrow> (Some (retry_enter (epochReady ?s2) kp s3), s3) | Inl err \<Rightarrow> (Some (Finishing (epochReady ?s2) (Some err)), s3))"
    unfolding recover_begin_def Let_def f by (cases r) simp_all
  have v3: "recoveryAttempts s3 = Suc (recoveryAttempts s)" "watchdogs s3 = watchdogs s" "retry s3 = retry s"
    using v f by (simp_all add: wview_def)
  show ?case
  proof (cases "shutdown s \<or> isClosed s ready \<or> (np \<and> pendingEpoch s = None)")
    case True
    then show ?thesis using wait_timeout(2) unfolding e by simp
  next
    case False
    then have "s' = s3" "\<exists>kp err. w = Some (retry_enter (epochReady ?s2) kp s3) \<or> w = Some (Finishing (epochReady ?s2) err)"
      using wait_timeout(2) unfolding e by (cases r; simp; blast)+
    then show ?thesis using v3 by (auto simp: retry_enter_def)
  qed
next
  case (attempt E ready kp i delay start s w s')
  obtain r s1 where a: "sendAttempt kdf E ready kp s = (r, s1)" by fastforce
  then have "wview s1 = wview s" using wview_steps(6) [of kdf E ready kp s] by simp
  moreover have "s' = s1 \<or> s' = retry_leave E start s1"
    using attempt(2) a by (auto simp: retry_attempt_def split: sum.splits if_splits)
  ultimately have "wview s' = wview s" using wview_steps(5) [of E start s1] by auto
  moreover have "(\<exists>err. w = Finishing ready err) \<or> (\<exists>st. w = Backoff ready kp i delay st)"
    using attempt(2) by (auto simp: retry_attempt_def split: prod.splits sum.splits if_splits)
  ultimately show ?case using attempt(3) by (auto simp: wview_def)
next
  case (finish ready err s)
  have "wview (recover_finish ready err s) = wview s \<or> (\<exists>tid. wview (recover_finish ready err s) =
      (recoveryAttempts s, watchdogs s @ [Waiting (epochReady s) tid False], retry s) \<and> recoveryAttempts s < maxRecoveryAttempts)"
    by (auto simp: recover_finish_def watchRecoveryLocked_def goWatchdog_def wview_def Let_def)
  then show ?case using finish_weight_rearm [of "recoveryAttempts s"]
    by (elim disjE exE) (auto simp: wview_def finish_weight_pos)
qed (auto simp: retry_leave_def finish_weight_pos split: option.splits)

lemma watchdog_step_work:
  assumes "watchdog_step kdf Ok s s'" "watchdogs_inv s"
  shows "work_left s' < work_left s"
  using assms
proof (induction rule: watchdog_step.induct)
  case (1 w s w' s')
  let ?n = "rc_maxAttempts (retry s)" and ?a = "recoveryAttempts s" and ?a' = "recoveryAttempts s'"
  have "watchdog_ok (retry s) w" using 1(1,3) by (auto simp: watchdogs_inv_def)
  from move_work [OF 1(2) this] obtain new where new: "watchdogs s' = watchdogs s @ new" "retry s' = retry s" "?a \<le> ?a'"
      "(\<Sum>x\<leftarrow>new. weight ?n ?a' x) + (case w' of None \<Rightarrow> 0 | Some x \<Rightarrow> weight ?n ?a' x) < weight ?n ?a w"
    by (auto simp: Let_def)
  have rem: "remove1 w (watchdogs s') = remove1 w (watchdogs s) @ new" using new(1) 1(1) by (simp add: remove1_append)
  have "(\<Sum>x\<leftarrow>remove1 w (watchdogs s). weight ?n ?a' x) \<le> (\<Sum>x\<leftarrow>remove1 w (watchdogs s). weight ?n ?a x)"
    by (intro sum_list_mono weight_mono new(3))
  moreover have "(\<Sum>x\<leftarrow>watchdogs s. weight ?n ?a x) = weight ?n ?a w + (\<Sum>x\<leftarrow>remove1 w (watchdogs s). weight ?n ?a x)"
    using sum_list_map_remove1 [OF 1(1)] by blast
  ultimately show ?case using new rem by (simp add: work_left_def swap_watchdog_def split: option.splits)
qed

section \<open>The messages of one watchdog\<close>

text \<open>The life of one watchdog from the moment it is started: the messages it has sent, the timers it has
  set between attempts, and what it is now (\<open>None\<close> when its goroutine has ended). Between two of its moves
  anything may happen to the session, so that a move starts in any reachable state that has the watchdog.\<close>

inductive watchdog_life ::
    "kdf \<Rightarrow> ('c Env \<Rightarrow> bool) \<Rightarrow> gateway_msg list \<Rightarrow> int list \<Rightarrow> watchdog option \<Rightarrow> bool"
  for kdf :: kdf and Ok :: "'c Env \<Rightarrow> bool" where
  born: "watchdog_life kdf Ok [] [] (Some (Waiting ready tid np))"
| moves: "watchdog_life kdf Ok ms ds (Some w) \<Longrightarrow> reachable kdf Ok s \<Longrightarrow> w \<in> set (watchdogs s) \<Longrightarrow>
    watchdog_move kdf Ok w s w' s' \<Longrightarrow>
    watchdog_life kdf Ok (ms @ drop (length (sent s)) (sent s'))
      (ds @ (case w' of Some (Backoff _ _ _ delay _) \<Rightarrow> [delay] | _ \<Rightarrow> [])) w'"

text \<open>At most one report of a failed transition, then copies of one key package.\<close>

definition recovery_msgs :: "nat \<Rightarrow> bytes \<Rightarrow> gateway_msg list \<Rightarrow> bool" where
  "recovery_msgs n kp ms \<longleftrightarrow> (\<exists>m tid k. m \<le> 1 \<and> k \<le> n \<and>
     ms = replicate m (SendInvalidCommitWelcome tid) @ replicate k (SendMLSKeyPackage kp))"

lemma recovery_msgsI:
  "m \<le> 1 \<Longrightarrow> k \<le> n \<Longrightarrow> ms = replicate m (SendInvalidCommitWelcome tid) @ replicate k (SendMLSKeyPackage kp) \<Longrightarrow>
     recovery_msgs n kp ms"
  unfolding recovery_msgs_def by blast

lemma recovery_msgs_mono: "recovery_msgs n kp ms \<Longrightarrow> n \<le> n' \<Longrightarrow> recovery_msgs n' kp ms"
  unfolding recovery_msgs_def [of n] by (elim exE conjE, rule recovery_msgsI) auto

lemma recovery_msgs_send: "recovery_msgs n kp ms \<Longrightarrow> recovery_msgs (Suc n) kp (ms @ [SendMLSKeyPackage kp])"
  unfolding recovery_msgs_def [of n]
proof (elim exE conjE)
  fix m tid k
  assume "m \<le> 1" "k \<le> n" "ms = replicate m (SendInvalidCommitWelcome tid) @ replicate k (SendMLSKeyPackage kp)"
  then show ?thesis
    by (intro recovery_msgsI [of m "Suc k" _ _ tid]) (simp_all add: replicate_append_same)
qed

lemma recovery_msgs_begin: "recovery_msgs 0 kp []" "recovery_msgs 0 kp [SendInvalidCommitWelcome tid]"
  using recovery_msgsI [of 0 0 0 "[]"] recovery_msgsI [of 1 0 0 "[SendInvalidCommitWelcome tid]" tid] by simp_all

text \<open>The waits between the attempts, in nanoseconds.\<close>

definition backoff_waits :: "int list" where
  "backoff_waits = [500000000, 1000000000, 2000000000, 4000000000, 5000000000]"

fun life_ok :: "gateway_msg list \<Rightarrow> int list \<Rightarrow> watchdog option \<Rightarrow> bool" where
  "life_ok ms ds (Some (Waiting ready tid np)) \<longleftrightarrow> ms = [] \<and> ds = []"
| "life_ok ms ds (Some (Sending ready kp i delay start)) \<longleftrightarrow> i \<le> 5 \<and> recovery_msgs i kp ms \<and> ds = take i backoff_waits"
| "life_ok ms ds (Some (Backoff ready kp i delay start)) \<longleftrightarrow> i < 5 \<and> recovery_msgs (Suc i) kp ms \<and> ds = take (Suc i) backoff_waits"
| "life_ok ms ds _ \<longleftrightarrow> (\<exists>i kp. i \<le> 5 \<and> recovery_msgs (Suc i) kp ms \<and> ds = take i backoff_waits)"

lemma life_okE:
  assumes "life_ok ms ds w"
  obtains i j kp where "i \<le> Suc j" "j \<le> 5" "recovery_msgs i kp ms" "ds = take j backoff_waits"
  using assms
proof (cases "(ms, ds, w)" rule: life_ok.cases)
  case (1 ms ds ready tid np)
  then show thesis using assms that [of 0 0 "[]"] recovery_msgs_begin(1) by simp
next
  case (2 ms ds ready kp i delay start)
  then show thesis using assms that [of i i kp] by simp
next
  case (3 ms ds ready kp i delay start)
  then show thesis using assms that [of "Suc i" "Suc i" kp] by simp
qed (use assms that in auto)

lemma sent_send: "sent (snd (sendLocked kdf E msg s)) = sent s @ [msg]"
  using rest_send [of kdf E msg s] by (simp add: rest_def)

lemma sent_attempt:
  "sent (snd (sendAttempt kdf E ready kp s)) \<in> {sent s, sent s @ [SendMLSKeyPackage kp]}"
  using sent_send [of kdf E "SendMLSKeyPackage kp" s]
  by (auto simp: sendAttempt_def sendKeyPackageLocked_def snd_sbind split: sum.splits)

lemma sent_recover_begin:
  assumes "recover_begin kdf E ready tid np s = (w, s')"
  shows "sent s' \<in> {sent s, sent s @ [SendInvalidCommitWelcome tid]}"
    and "w \<in> {None} \<union> range (\<lambda>(r, kp). Some (retry_enter r kp s')) \<union> range (\<lambda>(r, e). Some (Finishing r e))"
proof -
  let ?s1 = "sendInvalidCommitWelcomeLocked kdf E tid (s\<lparr>recoveryAttempts := Suc (recoveryAttempts s)\<rparr>)"
  obtain r s3 where f: "freshKeyPackageLocked E (invalidateMLSStateLocked E ?s1) = (r, s3)" by fastforce
  have "sent (invalidateMLSStateLocked E t) = sent t" for t :: "'a Session"
    by (simp add: invalidateMLSStateLocked_def resetEpochReadyLocked_def markDegradedLocked_def Let_def)
  moreover have "sent (snd (freshKeyPackageLocked E t)) = sent t" for t
    by (simp add: freshKeyPackageLocked_def snd_sbind ensureMLSClientLocked_def client_call_def go_panic_def
        split: sum.splits option.splits prod.splits)
  ultimately have "sent s3 = sent ?s1"
    using f by (metis snd_conv)
  then have "sent s3 \<in> {sent s, sent s @ [SendInvalidCommitWelcome tid]}"
    by (simp add: sendInvalidCommitWelcomeLocked_def sent_send)
  then show "sent s' \<in> {sent s, sent s @ [SendInvalidCommitWelcome tid]}"
    and "w \<in> {None} \<union> range (\<lambda>(r, kp). Some (retry_enter r kp s')) \<union> range (\<lambda>(r, e). Some (Finishing r e))"
    using assms unfolding recover_begin_def Let_def f by (cases r; auto split: if_splits)+
qed

lemma sent_leave: "sent (retry_leave E start s) = sent s"
  by (simp add: retry_leave_def split: option.splits)

lemma retry_attempt_cases:
  assumes "retry_attempt kdf E ready kp i delay start s = (w, s')"
  shows "sent s' \<in> {sent s, sent s @ [SendMLSKeyPackage kp]} \<and>
    ((\<exists>err. w = Finishing ready err) \<or>
     (\<exists>st. w = Backoff ready kp i delay st \<and> Suc i \<noteq> rc_maxAttempts (retry s)))"
proof -
  obtain r s1 where a: "sendAttempt kdf E ready kp s = (r, s1)" by fastforce
  have "retry s1 = retry s" using a wview_steps(6) [of kdf E ready kp s] by (simp add: wview_def)
  then show ?thesis
    using assms a sent_attempt [of kdf E ready kp s]
    by (auto simp: retry_attempt_def sent_leave split: sum.splits if_splits)
qed

lemma default_attempts: "rc_maxAttempts defaultRetryConfig = 6"
  by (simp add: defaultRetryConfig_def retryMaxAttempts_def)

lemma length_backoff_waits: "length backoff_waits = 5"
  by (simp add: backoff_waits_def)

lemma backoff_waits_nth: "i < 5 \<Longrightarrow> backoff_delay defaultRetryConfig i = backoff_waits ! i"
proof -
  assume "i < 5"
  then have "i \<in> {0, 1, 2, 3, 4}" by auto
  then show ?thesis
    by (auto simp: backoff_waits_def backoff_delay_def defaultRetryConfig_def retryDelay_def retryMaxDelay_def eval_nat_numeral)
qed

lemma life_over:
  "recovery_msgs (Suc i) kp ms \<Longrightarrow> i < 5 \<Longrightarrow>
     \<exists>j\<le>5. (\<exists>kp. recovery_msgs (Suc j) kp ms) \<and> take (Suc i) backoff_waits = take j backoff_waits"
  using recovery_msgs_mono [of "Suc i" kp ms "Suc (Suc i)"] by (intro exI [of _ "Suc i"]) auto

lemma life_move:
  assumes "watchdog_move kdf Ok w s w' s'" and "life_ok ms ds (Some w)"
    and "retry s = defaultRetryConfig" and "watchdog_ok defaultRetryConfig w"
  shows "life_ok (ms @ drop (length (sent s)) (sent s'))
      (ds @ (case w' of Some (Backoff _ _ _ delay _) \<Rightarrow> [delay] | _ \<Rightarrow> [])) w'"
  using assms
proof (induction rule: watchdog_move.induct)
  case (wait_over s ready tid np)
  then show ?case
    by (auto intro!: exI [of _ 0] recovery_msgs_mono [OF recovery_msgs_begin(1)])
next
  case (wait_timeout E ready tid np s w s')
  have m: "recovery_msgs 0 kp (drop (length (sent s)) (sent s'))" for kp
    using sent_recover_begin(1) [OF wait_timeout(2)] recovery_msgs_begin by auto
  then have "recovery_msgs (Suc 0) kp (drop (length (sent s)) (sent s'))" for kp
    by (rule recovery_msgs_mono) simp
  with m show ?case
    using sent_recover_begin(2) [OF wait_timeout(2)] wait_timeout.prems(1)
    by (auto simp: retry_enter_def intro!: exI [of _ 0])
next
  case (attempt E ready kp i delay start s w s')
  have m: "recovery_msgs (Suc i) kp (ms @ drop (length (sent s)) (sent s'))"
    using retry_attempt_cases [OF attempt(2)] attempt.prems(1)
    by (auto intro: recovery_msgs_send recovery_msgs_mono)
  have "i \<le> 5" "delay = backoff_delay defaultRetryConfig i"
    using attempt.prems(3) by (auto simp: default_attempts)
  with m show ?case
    using retry_attempt_cases [OF attempt(2)] attempt.prems(1,2)
    by (auto simp: backoff_waits_nth default_attempts length_backoff_waits take_Suc_conv_app_nth
        intro!: exI [of _ i])
next
  case (backoff_timer ready kp i delay start s)
  then show ?case by simp
next
  case (backoff_ready E s ready kp i delay start)
  then show ?case by (auto simp: sent_leave intro: life_over)
next
  case (backoff_shutdown E s ready kp i delay start)
  then show ?case by (auto simp: sent_leave intro: life_over)
next
  case (finish ready err s)
  then show ?case by (simp add: recover_finish_def watchRecoveryLocked_def goWatchdog_def Let_def)
qed

lemma watchdog_life_ok: "watchdog_life kdf Ok ms ds w \<Longrightarrow> life_ok ms ds w"
proof (induction rule: watchdog_life.induct)
  case (moves ms ds w s w' s')
  have "retry s = defaultRetryConfig" "watchdog_ok defaultRetryConfig w"
    using watchers.reachable [OF moves(2)] moves(3) by (auto simp: watchdogs_inv_def)
  with moves show ?case by (intro life_move)
qed simp

section \<open>Properties\<close>

text \<open>C19 watchdogs_terminate. A session that receives no more calls comes to rest: whatever its environment
  does, its watchdogs make at most \<open>work_left\<close> moves from a reachable state, a number that the recovery
  attempts left and the attempts to send bound. (\<open>Close\<close> in \<open>session/close.go\<close> relies on this: forgetting
  to call it is not a permanent leak.)\<close>

theorem watchdogs_terminate:
  assumes "reachable kdf Ok s" "(watchdog_step kdf Ok ^^ n) s s'"
  shows "n \<le> work_left s"
proof -
  have "n + work_left s' \<le> work_left s \<and> reachable kdf Ok s'" using assms(2)
  proof (induction n arbitrary: s')
    case 0
    then show ?case using assms(1) by simp
  next
    case (Suc n)
    then obtain t where t: "(watchdog_step kdf Ok ^^ n) s t" "watchdog_step kdf Ok t s'" by auto
    have ih: "n + work_left t \<le> work_left s" "reachable kdf Ok t" using Suc.IH [OF t(1)] by auto
    have "work_left s' < work_left t" by (rule watchdog_step_work [OF t(2) watchers.reachable [OF ih(2)]])
    then show ?case using ih reachable.step [OF ih(2) session_step.watchdog [OF t(2)]] by simp
  qed
  then show ?thesis by simp
qed

text \<open>A session whose first key package is not sent: a watchdog is waiting.\<close>

definition demo_down :: "unit Env" where
  "demo_down = demo_env\<lparr>env_send := (\<lambda>_. Some ''shard is not ready'')\<rparr>"

definition demo_dropped :: "unit Session" where
  "demo_dropped = handle pad_kdf demo_down (SelectProtocolAck 1) (New ''7'' True [])"

lemma demo_down_simps:
  "env_send demo_down ms = Some ''shard is not ready''" "env_during demo_down ms = []" "NewClient demo_down i = Inr ()"
  "FreshKeyPackageBytes demo_down c = (Inr [1], c)"
  by (simp_all add: demo_down_def)

lemma demo_dropped_fields:
  "watchdogs demo_dropped = [Waiting 2 0 False]" "shutdown demo_dropped = False" "closedChans demo_dropped = {0, 1}" "epochReady demo_dropped = 2"
  "hasCallbacks demo_dropped = True" "userID demo_dropped = ''7''" "retry demo_dropped = defaultRetryConfig"
  "degradedSince demo_dropped = None"
  by (auto simp: demo_down_simps demo_dropped_def handler_defs New_def demo_identity Let_def watchDroppedSendLocked_def watchRecoveryLocked_def
      goWatchdog_def maxRecoveryAttempts_def numeral_2_eq_2)

lemma demo_dropped_reachable: "reachable pad_kdf (\<lambda>_. True) demo_dropped"
  unfolding demo_dropped_def by (rule reachable.step [OF reachable.start session_step.handler]) simp

theorem watchdogs_terminate_witness:
  "\<exists>s'. (watchdog_step pad_kdf (\<lambda>_. True) ^^ 1) demo_dropped s' \<and> 1 \<le> work_left demo_dropped"
proof -
  obtain w s1 where "recover_begin pad_kdf demo_down 2 0 False demo_dropped = (w, s1)" by fastforce
  then have "watchdog_move pad_kdf (\<lambda>_. True) (Waiting 2 0 False) demo_dropped w s1" by (intro watchdog_move.wait_timeout) simp_all
  then have "watchdog_step pad_kdf (\<lambda>_. True) demo_dropped (swap_watchdog (Waiting 2 0 False) w s1)"
    by (intro watchdog_step.intros) (simp_all add: demo_dropped_fields(1))
  then have r: "(watchdog_step pad_kdf (\<lambda>_. True) ^^ 1) demo_dropped (swap_watchdog (Waiting 2 0 False) w s1)" by auto
  show ?thesis using watchdogs_terminate [OF demo_dropped_reachable r] r by blast
qed

text \<open>C20 retry_bounded. In its whole life, whatever else happens to the session, a watchdog reports a failed
  transition at most once and then sends one key package, the same bytes each time, at most six times; the
  timers between the attempts are half a second, one, two, four and five seconds, in this order, and an
  attempt after the first has one of them before it: 12.5 seconds together.\<close>

theorem retry_bounded:
  assumes "watchdog_life kdf Ok ms ds w"
  shows "\<exists>m tid k kp. ms = replicate m (SendInvalidCommitWelcome tid) @ replicate k (SendMLSKeyPackage kp)
      \<and> m \<le> 1 \<and> k \<le> 6 \<and> k \<le> Suc (length ds) \<and>
      ds = take (length ds) [500000000, 1000000000, 2000000000, 4000000000, 5000000000]"
proof -
  obtain i j kp where i: "i \<le> Suc j" "j \<le> 5" "recovery_msgs i kp ms" "ds = take j backoff_waits"
    using watchdog_life_ok [OF assms] by (rule life_okE)
  then obtain m tid k where "ms = replicate m (SendInvalidCommitWelcome tid) @ replicate k (SendMLSKeyPackage kp)"
      "m \<le> 1" "k \<le> i"
    by (auto simp: recovery_msgs_def)
  moreover have "length ds = j" "ds = take (length ds) backoff_waits"
    using i(2,4) by (simp_all add: length_backoff_waits)
  ultimately show ?thesis
    using i(1,2) unfolding backoff_waits_def by (intro exI [of _ m] exI [of _ tid] exI [of _ k] exI [of _ kp]) auto
qed

text \<open>The session of the example after the timeout and a first failed attempt: it backs off.\<close>

lemma demo_shard: "isShardNotReady (errSendFailed ''shard is not ready'')"
proof -
  have "take 18 (drop 52 (error_text (errSendFailed ''shard is not ready''))) = ''shard is not ready''" by simp
  then show ?thesis unfolding isShardNotReady_def contains_text_def list_ex_iff by (intro bexI [of _ 52]) simp_all
qed

lemma demo_life:
  "watchdog_life pad_kdf (\<lambda>_ :: unit Env. True) [SendInvalidCommitWelcome 0, SendMLSKeyPackage [1]] [500000000]
     (Some (Backoff 3 [1] 0 500000000 (Some 0)))"
proof -
  let ?Ok = "\<lambda>_ :: unit Env. True"
  let ?w0 = "Waiting 2 0 False" and ?w1 = "Sending 3 [1] 0 500000000 None" and ?w2 = "Backoff 3 [1] 0 500000000 (Some 0)"
  obtain s1 where s1: "recover_begin pad_kdf demo_down 2 0 False demo_dropped = (Some ?w1, s1)" "shutdown s1 = False"
      "3 \<notin> closedChans s1" "hasCallbacks s1 = True" "pendingKeyPackage s1 = []" "retry s1 = defaultRetryConfig"
      "sent s1 = sent demo_dropped @ [SendInvalidCommitWelcome 0]"
    by (simp add: recover_begin_def sendInvalidCommitWelcomeLocked_def handler_defs demo_down_simps demo_dropped_fields demo_identity
        invalidateMLSStateLocked_def markDegradedLocked_def retry_enter_def defaultRetryConfig_def retryDelay_def retryMaxAttempts_def Let_def numeral_3_eq_3)
  have m1: "watchdog_move pad_kdf ?Ok ?w0 demo_dropped (Some ?w1) s1"
    using s1(1) by (intro watchdog_move.wait_timeout) simp_all
  have l1: "watchdog_life pad_kdf ?Ok [SendInvalidCommitWelcome 0] [] (Some ?w1)"
    using watchdog_life.moves [OF watchdog_life.born demo_dropped_reachable _ m1] s1(7) demo_dropped_fields(1) by simp
  let ?s2 = "swap_watchdog ?w0 (Some ?w1) s1"
  have r2: "reachable pad_kdf ?Ok ?s2"
    by (intro reachable.step [OF demo_dropped_reachable session_step.watchdog] watchdog_step.intros m1)
      (simp add: demo_dropped_fields)
  obtain s3 where s3: "retry_attempt pad_kdf demo_down 3 [1] 0 500000000 None ?s2 = (?w2, s3)"
      "sent s3 = sent ?s2 @ [SendMLSKeyPackage [1]]"
    using s1(2-) by (simp add: retry_attempt_def sendAttempt_def sendKeyPackageLocked_def sendLocked_def demo_down_simps demo_shard
        isClosed_def swap_watchdog_def defaultRetryConfig_def retryMaxAttempts_def time_now_def demo_down_def Let_def)
  have m2: "watchdog_move pad_kdf ?Ok ?w1 ?s2 (Some ?w2) s3"
    using s3(1) by (intro watchdog_move.attempt) simp_all
  show ?thesis
    using watchdog_life.moves [OF l1 r2 _ m2] s3(2) by (simp add: swap_watchdog_def)
qed

theorem retry_bounded_witness:
  "watchdog_life pad_kdf (\<lambda>_ :: unit Env. True) [SendInvalidCommitWelcome 0, SendMLSKeyPackage [1]] [500000000]
     (Some (Backoff 3 [1] 0 500000000 (Some 0))) \<and>
   (\<exists>m tid k kp. [SendInvalidCommitWelcome 0, SendMLSKeyPackage [1]]
      = replicate m (SendInvalidCommitWelcome tid) @ replicate k (SendMLSKeyPackage kp)
      \<and> m \<le> 1 \<and> k \<le> 6 \<and> k \<le> Suc (length [500000000 :: int]) \<and>
      [500000000] = take (length [500000000 :: int]) [500000000 :: int, 1000000000, 2000000000, 4000000000, 5000000000])"
  using demo_life retry_bounded [OF demo_life] by (rule conjI)

end
