(* ===== verification/Session_Protocol.thy ===== *)
theory Session_Protocol
  imports Session_Recovery
begin

text \<open>
  Properties of the protocol operations: which proposals and Welcomes are let through to the MLS client,
  what an epoch is built from, how a lost commit is rolled back, and what the transitions do.
\<close>

section \<open>Definitions\<close>

text \<open>What the DAVE protocol lets through: a proposal of the external sender that removes a member, or that
  adds one whose credential, if it has one, names an expected user.\<close>

definition dave_proposal :: "'c Env \<Rightarrow> UserID set \<Rightarrow> MLSMessage \<Rightarrow> bool" where
  "dave_proposal E expected msg \<longleftrightarrow>
     (\<exists>pub data p. mm_Public msg = Some pub \<and> pm_SenderType pub = SenderTypeExternal E \<and> pm_ContentType pub = ContentTypeProposal E
        \<and> pm_ProposalData pub = Some data \<and> UnmarshalProposal E data = Inr p
        \<and> (pr_Type p = ProposalTypeRemove E \<or> pr_Type p = ProposalTypeAdd E)
        \<and> (\<forall>identity. pr_Type p = ProposalTypeAdd E \<and> pr_AddIdentity p = Some identity \<longrightarrow>
             (\<exists>uid n. identityBytesToUserID identity = Inr (uid, n) \<and> uid \<in> expected)))"

section \<open>Proposals\<close>

lemma mls_wrap_iffs [simp]: "mls_wrap m r = Inr x \<longleftrightarrow> r = Inr x" "mls_wrap m r = Inl e \<longleftrightarrow> (\<exists>g. r = Inl g \<and> e = MlsError m g)"
  by (cases r; auto)+

lemma proposal_passes_iff: "proposal_passes E expected msg \<longleftrightarrow> dave_proposal E expected msg"
proof (cases "\<exists>pub data. mm_Public msg = Some pub \<and> pm_SenderType pub = SenderTypeExternal E \<and> pm_ContentType pub = ContentTypeProposal E
    \<and> pm_ProposalData pub = Some data")
  case False
  then show ?thesis
    by (auto simp: proposal_passes_def dave_proposal_def proposalAllowedByDAVELocked_def split: option.splits sum.splits if_splits)
next
  case True
  then obtain pub data where p: "mm_Public msg = Some pub" "pm_SenderType pub = SenderTypeExternal E" "pm_ContentType pub = ContentTypeProposal E"
    "pm_ProposalData pub = Some data" by blast
  show ?thesis
  proof (cases "UnmarshalProposal E data")
    case (Inl e)
    then show ?thesis using p by (simp add: proposal_passes_def dave_proposal_def proposalAllowedByDAVELocked_def)
  next
    case (Inr q)
    have "proposal_passes E expected msg \<longleftrightarrow> (pr_Type q = ProposalTypeAdd E \<or> pr_Type q = ProposalTypeRemove E) \<and>
        (case (if pr_Type q \<noteq> ProposalTypeAdd E then Inr None else case pr_AddIdentity q of None \<Rightarrow> Inr None
           | Some identity \<Rightarrow> ebind (identityBytesToUserID identity) (\<lambda>(uid, _). Inr (Some uid))) of
         Inl _ \<Rightarrow> False | Inr None \<Rightarrow> True | Inr (Some uid) \<Rightarrow> uid \<in> expected)"
      using p Inr by (simp add: proposal_passes_def proposalAllowedByDAVELocked_def addProposalUserID_def)
    also have "\<dots> \<longleftrightarrow> dave_proposal E expected msg"
    proof -
      have "dave_proposal E expected msg \<longleftrightarrow> (pr_Type q = ProposalTypeRemove E \<or> pr_Type q = ProposalTypeAdd E)
        \<and> (\<forall>identity. pr_Type q = ProposalTypeAdd E \<and> pr_AddIdentity q = Some identity \<longrightarrow>
             (\<exists>uid n. identityBytesToUserID identity = Inr (uid, n) \<and> uid \<in> expected))"
        using p Inr by (simp add: dave_proposal_def)
      then show ?thesis
        by (cases "pr_AddIdentity q"; cases "identityBytesToUserID (the (pr_AddIdentity q))") auto
    qed
    finally show ?thesis .
  qed
qed

text \<open>One turn of the loop over a batch, on a message that can be read.\<close>

lemma proposal_loop_step:
  assumes "\<not> length remaining < 4" "UnmarshalMLSMessage E remaining = Inr msg" "mm_Marshal msg \<noteq> []" "length (mm_Marshal msg) \<le> length remaining"
  shows "proposal_loop E acc remaining s = (let n = length (mm_Marshal msg) in
    if \<not> proposal_passes E (users s) msg
    then proposal_loop E acc (drop n remaining) (s\<lparr>stats := (stats s)\<lparr>ProposalsRejected := ProposalsRejected (stats s) + 1\<rparr>\<rparr>)
    else case client_call ''process proposal public message'' (ProcessPublicMessage E (groupID s) (take n remaining)) s of
      (Inl e, s1) \<Rightarrow> (acc, Inl e, s1) | (Inr _, s1) \<Rightarrow> proposal_loop E True (drop n remaining) s1)"
proof -
  have "remaining \<noteq> []" using assms(1) by auto
  then show ?thesis
    by (subst proposal_loop.simps) (simp only: assms Let_def sum.case if_False length_0_conv not_less [THEN iffD2, OF assms(4)])
qed

text \<open>The messages at the beginning of a batch with their wire bytes, and those of them the client is to see.\<close>

fun batch_prefix :: "'c Env \<Rightarrow> bytes \<Rightarrow> (bytes \<times> MLSMessage) list \<Rightarrow> bool" where
  "batch_prefix E bs [] \<longleftrightarrow> True"
| "batch_prefix E bs ((w, msg) # ms) \<longleftrightarrow> UnmarshalMLSMessage E bs = Inr msg \<and> mm_Marshal msg \<noteq> [] \<and> length (mm_Marshal msg) \<le> length bs
     \<and> w = take (length (mm_Marshal msg)) bs \<and> batch_prefix E (drop (length w) bs) ms"

definition admitted :: "'c Env \<Rightarrow> UserID set \<Rightarrow> (bytes \<times> MLSMessage) list \<Rightarrow> bytes list" where
  "admitted E expected ms = map fst (filter (\<lambda>(w, msg). dave_proposal E expected msg) ms)"

lemma admitted_simps [simp]:
  "admitted E expected [] = []"
  "admitted E expected ((w, msg) # ms) = (if dave_proposal E expected msg then w # admitted E expected ms else admitted E expected ms)"
  by (simp_all add: admitted_def)

text \<open>What the loop does: it reads messages \<open>ms\<close> off the front of the batch and hands the admitted ones to the client.\<close>

definition batch_run :: "'c Env \<Rightarrow> bytes \<Rightarrow> UserID set \<Rightarrow> bytes \<Rightarrow> 'c \<Rightarrow> bool \<Rightarrow> session_error + unit \<Rightarrow> 'c option \<Rightarrow> (bytes \<times> MLSMessage) list \<Rightarrow> bool" where
  "batch_run E gid expected bs c acceptedAny r c' ms \<longleftrightarrow> batch_prefix E bs ms
     \<and> c' = Some (fold (\<lambda>w c. snd (ProcessPublicMessage E gid w c)) (admitted E expected ms) c)
     \<and> (acceptedAny \<longrightarrow> admitted E expected ms \<noteq> [])
     \<and> (r = Inr () \<longrightarrow> concat (map fst ms) = bs \<and> (acceptedAny \<longleftrightarrow> admitted E expected ms \<noteq> []))"

lemma batch_run_Cons:
  assumes "UnmarshalMLSMessage E bs = Inr msg" "mm_Marshal msg \<noteq> []" "length (mm_Marshal msg) \<le> length bs" "n = length (mm_Marshal msg)"
    and "batch_run E gid expected (drop n bs) (if dave_proposal E expected msg then snd (ProcessPublicMessage E gid (take n bs) c) else c) acc r c' ms"
    and "acc' = (acc \<or> dave_proposal E expected msg)"
  shows "batch_run E gid expected bs c acc' r c' ((take n bs, msg) # ms)"
  using assms by (auto simp: batch_run_def min_def append_take_drop_id)

lemma proposal_loop_stops:
  assumes "proposal_loop E acc remaining s = (acc', r, s')" "mlsClient s = Some c"
    and "\<nexists>msg. \<not> length remaining < 4 \<and> UnmarshalMLSMessage E remaining = Inr msg \<and> mm_Marshal msg \<noteq> [] \<and> length (mm_Marshal msg) \<le> length remaining"
  shows "mlsClient s' = Some c \<and> acc' = acc \<and> (r = Inr () \<longrightarrow> remaining = [])"
  using assms by (subst (asm) proposal_loop.simps) (auto simp: Let_def go_panic_def not_less split: if_splits sum.splits)

lemma proposal_loop_client:
  assumes "proposal_loop E acc remaining s = (acc', r, s')" "mlsClient s = Some c"
  shows "\<exists>ms a. batch_run E (groupID s) (users s) remaining c a r (mlsClient s') ms \<and> acc' = (acc \<or> a)"
  using assms
proof (induction E acc remaining s arbitrary: c rule: proposal_loop.induct)
  case (1 E acc remaining s)
  show ?case
  proof (cases "\<exists>msg. \<not> length remaining < 4 \<and> UnmarshalMLSMessage E remaining = Inr msg \<and> mm_Marshal msg \<noteq> []
      \<and> length (mm_Marshal msg) \<le> length remaining")
    case False
    then show ?thesis using proposal_loop_stops [OF 1(3,4)] by (intro exI [of _ "[]"] exI [of _ False]) (simp add: batch_run_def)
  next
    case True
    then obtain msg where m: "\<not> length remaining < 4" "UnmarshalMLSMessage E remaining = Inr msg" "mm_Marshal msg \<noteq> []"
      "length (mm_Marshal msg) \<le> length remaining" by blast
    let ?n = "length (mm_Marshal msg)" and ?pp = "ProcessPublicMessage E (groupID s)"
    have ne: "length remaining \<noteq> 0" "\<not> length remaining < ?n" "?n \<noteq> 0" using m by auto
    note step = proposal_loop_step [OF m, unfolded Let_def] and run = batch_run_Cons [OF m(2-4) refl]
    show ?thesis
    proof (cases "proposal_passes E (users s) msg")
      case False
      let ?s = "s\<lparr>stats := (stats s)\<lparr>ProposalsRejected := ProposalsRejected (stats s) + 1\<rparr>\<rparr>"
      have "proposal_loop E acc (drop ?n remaining) ?s = (acc', r, s')" using 1(3) False unfolding step by simp
      from 1(1) [OF ne(1) m(1,2) refl ne(3,2) False this] 1(4) obtain ms a where
        ms: "batch_run E (groupID s) (users s) (drop ?n remaining) c a r (mlsClient s') ms" "acc' = (acc \<or> a)" by auto
      have "batch_run E (groupID s) (users s) remaining c a r (mlsClient s') ((take ?n remaining, msg) # ms)"
        by (rule run) (use ms(1) False in \<open>simp_all add: proposal_passes_iff\<close>)
      then show ?thesis using ms(2) by blast
    next
      case pass: True
      then have d: "dave_proposal E (users s) msg" by (simp add: proposal_passes_iff)
      obtain a c1 where c1: "?pp (take ?n remaining) c = (a, c1)" by fastforce
      let ?s = "s\<lparr>mlsClient := Some c1\<rparr>"
      have call: "client_call ''process proposal public message'' (?pp (take ?n remaining)) s = (mls_wrap ''process proposal public message'' a, ?s)"
        using 1(4) c1 by (simp add: client_call_def)
      show ?thesis
      proof (cases a)
        case (Inl e)
        then have "s' = ?s" "acc' = acc" "r \<noteq> Inr ()" using 1(3) pass call unfolding step by auto
        then show ?thesis using m d c1 by (intro exI [of _ "[(take ?n remaining, msg)]"] exI [of _ False]) (simp add: batch_run_def)
      next
        case (Inr u)
        have l: "proposal_loop E True (drop ?n remaining) ?s = (acc', r, s')" using 1(3) pass call Inr unfolding step by simp
        from 1(2) [OF ne(1) m(1,2) refl ne(3,2) _ call [symmetric] _ l, of u c1] pass Inr obtain ms a where
          ms: "batch_run E (groupID s) (users s) (drop ?n remaining) c1 a r (mlsClient s') ms" "acc'" by auto
        have "batch_run E (groupID s) (users s) remaining c True r (mlsClient s') ((take ?n remaining, msg) # ms)"
          by (rule run) (use ms(1) d c1 in simp_all)
        then show ?thesis using ms(2) by blast
      qed
    qed
  qed
qed

text \<open>The messages of a batch; only the operation type 0 has any.\<close>

definition batch_body :: "bytes \<Rightarrow> bytes" where
  "batch_body proposals = (if proposals = [] \<or> hd proposals \<noteq> 0 then []
     else case vector_body (drop 1 proposals) of Inl _ \<Rightarrow> [] | Inr body \<Rightarrow> body)"

text \<open>C15 proposals_gate. Of a batch of proposals, the MLS client sees exactly the messages that are proposals of the external
  sender, that only add or remove members, and that add only expected users (an Add that carries no
  credential has no user to check), with their wire bytes and in their order; nothing else reaches
  it. When the batch is processed without an error, that is the whole batch, and it leads to a
  commit exactly if at least one message was admitted; otherwise it is the part before the error.\<close>

theorem proposals_gate:
  assumes "processProposalBatchLocked E proposals s = (acceptedAny, r, s')" "mlsClient s = Some c" "proposals = [] \<or> hd proposals \<noteq> 1"
  shows "\<exists>ms. batch_prefix E (batch_body proposals) ms
    \<and> mlsClient s' = Some (fold (\<lambda>w c. snd (ProcessPublicMessage E (groupID s) w c)) (admitted E (users s) ms) c)
    \<and> (acceptedAny \<longrightarrow> admitted E (users s) ms \<noteq> [])
    \<and> (r = Inr () \<and> groupID s \<noteq> [] \<longrightarrow> concat (map fst ms) = batch_body proposals \<and> (acceptedAny \<longleftrightarrow> admitted E (users s) ms \<noteq> []))"
proof (cases "\<exists>body. proposals \<noteq> [] \<and> groupID s \<noteq> [] \<and> hd proposals = 0 \<and> vector_body (drop 1 proposals) = Inr body")
  case True
  then obtain body where b: "batch_body proposals = body" "proposal_loop E False body s = (acceptedAny, r, s')"
    using assms(1) by (auto simp: processProposalBatchLocked_def hd_conv_nth batch_body_def)
  from proposal_loop_client [OF b(2) assms(2)] show ?thesis by (auto simp: batch_run_def b(1))
next
  case False
  then have "s' = s" "\<not> acceptedAny" "r = Inr () \<and> groupID s \<noteq> [] \<longrightarrow> batch_body proposals = []"
    using assms(1,3) by (auto simp: processProposalBatchLocked_def hd_conv_nth batch_body_def Let_def split: if_splits sum.splits)
  then show ?thesis using assms(2) by (intro exI [of _ "[]"]) simp
qed

text \<open>An MLS client that logs the messages it gets, and whose group state is its log; every message is a
  proposal of the external sender to remove a member.\<close>

definition log_env :: "bytes list Env" where
  "log_env = \<lparr>NewClient = (\<lambda>_. Inr []), FreshKeyPackageBytes = (\<lambda>c. (Inr [1], c)), JoinGroup = (\<lambda>c w. (Returns (Inr [9]), c)),
     GroupInfo = (\<lambda>c g. Inr [6]), ProcessCommit = (\<lambda>g m c. (Inr (), c @ [m])), ProcessPublicMessage = (\<lambda>g m c. (Inr (), c @ [m])),
     RevokeProposals = (\<lambda>g rs c. (Inr (), c)), ListMembers = (\<lambda>c g. Inr [[0, 0, 0, 0, 0, 0, 0, 7]]), Epoch = (\<lambda>c g. Inr 1),
     CreateGroupWithExternalSender = (\<lambda>g kp xs c. (Inr g, c)), CommitPendingProposals = (\<lambda>g c. (Inr ([2], []), c @ [[2]])),
     ClientEpochAuthenticator = (\<lambda>c g. Inr (replicate 32 1)), LoadGroupState = (\<lambda>c g. Inr (concat c)),
     SaveGroupState = (\<lambda>g st c. (Inr (), [st])),
     UnmarshalMLSMessage = (\<lambda>b. Inr \<lparr>mm_Public = Some \<lparr>pm_SenderType = 2, pm_ContentType = 2, pm_ProposalData = Some [1], pm_CommitData = Some [1]\<rparr>,
       mm_Welcome = None, mm_Marshal = take 4 b\<rparr>),
     UnmarshalWelcome = (\<lambda>b. Inr 2), UnmarshalGroupInfo = (\<lambda>b. Inr [(5, b)]), UnmarshalCommit = (\<lambda>b. Inr [None]),
     UnmarshalProposal = (\<lambda>b. Inr \<lparr>pr_Type = 3, pr_AddIdentity = None\<rparr>),
     UnmarshalGroupState = (\<lambda>b. Inr \<lparr>gs_ExporterSecret = Some (replicate 16 7), gs_CipherSuite = 2\<rparr>),
     ParseSingleExternalSender = (\<lambda>b. Inr (Some \<lparr>xs_Credential = Some [4], xs_PublicKey = Some (Inr b)\<rparr>)),
     UnmarshalExternalSendersExtension = (\<lambda>b. Inr [\<lparr>xs_Credential = Some [4], xs_PublicKey = Some (Inr b)\<rparr>]),
     DeriveSecret = (\<lambda>cs s l. Inr s), SuiteHash = (\<lambda>cs b. Inr b), MLS128DHKEMP256 = 2, ExtensionTypeExternalSenders = 5,
     SenderTypeExternal = 2, ContentTypeProposal = 2, ProposalTypeAdd = 1, ProposalTypeRemove = 3,
     env_send = (\<lambda>ms. None), env_during = (\<lambda>ms. []), env_clock = (\<lambda>k ms. 0)\<rparr>"

definition log_session :: "bytes list Session" where
  "log_session = (New ''7'' False [])\<lparr>mlsClient := Some [[5]], groupID := [9], protocolVersion := 1, externalSenderPackage := [6]\<rparr>"

lemma log_batch: "processProposalBatchLocked log_env [0, 4, 1, 2, 3, 4] log_session = (True, Inr (), log_session\<lparr>mlsClient := Some [[5], [1, 2, 3, 4]]\<rparr>)"
proof -
  have v: "vector_body [4, 1, 2, 3, 4] = Inr [1, 2, 3, 4]" by code_simp
  have p: "proposal_passes log_env ex \<lparr>mm_Public = Some \<lparr>pm_SenderType = 2, pm_ContentType = 2, pm_ProposalData = Some [1], pm_CommitData = Some [1]\<rparr>,
       mm_Welcome = None, mm_Marshal = m\<rparr>" for ex m
    by (auto simp: proposal_passes_iff dave_proposal_def log_env_def)
  have l: "proposal_loop log_env True [] s = (True, Inr (), s)" for s by (subst proposal_loop.simps) simp
  show ?thesis
    by (simp add: processProposalBatchLocked_def v log_session_def New_def Let_def)
      (subst proposal_loop.simps, simp add: log_env_def [THEN arg_cong, of UnmarshalMLSMessage] log_env_def [THEN arg_cong, of ProcessPublicMessage]
        p l client_call_def)
qed

theorem proposals_gate_witness:
  "\<exists>ms. batch_prefix log_env [1, 2, 3, 4] ms \<and> concat (map fst ms) = [1, 2, 3, 4] \<and> admitted log_env {} ms \<noteq> []
    \<and> [[5], [1, 2, 3, 4]] = fold (\<lambda>w c. snd (ProcessPublicMessage log_env [9] w c)) (admitted log_env {} ms) [[5]]"
proof -
  have "batch_body [0, 4, 1, 2, 3, 4] = [1, 2, 3, 4]" by code_simp
  then show ?thesis using proposals_gate [OF log_batch, of "[[5]]"] by (auto simp: log_session_def New_def Let_def)
qed

section \<open>What the MLS operations leave alone\<close>

text \<open>The fields that only the handlers themselves and the activation of an epoch change.\<close>

definition settings :: "'c Session \<Rightarrow> int option \<times> bool \<times> u16 \<times> u16 \<times> u16 \<times> u16" where
  "settings s = (plaintextRejectedFrom s, transportOnly s, protocolVersion s, sendProtocolVersion s, activeTransitionID s, pendingTransitionID s)"

definition quiet :: "'c Session \<Rightarrow> _" where
  "quiet s = (proposalQueue s, settings s)"

lemma settings_upd [simp]:
  "settings (s\<lparr>mlsClient := a1\<rparr>) = settings s" "settings (s\<lparr>groupID := a2\<rparr>) = settings s" "settings (s\<lparr>pendingGroupID := a3\<rparr>) = settings s"
  "settings (s\<lparr>pendingEpoch := a4\<rparr>) = settings s" "settings (s\<lparr>pendingCommitBytes := a5\<rparr>) = settings s" "settings (s\<lparr>preCommitGroupState := a6\<rparr>) = settings s"
  "settings (s\<lparr>pendingKeyPackage := a7\<rparr>) = settings s" "settings (s\<lparr>stats := a8\<rparr>) = settings s" "settings (s\<lparr>degradedSince := a9\<rparr>) = settings s"
  "settings (s\<lparr>ratchets := b1\<rparr>) = settings s" "settings (s\<lparr>nextRef := b2\<rparr>) = settings s" "settings (s\<lparr>watchdogs := b3\<rparr>) = settings s"
  "settings (s\<lparr>epochReady := b4\<rparr>) = settings s" "settings (s\<lparr>closedChans := b5\<rparr>) = settings s" "settings (s\<lparr>panicked := b6\<rparr>) = settings s"
  "settings (s\<lparr>proposalQueue := b7\<rparr>) = settings s" "settings (s\<lparr>recoveryAttempts := b8\<rparr>) = settings s" "settings (s\<lparr>sent := b9\<rparr>) = settings s"
  "settings (s\<lparr>activeEpoch := c1\<rparr>) = settings s" "settings (s\<lparr>retainedEpoch := c2\<rparr>) = settings s" "settings (s\<lparr>sendCounter := c3\<rparr>) = settings s"
  "settings (s\<lparr>sendRatchet := c4\<rparr>) = settings s" "settings (s\<lparr>retainedSendRatchet := c5\<rparr>) = settings s"
  "settings (s\<lparr>retainedSendExpiresAt := c6\<rparr>) = settings s" "settings (s\<lparr>externalSenderPackage := c7\<rparr>) = settings s"
  "settings (s\<lparr>channelID := c8\<rparr>) = settings s" "settings (s\<lparr>lastProposalBatch := c9\<rparr>) = settings s"
  by (simp_all add: settings_def)

lemma quiet_send [simp]: "quiet (snd (sendLocked kdf E msg s)) = quiet s" "quiet (free_step kdf op s) = quiet s"
  using rest_send [of kdf E msg s] rest_free [of kdf op s] by (simp_all add: rest_def quiet_def settings_def)

lemma quiet_small [simp]:
  "quiet (snd (client_call m f s)) = quiet s" "quiet (snd (client_read m g s)) = quiet s"
  "quiet (snd (ensureMLSClientLocked E s)) = quiet s" "quiet (resetEpochReadyLocked s) = quiet s" "quiet (goWatchdog w s) = quiet s"
  "quiet (snd (joinGroupLocked E wel s)) = quiet s"
  by (auto simp: client_call_def client_read_def go_panic_def ensureMLSClientLocked_def resetEpochReadyLocked_def goWatchdog_def
      joinGroupLocked_def quiet_def split: option.splits prod.splits sum.splits outcome.splits)

lemma quiet_watch [simp]: "quiet (watchRecoveryLocked err s) = quiet s" "quiet (watchDroppedSendLocked e s) = quiet s"
proof -
  show w: "quiet (watchRecoveryLocked err s) = quiet s" for err and s :: "'a Session"
    by (simp add: watchRecoveryLocked_def Let_def) (simp add: quiet_def)
  show "quiet (watchDroppedSendLocked e s) = quiet s" by (simp add: watchDroppedSendLocked_def w)
qed

lemma quiet_bind: "quiet (snd m) = q \<Longrightarrow> (\<And>x s. quiet s = q \<Longrightarrow> quiet (snd (f x s)) = q) \<Longrightarrow> quiet (snd (sbind m f)) = q"
  by (simp add: snd_sbind split: sum.splits)

lemma quiet_upd:
  "quiet (s\<lparr>groupID := a2\<rparr>) = quiet s" "quiet (s\<lparr>pendingGroupID := a3\<rparr>) = quiet s" "quiet (s\<lparr>pendingEpoch := a4\<rparr>) = quiet s"
  "quiet (s\<lparr>pendingCommitBytes := a5\<rparr>) = quiet s" "quiet (s\<lparr>preCommitGroupState := a6\<rparr>) = quiet s" "quiet (s\<lparr>pendingKeyPackage := a7\<rparr>) = quiet s"
  "quiet (s\<lparr>stats := a8\<rparr>) = quiet s"
  by (simp_all add: quiet_def)

lemma quiet_rebuild [simp]: "quiet (snd (rebuildEpochStateLocked kdf E gid s)) = quiet s"
proof (cases "rebuildEpochStateLocked kdf E gid s")
  case (Pair a b)
  then have "quiet b = quiet s" by (cases rule: rebuild_cases) (simp_all add: quiet_def)
  then show ?thesis using Pair by simp
qed

lemma quiet_key_package [simp]:
  "quiet (snd (sendKeyPackageLocked kdf E kp s)) = quiet s" "quiet (snd (freshKeyPackageLocked E s)) = quiet s"
  "quiet (snd (ensurePendingKeyPackageLocked kdf E s)) = quiet s"
proof -
  show k: "quiet (snd (sendKeyPackageLocked kdf E kp s)) = quiet s" for kp and s :: "'a Session"
    by (auto simp: sendKeyPackageLocked_def quiet_upd intro!: quiet_bind)
  show f: "quiet (snd (freshKeyPackageLocked E s)) = quiet s" for s :: "'a Session"
    by (auto simp: freshKeyPackageLocked_def intro!: quiet_bind)
  show "quiet (snd (ensurePendingKeyPackageLocked kdf E s)) = quiet s"
    by (auto simp: ensurePendingKeyPackageLocked_def k f intro!: quiet_bind)
qed

lemma quiet_groups [simp]:
  "quiet (snd (createGroupWithExternalSenderLocked kdf E s)) = quiet s" "quiet (snd (restorePreCommitStateLocked E s)) = quiet s"
  "quiet (snd (joinPendingWelcomeLocked kdf E wel s)) = quiet s" "quiet (snd (processCommitLocked kdf E c s)) = quiet s"
  "quiet (sendInvalidCommitWelcomeLocked kdf E tid s) = quiet s"
proof -
  show "quiet (snd (createGroupWithExternalSenderLocked kdf E s)) = quiet s"
    by (auto simp: createGroupWithExternalSenderLocked_def quiet_upd intro!: quiet_bind)
  show "quiet (snd (restorePreCommitStateLocked E s)) = quiet s"
    by (auto simp: restorePreCommitStateLocked_def quiet_upd intro!: quiet_bind)
  have v: "quiet (snd (validateJoinedWelcomeExternalSenderLocked E gid s)) = quiet s" for gid and s :: "'a Session"
    by (auto simp: validateJoinedWelcomeExternalSenderLocked_def intro!: quiet_bind split: sum.splits)
  show "quiet (snd (joinPendingWelcomeLocked kdf E wel s)) = quiet s"
    by (auto simp: joinPendingWelcomeLocked_def quiet_upd v intro!: quiet_bind split: sum.splits)
  show "quiet (snd (processCommitLocked kdf E c s)) = quiet s"
    by (auto simp: processCommitLocked_def quiet_upd intro!: quiet_bind split: sum.splits)
  show "quiet (sendInvalidCommitWelcomeLocked kdf E tid s) = quiet s" by (simp add: sendInvalidCommitWelcomeLocked_def)
qed

lemma quiet_proposal_loop: "quiet (snd (snd (proposal_loop E acc remaining s))) = quiet s"
proof (induction E acc remaining s rule: proposal_loop.induct)
  case (1 E acc remaining s)
  have c: "quiet s1 = quiet s" if "client_call m f s = (a, s1)" for m f a s1
    using quiet_small(1) [of m f s] that by simp
  have p: "quiet (s\<lparr>panicked := True\<rparr>) = quiet s" by (simp add: quiet_def)
  show ?case
    by (subst proposal_loop.simps) (auto simp: Let_def go_panic_def quiet_upd p 1 split: sum.splits prod.splits dest: c)
qed

lemma quiet_send_commit: "quiet (send_commit kdf E payload s) = quiet s"
proof -
  have q: "quiet s1 = quiet s" if "sendLocked kdf E (SendMLSCommitWelcome payload) s = (a, s1)" for a s1
    using quiet_send(1) [of kdf E "SendMLSCommitWelcome payload" s] that by simp
  show ?thesis by (auto simp: send_commit_def Let_def split: prod.splits sum.splits dest: q)
qed

lemma quiet_commit: "quiet (processAndCommitProposalBatchLocked kdf E proposals s) = quiet s"
proof -
  have b: "quiet (snd (snd (processProposalBatchLocked E proposals s))) = quiet s" for s :: "'a Session"
    by (simp add: processProposalBatchLocked_def processRevokeProposalsLocked_def quiet_proposal_loop Let_def split: sum.splits)
  have cp: "quiet (snd (commitProposalsLocked kdf E s)) = quiet s" for s :: "'a Session"
    by (auto simp: commitProposalsLocked_def quiet_send_commit quiet_upd Let_def intro!: quiet_bind split: sum.splits prod.splits)
  obtain a1 s1 where 1: "ensureMLSClientLocked E s = (a1, s1)" by fastforce
  obtain acc a2 s2 where 2: "processProposalBatchLocked E proposals s1 = (acc, a2, s2)" by (metis prod.exhaust)
  have "quiet s1 = quiet s" "quiet s2 = quiet s1"
    using quiet_small(3) [of E s] b [of s1] 1 2 by simp_all
  then show ?thesis using 1 2 cp [of s2] by (simp add: processAndCommitProposalBatchLocked_def split: sum.splits)
qed

lemma queue_commit: "proposalQueue (processAndCommitProposalBatchLocked kdf E proposals s) = proposalQueue s"
  using quiet_commit [of kdf E proposals s] by (simp add: quiet_def)

section \<open>The proposal queue\<close>

lemma drain_loop_done:
  "length (proposalQueue s) \<le> n \<Longrightarrow>
    (proposalQueue (drain_loop kdf E n s) = [] \<or> pendingEpoch (drain_loop kdf E n s) \<noteq> None)
    \<and> (\<exists>k. proposalQueue (drain_loop kdf E n s) = drop k (proposalQueue s))"
proof (induction n arbitrary: s)
  case 0
  then show ?case by simp
next
  case (Suc n)
  show ?case
  proof (cases "0 < length (proposalQueue s) \<and> pendingEpoch s = None")
    case True
    let ?s = "processAndCommitProposalBatchLocked kdf E (hd (proposalQueue s)) (s\<lparr>proposalQueue := tl (proposalQueue s)\<rparr>)"
    have q: "proposalQueue ?s = tl (proposalQueue s)" by (simp add: queue_commit)
    have "length (proposalQueue ?s) \<le> n" using Suc.prems True by (simp add: q)
    from Suc.IH [OF this] obtain k where "proposalQueue (drain_loop kdf E n ?s) = [] \<or> pendingEpoch (drain_loop kdf E n ?s) \<noteq> None"
      "proposalQueue (drain_loop kdf E n ?s) = drop (Suc k) (proposalQueue s)" by (auto simp: q drop_Suc)
    then show ?thesis using True by auto
  next
    case False
    then show ?thesis by (auto intro: exI [of _ 0])
  qed
qed

text \<open>C24 drain_complete. The loop that replays queued proposal batches ends: its bound, the length of the queue,
  is enough for the loop's own condition to become false. The queue is then empty or an epoch is
  pending again, and what is left of it is a suffix, so batches are taken in order and none twice.\<close>

theorem drain_complete:
  "let s' = drainProposalQueueLocked kdf E s in
     \<not> (0 < length (proposalQueue s') \<and> pendingEpoch s' = None) \<and> (\<exists>k. proposalQueue s' = drop k (proposalQueue s))"
  using drain_loop_done [of s "length (proposalQueue s)" kdf E] by (auto simp: drainProposalQueueLocked_def Let_def)

end
