(* ===== verification/Session_Transitions.thy ===== *)
theory Session_Transitions
  imports Session_Protocol
begin

text \<open>
  The transitions of a group: what the epoch of a group is built from, which Welcomes and commits are
  taken, how a commit that lost is rolled back, what executing a transition does, and that plaintext
  stays refused until the voice layer goes back to protocol version 0.
\<close>

section \<open>Definitions\<close>

text \<open>The senders an epoch must have: one for each member of the group, in order, with the user id of the
  member's identity and the base secret exported for it; no user is listed twice.\<close>

definition epoch_spec :: "exporter \<Rightarrow> bytes list \<Rightarrow> (UserID \<times> bytes) list \<Rightarrow> bool" where
  "epoch_spec export members senders \<longleftrightarrow> distinct (map fst senders)
     \<and> list_all2 (\<lambda>identity (u, base). \<exists>n. identityBytesToUserID identity = Inr (u, n)
         \<and> DeriveSenderBaseSecret (Some export) n = Inr base \<and> length base = 16) members senders"

text \<open>The senders of an epoch with their base secrets.\<close>

definition epoch_bases :: "(rref \<rightharpoonup> KeyRatchet) \<Rightarrow> epochState \<Rightarrow> (UserID \<times> bytes) list" where
  "epoch_bases rs e = map (\<lambda>(u, x). (u, case rs (ss_ratchet x) of Some r \<Rightarrow> baseSecret r | None \<Rightarrow> [])) (es_senders e)"

text \<open>The group state in the store of the client.\<close>

definition group_state :: "'c Env \<Rightarrow> bytes \<Rightarrow> 'c Session \<Rightarrow> (go_error + bytes) option" where
  "group_state E gid s = map_option (\<lambda>c. LoadGroupState E c gid) (mlsClient s)"

section \<open>The epoch of a group\<close>

lemma new_ratchet_iff: "(\<exists>r. NewKeyRatchet base [] = Inr r) \<longleftrightarrow> length base = 16"
  by (simp add: NewKeyRatchet_def BaseSecretLen_def)

lemma new_ratchet_base: "NewKeyRatchet base [] = Inr r \<Longrightarrow> baseSecret r = base"
  by (auto simp: NewKeyRatchet_def Let_def split: if_splits)

lemma rebuild_loop_total:
  assumes "list_all2 (\<lambda>identity (u, base). \<exists>n. identityBytesToUserID identity = Inr (u, n)
      \<and> DeriveSenderBaseSecret (Some export) n = Inr base \<and> length base = 16) members new"
    "distinct (map fst new)" "fst ` set new \<inter> seen' = {}"
  shows "\<exists>x. rebuild_loop export members seen' senders rs n = Inr x"
  using assms
proof (induction members new arbitrary: seen' senders rs n rule: list_all2_induct)
  case (Cons identity members x new)
  obtain u base where x: "x = (u, base)" by fastforce
  then obtain k r where "identityBytesToUserID identity = Inr (u, k)" "DeriveSenderBaseSecret (Some export) k = Inr base"
    "NewKeyRatchet base [] = Inr r" using Cons(1) new_ratchet_iff [of base] by blast
  moreover have "u \<notin> seen'" "fst ` set new \<inter> insert u seen' = {}" "distinct (map fst new)" using Cons(4,5) x by auto
  ultimately show ?case using Cons(3) [of "insert u seen'"] by simp
qed simp

lemma fresh_entry_base:
  assumes "fresh_entry export rs identity (u, x)"
  shows "\<exists>n. identityBytesToUserID identity = Inr (u, n)
    \<and> DeriveSenderBaseSecret (Some export) n = Inr (case rs (ss_ratchet x) of Some r \<Rightarrow> baseSecret r | None \<Rightarrow> [])
    \<and> length (case rs (ss_ratchet x) of Some r \<Rightarrow> baseSecret r | None \<Rightarrow> []) = 16"
proof -
  obtain n base r where x: "identityBytesToUserID identity = Inr (u, n)" "DeriveSenderBaseSecret (Some export) n = Inr base"
    "NewKeyRatchet base [] = Inr r" "rs (ss_ratchet x) = Some r" using assms by (auto simp: fresh_entry_def)
  then show ?thesis using new_ratchet_iff [of base] new_ratchet_base [OF x(3)] by auto
qed

lemma rebuilt_spec:
  assumes "mlsClient s = Some c" "rebuildEpochStateLocked kdf E gid s = (Inr e, s')"
  shows "es_groupID e = gid \<and> Epoch E c gid = Inr (es_id e)
    \<and> (\<exists>members. ListMembers E c gid = Inr members \<and> epoch_spec (adapter_exporter kdf E (Some c) gid) members (epoch_bases (ratchets s') e))
    \<and> (\<forall>(u, x)\<in>set (es_senders e). ss_expander x = NewNonceExpander \<and> ss_replay x = newReplayWindow \<and> nextRef s \<le> ss_ratchet x)
    \<and> (\<forall>ref < nextRef s. ratchets s' ref = ratchets s ref)"
proof -
  let ?x = "adapter_exporter kdf E (Some c) gid"
  obtain members where m: "ListMembers E c gid = Inr members" and ep: "Epoch E c gid = Inr (es_id e)" and g: "es_groupID e = gid"
    and l: "list_all2 (fresh_entry ?x (ratchets s')) members (es_senders e)" and refs: "map snd (epoch_refs e) = [nextRef s..<nextRef s']"
    and d: "distinct (map fst (es_senders e))" and old: "\<forall>ref. ref < nextRef s \<longrightarrow> ratchets s' ref = ratchets s ref"
    using rebuilt_epoch [OF assms(2)] assms(1) by auto
  have "epoch_spec ?x members (epoch_bases (ratchets s') e)" unfolding epoch_spec_def epoch_bases_def
    using d l by (auto simp: comp_def case_prod_beta list_all2_map2 elim!: list_all2_mono dest!: fresh_entry_base)
  moreover have "nextRef s \<le> ss_ratchet x" if "(u, x) \<in> set (es_senders e)" for u x
  proof -
    have "ss_ratchet x \<in> set (map snd (epoch_refs e))" using that by (force simp: epoch_refs_def)
    then show ?thesis by (simp add: refs)
  qed
  moreover have "ss_expander x = NewNonceExpander \<and> ss_replay x = newReplayWindow" if "(u, x) \<in> set (es_senders e)" for u x
    using l that by (auto simp: list_all2_conv_all_nth in_set_conv_nth fresh_entry_def)
  ultimately show ?thesis using m ep g old by blast
qed

text \<open>The client has a group whose epoch can be built.\<close>

definition epoch_available :: "kdf \<Rightarrow> 'c Env \<Rightarrow> 'c \<Rightarrow> bytes \<Rightarrow> bool" where
  "epoch_available kdf E c gid \<longleftrightarrow> (\<exists>members ep senders. ListMembers E c gid = Inr members \<and> Epoch E c gid = Inr ep
     \<and> epoch_spec (adapter_exporter kdf E (Some c) gid) members senders)"

lemma rebuild_iff:
  assumes "mlsClient s = Some c" "rebuildEpochStateLocked kdf E gid s = (r, s')"
  shows "(\<exists>e. r = Inr e) \<longleftrightarrow> epoch_available kdf E c gid"
proof
  let ?x = "adapter_exporter kdf E (Some c) gid"
  assume "epoch_available kdf E c gid"
  then obtain members ep senders where m: "ListMembers E c gid = Inr members" "Epoch E c gid = Inr ep" "epoch_spec ?x members senders"
    unfolding epoch_available_def by blast
  then obtain x where "rebuild_loop ?x members {} [] (ratchets s) (nextRef s) = Inr x"
    using rebuild_loop_total [of ?x members senders "{}" "[]" "ratchets s" "nextRef s"] by (auto simp: epoch_spec_def)
  then show "\<exists>e. r = Inr e" using assms m(1,2) by (cases x) (auto simp: rebuildEpochStateLocked_def client_read_def)
next
  assume "\<exists>e. r = Inr e"
  then show "epoch_available kdf E c gid"
    using rebuilt_spec [OF assms(1), of kdf E gid _ s'] assms(2) unfolding epoch_available_def by blast
qed

lemma rebuild_fails: "mlsClient s = Some c \<Longrightarrow> rebuildEpochStateLocked kdf E gid s = (Inl e, s') \<Longrightarrow> s' = s"
  by (erule rebuild_cases) force+

text \<open>C13 rebuild_exact. \<open>rebuildEpochStateLocked\<close> builds the epoch of the specification and nothing else: it succeeds
  exactly if the client lists members whose identities are user ids, no user twice, with a base
  secret of 16 bytes for each. The epoch then has one sender per member with the ratchet of that
  member's base secret, a fresh expander and an empty replay window; ratchets that existed before are
  not touched and none is shared with the new epoch. On failure the epochs of the session stay.\<close>

theorem rebuild_exact:
  assumes "mlsClient s = Some c" "rebuildEpochStateLocked kdf E gid s = (r, s')"
  shows "((\<exists>e. r = Inr e) \<longleftrightarrow> (\<exists>members ep senders. ListMembers E c gid = Inr members \<and> Epoch E c gid = Inr ep
        \<and> epoch_spec (adapter_exporter kdf E (Some c) gid) members senders))
    \<and> (\<forall>e. r = Inr e \<longrightarrow> es_groupID e = gid \<and> Epoch E c gid = Inr (es_id e)
        \<and> (\<exists>members. ListMembers E c gid = Inr members \<and> epoch_spec (adapter_exporter kdf E (Some c) gid) members (epoch_bases (ratchets s') e))
        \<and> (\<forall>(u, x)\<in>set (es_senders e). ss_expander x = NewNonceExpander \<and> ss_replay x = newReplayWindow \<and> nextRef s \<le> ss_ratchet x)
        \<and> (\<forall>ref < nextRef s. ratchets s' ref = ratchets s ref))
    \<and> (\<forall>e. r = Inl e \<longrightarrow> s' = s)"
  using rebuild_iff [OF assms] rebuilt_spec [OF assms(1), of kdf E gid _ s'] rebuild_fails [OF assms(1), of kdf E gid _ s'] assms(2)
  unfolding epoch_available_def by (intro conjI allI impI) blast+

text \<open>The epoch of the example's group.\<close>

theorem rebuild_exact_witness:
  "\<exists>base e s'. rebuildEpochStateLocked pad_kdf demo_env [0, 0, 0, 0, 0, 0, 0, 5] demo_ready = (Inr e, s')
     \<and> epoch_bases (ratchets s') e = [(''7'', base)] \<and> length base = 16"
proof -
  obtain r where r: "rebuildEpochStateLocked pad_kdf demo_env [0, 0, 0, 0, 0, 0, 0, 5] demo_ready = (Inr demo_own, demo_ready\<lparr>ratchets := [0 \<mapsto> r], nextRef := 1\<rparr>)"
    using demo_rebuild by blast
  have "mlsClient demo_ready = Some ()" by (simp add: demo_ready_def)
  from rebuild_exact [OF this r] have "epoch_spec (adapter_exporter pad_kdf demo_env (Some ()) [0, 0, 0, 0, 0, 0, 0, 5]) [[0, 0, 0, 0, 0, 0, 0, 7]]
      (epoch_bases [0 \<mapsto> r] demo_own)" by simp
  then show ?thesis using r by (auto simp: epoch_spec_def epoch_bases_def demo_own_def)
qed

section \<open>Welcomes\<close>

text \<open>What a Welcome and the group it leads to must show: the cipher suite of DAVE, and exactly one external
  sender, the one the gateway announced.\<close>

definition welcome_spec :: "'c Env \<Rightarrow> 'c Session \<Rightarrow> bytes \<Rightarrow> 'c \<Rightarrow> bytes \<Rightarrow> bool" where
  "welcome_spec E s welcome c gid \<longleftrightarrow> welcomeCipherSuite E welcome = Inr (MLS128DHKEMP256 E)
     \<and> (\<exists>expected info exts data x. ParseSingleExternalSender E (externalSenderPackage s) = Inr (Some expected)
         \<and> GroupInfo E c gid = Inr info \<and> UnmarshalGroupInfo E info = Inr exts
         \<and> find (\<lambda>(t, _). t = ExtensionTypeExternalSenders E) exts = Some (ExtensionTypeExternalSenders E, data)
         \<and> UnmarshalExternalSendersExtension E data = Inr [x]
         \<and> (\<exists>cred k. xs_Credential expected = Some cred \<and> xs_Credential x = Some cred
             \<and> xs_PublicKey expected = Some (Inr k) \<and> xs_PublicKey x = Some (Inr k)))"

lemma external_sender_matches_iff:
  "externalSenderMatches expected actual \<longleftrightarrow> (\<exists>e a cred k. expected = Some e \<and> actual = Some a
     \<and> xs_Credential e = Some cred \<and> xs_Credential a = Some cred \<and> xs_PublicKey e = Some (Inr k) \<and> xs_PublicKey a = Some (Inr k))"
proof (cases expected; cases actual)
  fix e a assume x: "expected = Some e" "actual = Some a"
  show ?thesis using x
    by (cases "xs_Credential e"; cases "xs_Credential a"; cases "xs_PublicKey e"; cases "xs_PublicKey a"; cases "the (xs_PublicKey e)";
        cases "the (xs_PublicKey a)") (auto simp: externalSenderMatches_def)
qed (simp_all add: externalSenderMatches_def)

lemma find_key: "find (\<lambda>(t, _). t = k) xs = Some (t, d) \<Longrightarrow> t = k"
  by (auto simp: find_Some_iff)

lemma validate_iff:
  assumes "mlsClient s = Some c" "welcomeCipherSuite E welcome = Inr (MLS128DHKEMP256 E)" "externalSenderPackage s \<noteq> []"
  shows "validateJoinedWelcomeExternalSenderLocked E gid s = (Inr (), s) \<longleftrightarrow> welcome_spec E s welcome c gid"
    "snd (validateJoinedWelcomeExternalSenderLocked E gid s) = s"
proof -
  show "snd (validateJoinedWelcomeExternalSenderLocked E gid s) = s"
    using assms by (simp add: validateJoinedWelcomeExternalSenderLocked_def snd_sbind client_read_def split: sum.splits)
  have one: "(if length senders \<noteq> 1 then Inl a else if \<not> externalSenderMatches e (Some (senders ! 0)) then Inl b else Inr ()) = Inr ()
      \<longleftrightarrow> (\<exists>x. senders = [x] \<and> externalSenderMatches e (Some x))"
    for senders e and a b :: session_error by (cases senders) auto
  show "validateJoinedWelcomeExternalSenderLocked E gid s = (Inr (), s) \<longleftrightarrow> welcome_spec E s welcome c gid"
  proof (cases "ParseSingleExternalSender E (externalSenderPackage s)")
    case (Inr expected)
    have f: "(case find (\<lambda>(t, _). t = k) exts of None \<Rightarrow> Inl err | Some (_, data) \<Rightarrow> g data) = Inr () \<longleftrightarrow>
        (\<exists>data. find (\<lambda>(t, _). t = k) exts = Some (k, data) \<and> g data = Inr ())" for k exts err and g :: "bytes \<Rightarrow> session_error + unit"
      using find_key [of k exts] by (auto split: option.splits)
    show ?thesis using assms Inr
      by (cases "GroupInfo E c gid")
        (simp_all add: validateJoinedWelcomeExternalSenderLocked_def welcome_spec_def client_read_def error_iffs f one del: One_nat_def,
          auto simp: external_sender_matches_iff)
  qed (use assms in \<open>simp add: validateJoinedWelcomeExternalSenderLocked_def welcome_spec_def\<close>)
qed

lemma join_steps:
  assumes "mlsClient s = Some c" "joinPendingWelcomeLocked kdf E welcome s = (Inr (), s')"
  obtains gid c' e s3 where "welcomeCipherSuite E welcome = Inr (MLS128DHKEMP256 E)" "JoinGroup E c welcome = (Returns (Inr gid), c')"
    "validateJoinedWelcomeExternalSenderLocked E gid (s\<lparr>mlsClient := Some c'\<rparr>) = (Inr (), s\<lparr>mlsClient := Some c'\<rparr>)"
    "rebuildEpochStateLocked kdf E gid (s\<lparr>mlsClient := Some c', groupID := gid, pendingGroupID := gid\<rparr>) = (Inr e, s3)"
    "s' = s3\<lparr>pendingEpoch := Some e\<rparr>"
proof -
  have suite: "welcomeCipherSuite E welcome = Inr (MLS128DHKEMP256 E)"
    using assms(2) by (auto simp: joinPendingWelcomeLocked_def split: sum.splits if_splits)
  obtain gid c' where j: "JoinGroup E c welcome = (Returns (Inr gid), c')"
  proof -
    obtain out c' where o: "JoinGroup E c welcome = (out, c')" by fastforce
    have "\<exists>gid. out = Returns (Inr gid)"
    proof (cases out)
      case (Returns x)
      then show ?thesis using assms suite o by (cases x) (simp_all add: joinPendingWelcomeLocked_def joinGroupLocked_def)
    qed (use assms suite o in \<open>simp add: joinPendingWelcomeLocked_def joinGroupLocked_def\<close>)
    then show thesis using that o by blast
  qed
  let ?s1 = "s\<lparr>mlsClient := Some c'\<rparr>"
  obtain a s2 where v: "validateJoinedWelcomeExternalSenderLocked E gid ?s1 = (a, s2)" by fastforce
  have a: "a = Inr ()" using assms suite j v by (cases a) (simp_all add: joinPendingWelcomeLocked_def joinGroupLocked_def)
  have v1: "externalSenderPackage ?s1 \<noteq> []" using v a by (auto simp: validateJoinedWelcomeExternalSenderLocked_def)
  have v2: "s2 = ?s1" using validate_iff(2) [of ?s1 c' E "welcome" gid] suite v1 v by simp
  obtain b s3 where r: "rebuildEpochStateLocked kdf E gid (?s1\<lparr>groupID := gid, pendingGroupID := gid\<rparr>) = (b, s3)" by fastforce
  then obtain e where "b = Inr e" "s' = s3\<lparr>pendingEpoch := Some e\<rparr>"
    using assms suite j v a v2 by (cases b) (auto simp: joinPendingWelcomeLocked_def joinGroupLocked_def)
  then show thesis using that suite j v a v2 r by simp
qed

lemma rebuilt_shape: "rebuildEpochStateLocked kdf E gid s = (Inr e, s') \<Longrightarrow> \<exists>rs n. s' = s\<lparr>ratchets := rs, nextRef := n\<rparr> \<and> es_groupID e = gid"
  using rebuilt_epoch [of kdf E gid s e s'] by blast

lemma core_epochs: "core s' = core s \<Longrightarrow> activeEpoch s' = activeEpoch s \<and> pendingEpoch s' = pendingEpoch s \<and> sendRatchet s' = sendRatchet s"
  by (simp add: core_def)

lemma join_fails:
  assumes "joinPendingWelcomeLocked kdf E welcome s = (Inl e, s')"
  shows "core s' = core s"
proof -
  have j: "core s1 = core s" if "joinGroupLocked E welcome s = (a, s1)" for a s1 using core_join [of E "welcome" s] that by simp
  have v: "core s2 = core s1" if "validateJoinedWelcomeExternalSenderLocked E gid s1 = (a, s2)" for gid a and s1 s2 :: "'a Session"
    using core_validate [of E gid s1] that by simp
  obtain a1 s1 where 1: "joinGroupLocked E welcome s = (a1, s1)" by fastforce
  obtain a2 s2 where 2: "validateJoinedWelcomeExternalSenderLocked E (projr a1) s1 = (a2, s2)" by fastforce
  obtain a3 s3 where 3: "rebuildEpochStateLocked kdf E (projr a1) (s2\<lparr>groupID := projr a1, pendingGroupID := projr a1\<rparr>) = (a3, s3)" by fastforce
  have 4: "core s3 = core (s2\<lparr>groupID := projr a1, pendingGroupID := projr a1\<rparr>)" if "a3 = Inl e" for e
    using 3 by (cases rule: rebuild_cases) (use that in simp_all)
  consider "s' = s" | "s' = s1" | "s' = s2" "a1 = Inr (projr a1)" | "s' = s3" "\<exists>e. a3 = Inl e"
    using assms 1 2 3 by (cases a1; cases a2; cases a3) (auto simp: joinPendingWelcomeLocked_def split: sum.splits if_splits)
  then show ?thesis using j [OF 1] v [OF 2] 4 by cases auto
qed

text \<open>C14 welcome_checked. A Welcome is taken exactly if it names the cipher suite of DAVE, the client can join, the
  group's only external sender has the credential and the key of the sender the gateway announced,
  and the group's epoch can be built; the epoch then waits as the pending one. A Welcome that fails
  one of these checks changes neither the epochs nor the send ratchet.\<close>

theorem welcome_checked:
  assumes "mlsClient s = Some c" "joinPendingWelcomeLocked kdf E welcome s = (r, s')"
  shows "(r = Inr () \<longrightarrow> (\<exists>gid c' e. JoinGroup E c welcome = (Returns (Inr gid), c') \<and> externalSenderPackage s \<noteq> [] \<and> welcome_spec E s welcome c' gid
      \<and> epoch_available kdf E c' gid \<and> pendingEpoch s' = Some e \<and> es_groupID e = gid \<and> pendingGroupID s' = gid \<and> activeEpoch s' = activeEpoch s))
    \<and> (\<forall>gid c'. JoinGroup E c welcome = (Returns (Inr gid), c') \<and> externalSenderPackage s \<noteq> [] \<and> welcome_spec E s welcome c' gid
        \<and> epoch_available kdf E c' gid \<longrightarrow> r = Inr ())
    \<and> (r \<noteq> Inr () \<longrightarrow> activeEpoch s' = activeEpoch s \<and> pendingEpoch s' = pendingEpoch s \<and> sendRatchet s' = sendRatchet s)"
proof (intro conjI impI allI)
  assume r: "r = Inr ()"
  from join_steps [OF assms(1) assms(2) [unfolded r]] obtain gid c' e s3 where
      j: "welcomeCipherSuite E welcome = Inr (MLS128DHKEMP256 E)" "JoinGroup E c welcome = (Returns (Inr gid), c')"
        "validateJoinedWelcomeExternalSenderLocked E gid (s\<lparr>mlsClient := Some c'\<rparr>) = (Inr (), s\<lparr>mlsClient := Some c'\<rparr>)"
        "rebuildEpochStateLocked kdf E gid (s\<lparr>mlsClient := Some c', groupID := gid, pendingGroupID := gid\<rparr>) = (Inr e, s3)"
        "s' = s3\<lparr>pendingEpoch := Some e\<rparr>" .
  have x: "externalSenderPackage s \<noteq> []" using j(3) by (auto simp: validateJoinedWelcomeExternalSenderLocked_def)
  then have w: "welcome_spec E s welcome c' gid"
    using validate_iff(1) [of "s\<lparr>mlsClient := Some c'\<rparr>" c' E "welcome" gid] j(1,3) by (simp add: welcome_spec_def)
  have a: "epoch_available kdf E c' gid" using rebuild_iff [OF _ j(4), of c'] by simp
  obtain rs n where s3: "s3 = s\<lparr>mlsClient := Some c', groupID := gid, pendingGroupID := gid, ratchets := rs, nextRef := n\<rparr>" "es_groupID e = gid"
    using rebuilt_shape [OF j(4)] by blast
  then have "pendingEpoch s' = Some e \<and> es_groupID e = gid \<and> pendingGroupID s' = gid \<and> activeEpoch s' = activeEpoch s"
    by (simp add: j(5))
  then show "\<exists>gid c' e. JoinGroup E c welcome = (Returns (Inr gid), c') \<and> externalSenderPackage s \<noteq> [] \<and> welcome_spec E s welcome c' gid
      \<and> epoch_available kdf E c' gid \<and> pendingEpoch s' = Some e \<and> es_groupID e = gid \<and> pendingGroupID s' = gid \<and> activeEpoch s' = activeEpoch s"
    using j(2) x w a by blast
next
  fix gid c'
  assume "JoinGroup E c welcome = (Returns (Inr gid), c') \<and> externalSenderPackage s \<noteq> [] \<and> welcome_spec E s welcome c' gid \<and> epoch_available kdf E c' gid"
  then have j: "JoinGroup E c welcome = (Returns (Inr gid), c')" "externalSenderPackage s \<noteq> []" "welcome_spec E s welcome c' gid"
      "epoch_available kdf E c' gid" "welcomeCipherSuite E welcome = Inr (MLS128DHKEMP256 E)" by (simp_all add: welcome_spec_def)
  have v: "validateJoinedWelcomeExternalSenderLocked E gid (s\<lparr>mlsClient := Some c'\<rparr>) = (Inr (), s\<lparr>mlsClient := Some c'\<rparr>)"
    using validate_iff(1) [of "s\<lparr>mlsClient := Some c'\<rparr>" c' E "welcome" gid] j by (simp add: welcome_spec_def)
  obtain b s3 where b: "rebuildEpochStateLocked kdf E gid (s\<lparr>mlsClient := Some c', groupID := gid, pendingGroupID := gid\<rparr>) = (b, s3)" by fastforce
  then obtain e where "b = Inr e" using rebuild_iff [OF _ b, of c'] j(4) by auto
  then show "r = Inr ()" using assms j v b by (auto simp: joinPendingWelcomeLocked_def joinGroupLocked_def)
next
  assume "r \<noteq> Inr ()"
  then obtain e where "r = Inl e" by (cases r) auto
  from core_epochs [OF join_fails [OF assms(2) [unfolded this]]]
  show "activeEpoch s' = activeEpoch s" "pendingEpoch s' = pendingEpoch s" "sendRatchet s' = sendRatchet s" by simp_all
qed

lemma log_available: "epoch_available pad_kdf log_env c g"
proof -
  have "\<exists>b. DeriveSenderBaseSecret (Some (adapter_exporter pad_kdf log_env (Some c) g)) 7 = Inr b \<and> length b = 16"
    by (simp add: DeriveSenderBaseSecret_def adapter_exporter_def exporterAdapter_Export_def log_env_def ExportWithMLSExporterSecret_def
        pad_kdf_def BaseSecretLen_def)
  then obtain b where "DeriveSenderBaseSecret (Some (adapter_exporter pad_kdf log_env (Some c) g)) 7 = Inr b" "length b = 16" by blast
  then have "epoch_spec (adapter_exporter pad_kdf log_env (Some c) g) [[0, 0, 0, 0, 0, 0, 0, 7]] [(''7'', b)]"
    by (simp add: epoch_spec_def demo_id)
  moreover have "ListMembers log_env c g = Inr [[0, 0, 0, 0, 0, 0, 0, 7]]" "Epoch log_env c g = Inr 1" by (simp_all add: log_env_def)
  ultimately show ?thesis unfolding epoch_available_def by blast
qed

lemma log_fields: "mlsClient log_session = Some [[5]]" "externalSenderPackage log_session = [6]" "groupID log_session = [9]"
  by (simp_all add: log_session_def New_def Let_def)

theorem welcome_checked_witness:
  "fst (joinPendingWelcomeLocked pad_kdf log_env [8] log_session) = Inr ()
    \<and> (\<exists>e. pendingEpoch (snd (joinPendingWelcomeLocked pad_kdf log_env [8] log_session)) = Some e \<and> es_groupID e = [9])"
proof -
  obtain r s' where j: "joinPendingWelcomeLocked pad_kdf log_env [8] log_session = (r, s')" by fastforce
  have "JoinGroup log_env [[5]] [8] = (Returns (Inr [9]), [[5]])" "welcome_spec log_env log_session [8] [[5]] [9]"
    by (simp_all add: welcome_spec_def welcomeCipherSuite_def log_env_def log_fields)
  then show ?thesis using welcome_checked [OF log_fields(1) j] log_available log_fields(2) j by auto
qed

section \<open>Commits\<close>

text \<open>A commit message of the protocol: it carries a commit whose proposals are all references.\<close>

definition commit_by_reference :: "'c Env \<Rightarrow> bytes \<Rightarrow> bool" where
  "commit_by_reference E commit \<longleftrightarrow> (\<exists>msg pub data proposals. UnmarshalMLSMessage E commit = Inr msg \<and> mm_Public msg = Some pub
     \<and> pm_CommitData pub = Some data \<and> data \<noteq> [] \<and> UnmarshalCommit E data = Inr proposals \<and> (\<forall>p\<in>set proposals. p = None))"

lemma validate_commit_iff: "validateCommitProposalRefs E commit = Inr () \<longleftrightarrow> commit_by_reference E commit"
proof (cases "UnmarshalMLSMessage E commit")
  case (Inr msg)
  then show ?thesis
    by (cases "mm_Public msg"; cases "pm_CommitData (the (mm_Public msg))")
      (auto simp: validateCommitProposalRefs_def commit_by_reference_def error_iffs list_ex_iff split: if_splits)
qed (simp add: validateCommitProposalRefs_def commit_by_reference_def)

text \<open>C16 commit_by_reference_only. A commit reaches the MLS client only if the session has a group and the commit refers
  to proposals the session has already checked: one that carries a proposal of its own, or is no
  public commit message, leaves the whole session unchanged. A commit that is processed makes the
  epoch of the changed group the pending one and leaves the active epoch alone.\<close>

theorem commit_by_reference_only:
  assumes "mlsClient s = Some c" "processCommitLocked kdf E commit s = (r, s')"
  shows "(groupID s = [] \<or> \<not> commit_by_reference E commit \<longrightarrow> (\<exists>e. r = Inl e) \<and> s' = s)
    \<and> (r = Inr () \<longrightarrow> (\<exists>c' e. ProcessCommit E (groupID s) commit c = (Inr (), c') \<and> mlsClient s' = Some c'
        \<and> pendingEpoch s' = Some e \<and> es_groupID e = groupID s \<and> pendingGroupID s' = groupID s \<and> activeEpoch s' = activeEpoch s))"
proof (cases "groupID s = [] \<or> \<not> commit_by_reference E commit")
  case True
  have "(\<exists>e. r = Inl e) \<and> s' = s"
  proof (cases "validateCommitProposalRefs E commit")
    case (Inl a)
    have "processCommitLocked kdf E commit s = (Inl (if groupID s = [] then ErrNoActiveGroup else a), s)"
      by (simp add: processCommitLocked_def Inl)
    then show ?thesis using assms(2) by (metis Pair_inject)
  next
    case (Inr u)
    then show ?thesis using True assms validate_commit_iff [of E commit] by (auto simp: processCommitLocked_def)
  qed
  then show ?thesis using True by auto
next
  case False
  then have v: "validateCommitProposalRefs E commit = Inr ()" by (simp add: validate_commit_iff)
  obtain a c' where p: "ProcessCommit E (groupID s) commit c = (a, c')" by fastforce
  obtain b s2 where b: "rebuildEpochStateLocked kdf E (groupID s) (s\<lparr>mlsClient := Some c'\<rparr>) = (b, s2)" by fastforce
  have "\<exists>c' e. ProcessCommit E (groupID s) commit c = (Inr (), c') \<and> mlsClient s' = Some c'
      \<and> pendingEpoch s' = Some e \<and> es_groupID e = groupID s \<and> pendingGroupID s' = groupID s \<and> activeEpoch s' = activeEpoch s" if r: "r = Inr ()"
  proof -
    have a: "a = Inr ()" using r False assms v p by (cases a) (simp_all add: processCommitLocked_def client_call_def)
    obtain e where e: "b = Inr e" "s' = s2\<lparr>pendingEpoch := Some e, pendingGroupID := groupID s2\<rparr>"
      using r False assms v p a b by (cases b) (auto simp: processCommitLocked_def client_call_def)
    then show ?thesis using rebuilt_shape [of kdf E "groupID s" "s\<lparr>mlsClient := Some c'\<rparr>" e s2] b p a by auto
  qed
  then show ?thesis using False by blast
qed

theorem commit_by_reference_only_witness:
  "fst (processCommitLocked pad_kdf log_env [2] log_session) = Inr ()
    \<and> mlsClient (snd (processCommitLocked pad_kdf log_env [2] log_session)) = Some [[5], [2]]"
proof -
  obtain r s' where j: "processCommitLocked pad_kdf log_env [2] log_session = (r, s')" by fastforce
  obtain b s2 where b: "rebuildEpochStateLocked pad_kdf log_env [9] (log_session\<lparr>mlsClient := Some [[5], [2]]\<rparr>) = (b, s2)" by fastforce
  then obtain e where e: "b = Inr e" using rebuild_iff [OF _ b] log_available by auto
  have p: "ProcessCommit log_env [9] [2] [[5]] = (Inr (), [[5], [2]])" by (simp add: log_env_def)
  have "commit_by_reference log_env [2]" by (simp add: commit_by_reference_def log_env_def)
  then have "r = Inr ()" using j b e p by (auto simp: processCommitLocked_def client_call_def log_fields validate_commit_iff [THEN iffD2])
  then show ?thesis using commit_by_reference_only [OF log_fields(1) j] j p by (simp add: log_fields)
qed

section \<open>Rolling a commit back\<close>

text \<open>What the store of mls-go promises: a group state that was saved is the one that is loaded.\<close>

definition store_law :: "'c Env \<Rightarrow> bool" where
  "store_law E \<longleftrightarrow> (\<forall>gid st c c'. SaveGroupState E gid st c = (Inr (), c') \<longrightarrow> LoadGroupState E c' gid = Inr st)"

text \<open>A session after its own commit: the snapshot is kept and the epoch pending, or the commit was rolled
  back at once because it could not be sent.\<close>

definition rolled_back :: "'c Env \<Rightarrow> bytes \<Rightarrow> bytes \<Rightarrow> 'c Session \<Rightarrow> bool" where
  "rolled_back E gid st s \<longleftrightarrow> group_state E gid s = Some (Inr st) \<and> pendingEpoch s = None \<and> pendingGroupID s = []
     \<and> pendingCommitBytes s = [] \<and> preCommitGroupState s = []"

definition committed :: "'c Env \<Rightarrow> bytes \<Rightarrow> bytes \<Rightarrow> 'c Session \<Rightarrow> bool" where
  "committed E gid st s \<longleftrightarrow> groupID s = gid \<and> mlsClient s \<noteq> None
     \<and> (preCommitGroupState s = st \<and> pendingEpoch s \<noteq> None \<or> rolled_back E gid st s)"

lemma free_same: "same_keys s (free_step kdf op s)"
proof (cases op)
  case (FreeMedia m)
  then show ?thesis using media_same [of s kdf m] by simp
qed (simp_all add: same_keys_def AddUser_def RemoveUser_def AssignSsrcToCodec_def Close_def)

lemma send_same: "same_keys s (snd (sendLocked kdf E msg s))"
proof -
  have "same_keys s (fold (free_step kdf) ops s)" for ops and s :: "'a Session"
  proof (induction ops arbitrary: s)
    case (Cons op ops)
    then show ?case using same_keys_trans [OF free_same Cons.IH] by simp
  qed (simp add: same_keys_def)
  from same_keys_trans [OF _ this, of s "s\<lparr>sent := sent s @ [msg]\<rparr>"] show ?thesis
    by (simp add: sendLocked_def Let_def same_keys_def)
qed

lemma restore_rolls_back:
  assumes "store_law E" "groupID s = gid" "preCommitGroupState s = st" "mlsClient s = Some c" "restorePreCommitStateLocked E s = (r, s')"
  shows "groupID s' = gid \<and> mlsClient s' \<noteq> None \<and> (r = Inr () \<longrightarrow> rolled_back E gid st s')
    \<and> (r \<noteq> Inr () \<longrightarrow> preCommitGroupState s' = st \<and> pendingEpoch s' = pendingEpoch s)"
proof -
  obtain a c' where a: "SaveGroupState E gid st c = (a, c')" by fastforce
  show ?thesis using assms a
    by (cases a) (auto simp: restorePreCommitStateLocked_def client_call_def rolled_back_def group_state_def store_law_def split: if_splits)
qed

lemmas committed_defs = committed_def rolled_back_def group_state_def

lemma committed_helpers [simp]:
  "committed E gid st (resetEpochReadyLocked s) = committed E gid st s" "committed E gid st (goWatchdog w s) = committed E gid st s"
  "committed E gid st (watchDroppedSendLocked e s) = committed E gid st s"
proof -
  show r: "committed E gid st (resetEpochReadyLocked s) = committed E gid st s" for s :: "'a Session"
    by (simp add: committed_defs resetEpochReadyLocked_def)
  show g: "committed E gid st (goWatchdog w s) = committed E gid st s" for w and s :: "'a Session"
    by (simp add: committed_defs goWatchdog_def)
  have "committed E gid st (watchRecoveryLocked err s) = committed E gid st s" for err and s :: "'a Session"
    by (simp add: watchRecoveryLocked_def g Let_def) (simp add: committed_defs)
  then show "committed E gid st (watchDroppedSendLocked e s) = committed E gid st s" by (simp add: watchDroppedSendLocked_def r)
qed

lemma send_commit_committed:
  assumes "store_law E" "groupID s = gid" "preCommitGroupState s = st" "mlsClient s \<noteq> None" "pendingEpoch s \<noteq> None"
  shows "committed E gid st (send_commit kdf E payload s)"
proof -
  obtain a s1 where s: "sendLocked kdf E (SendMLSCommitWelcome payload) s = (a, s1)" by fastforce
  have s1: "groupID s1 = gid" "preCommitGroupState s1 = st" "mlsClient s1 \<noteq> None"
    using rest_send [of kdf E "SendMLSCommitWelcome payload" s] s assms by (simp_all add: rest_def)
  moreover have "pendingEpoch s1 \<noteq> None" using send_same [of s kdf E "SendMLSCommitWelcome payload"] s assms(5)
    by (auto simp: same_keys_def)
  ultimately have "committed E gid st s1" by (simp add: committed_def)
  moreover have "committed E gid st (snd (restorePreCommitStateLocked E s1))"
  proof -
    obtain r s2 where r: "restorePreCommitStateLocked E s1 = (r, s2)" by fastforce
    obtain c where "mlsClient s1 = Some c" using s1(3) by blast
    from restore_rolls_back [OF assms(1) s1(1,2) this r] show ?thesis
      using r \<open>pendingEpoch s1 \<noteq> None\<close> by (cases "r = Inr ()") (simp_all add: committed_def)
  qed
  moreover have "committed E gid st s" using assms by (simp add: committed_def)
  ultimately show ?thesis by (simp add: send_commit_def s Let_def split: sum.splits)
qed

text \<open>C17 commit_rollback. A commit of its own that a session loses can be taken back: whether the commit could not be
  sent, or was sent and another one won, after the rollback the group state in the client's store is
  the one from before the commit, no epoch is pending, and the session is ready to process the
  commit that won.\<close>

theorem commit_rollback:
  assumes "store_law E" "commitProposalsLocked kdf E s = (Inr (), s1)"
  shows "(pendingEpoch s1 = None \<longrightarrow> group_state E (groupID s) s1 = group_state E (groupID s) s \<and> groupID s1 = groupID s \<and> pendingCommitBytes s1 = [])
    \<and> (\<forall>s2. restorePreCommitStateLocked E s1 = (Inr (), s2) \<longrightarrow>
        group_state E (groupID s) s2 = group_state E (groupID s) s \<and> groupID s2 = groupID s \<and> pendingEpoch s2 = None
        \<and> pendingGroupID s2 = [] \<and> pendingCommitBytes s2 = [] \<and> preCommitGroupState s2 = [])"
proof -
  have n: "mlsClient s \<noteq> None" using assms(2) by (auto simp: commitProposalsLocked_def client_read_def go_panic_def split: option.splits)
  then obtain c where c: "mlsClient s = Some c" by blast
  obtain st where st: "LoadGroupState E c (groupID s) = Inr st"
    using assms(2) c by (cases "LoadGroupState E c (groupID s)") (simp_all add: commitProposalsLocked_def client_read_def)
  obtain a c' where a: "CommitPendingProposals E (groupID s) c = (a, c')" by fastforce
  obtain x where x: "a = Inr x"
    using assms(2) c st a by (cases a) (simp_all add: commitProposalsLocked_def client_read_def client_call_def)
  let ?s2 = "s\<lparr>mlsClient := Some c', pendingCommitBytes := fst x, preCommitGroupState := st\<rparr>"
  obtain b s3 where b: "rebuildEpochStateLocked kdf E (groupID s) ?s2 = (b, s3)" by fastforce
  obtain e where e: "b = Inr e"
    using assms(2) c st a x b by (cases b; cases x) (simp_all add: commitProposalsLocked_def client_read_def client_call_def)
  obtain rs m where s3: "s3 = ?s2\<lparr>ratchets := rs, nextRef := m\<rparr>" using rebuilt_shape [OF b [unfolded e]] by blast
  obtain payload where "s1 = send_commit kdf E payload (s3\<lparr>pendingEpoch := Some e, pendingGroupID := groupID s3\<rparr>)"
    using assms(2) c st a x b e by (cases x) (auto simp: commitProposalsLocked_def client_read_def client_call_def Let_def split: sum.splits)
  then have s1: "committed E (groupID s) st s1" using send_commit_committed [OF assms(1)] s3 by simp
  have g: "group_state E (groupID s) s = Some (Inr st)" using c st by (simp add: group_state_def)
  have "rolled_back E (groupID s) st s2 \<and> groupID s2 = groupID s" if "restorePreCommitStateLocked E s1 = (Inr (), s2)" for s2
  proof -
    have "preCommitGroupState s1 = st" using s1 that by (auto simp: committed_def rolled_back_def restorePreCommitStateLocked_def)
    moreover obtain c1 where "mlsClient s1 = Some c1" using s1 by (auto simp: committed_def)
    ultimately show ?thesis using restore_rolls_back [OF assms(1) _ _ _ that] s1 by (auto simp: committed_def)
  qed
  then show ?thesis using s1 g by (auto simp: committed_def rolled_back_def)
qed

theorem commit_rollback_witness:
  "\<exists>s1 s2. commitProposalsLocked pad_kdf log_env log_session = (Inr (), s1) \<and> group_state log_env [9] s1 = Some (Inr [5, 2])
     \<and> restorePreCommitStateLocked log_env s1 = (Inr (), s2) \<and> group_state log_env [9] s2 = Some (Inr [5])"
proof -
  have env: "LoadGroupState log_env c g = Inr (concat c)" "CommitPendingProposals log_env g c = (Inr ([2], []), c @ [[2]])"
    "SaveGroupState log_env g st c = (Inr (), [st])" for c g st by (simp_all add: log_env_def)
  let ?s2 = "log_session\<lparr>mlsClient := Some [[5], [2]], pendingCommitBytes := [2], preCommitGroupState := [5]\<rparr>"
  obtain b s3 where b: "rebuildEpochStateLocked pad_kdf log_env [9] ?s2 = (b, s3)" by fastforce
  then obtain e where e: "b = Inr e" using rebuild_iff [OF _ b] log_available by auto
  obtain rs m where s3: "s3 = ?s2\<lparr>ratchets := rs, nextRef := m\<rparr>" using rebuilt_shape [OF b [unfolded e]] by blast
  let ?s1 = "s3\<lparr>pendingEpoch := Some e, pendingGroupID := [9]\<rparr>"
  have cb: "hasCallbacks log_session = False" by (simp add: log_session_def New_def Let_def)
  have 1: "commitProposalsLocked pad_kdf log_env log_session = (Inr (), ?s1)"
    using b e s3 by (simp add: commitProposalsLocked_def client_read_def client_call_def log_fields env commit_payload_def send_commit_def cb Let_def)
  obtain s2 where 2: "restorePreCommitStateLocked log_env ?s1 = (Inr (), s2)"
    using s3 by (simp add: restorePreCommitStateLocked_def client_call_def env)
  have "store_law log_env" by (simp add: store_law_def env)
  from commit_rollback [OF this 1] 2 have "group_state log_env [9] s2 = Some (Inr [5])" by (simp add: log_fields group_state_def env)
  then show ?thesis using 1 2 s3 by (simp add: group_state_def env)
qed

section \<open>Executing a transition\<close>

text \<open>Draining the queue keeps who has which ratchet in the active epoch, and the send ratchet.\<close>

interpretation active: epoch_keeping kdf "\<lambda>s. map_option epoch_refs (activeEpoch s) = refs \<and> sendRatchet s = own" for kdf refs own
proof (unfold_locales, goal_cases)
  case (2 s op)
  then show ?case using media_same [of s kdf op] by (simp add: same_keys_def)
next
  case (4 s E gid e s')
  then show ?case using rebuilt_shape [OF 4(2)] by auto
qed (auto simp: core_def resetEpochReadyLocked_def)

lemma settings_drain: "settings (drain_loop kdf E n s) = settings s"
proof (induction n arbitrary: s)
  case (Suc n)
  have "settings (processAndCommitProposalBatchLocked kdf E b x) = settings x" for b and x :: "'a Session"
    using quiet_commit [of kdf E b x] by (simp add: quiet_def)
  then show ?case using Suc.IH by simp
qed simp

lemma own_ratchet: "map_of (epoch_refs e) u = map_option ss_ratchet (map_of (es_senders e) u)"
  by (simp add: epoch_refs_def map_of_map case_prod_beta' [symmetric])

lemma settings_activation:
  "settings (take_own_ratchet E e s) = settings s" "settings (switch_send_ratchet E old s) = settings s"
  "settings (pruneRetainedEpochsLocked now s) = settings s"
  by (simp_all add: take_own_ratchet_def switch_send_ratchet_def retain_send_ratchet_def pruneRetainedEpochsLocked_def
      signalEpochReadyLocked_def markRecoveredLocked_def markDegradedLocked_def endDegradedLocked_def split: option.splits)

lemma settings_activate:
  "settings (activate_epoch E e s) =
     (if protocolVersion s \<noteq> 0 \<and> plaintextRejectedFrom s = None then Some (time_now E 2 s + plaintextGrace s) else plaintextRejectedFrom s,
      transportOnly s, protocolVersion s, protocolVersion s, activeTransitionID s, pendingTransitionID s)"
  unfolding activate_epoch_def Let_def settings_activation by (auto simp: settings_def time_now_def split: option.splits)

text \<open>C12 execute_transition. Executing a transition: the id of another transition is ignored. Executing the pending one
  under a protocol version other than 0 makes the pending epoch active and sends with the session's
  own ratchet in it, under that version; with that ratchet the session is ready and holds no frames
  back, and plaintext is refused once the grace period is over. Under version 0 the session turns to
  transport-only: no send key is left, no epoch is pending, and frames pass through.\<close>

theorem execute_transition:
  "let s' = OnDaveExecuteTransition kdf E tid s in
     (if tid \<noteq> pendingTransitionID s then s' = s
      else if protocolVersion s = 0 then
        transportOnly s' \<and> Ready s' \<and> \<not> ShouldHoldFrames s' \<and> plaintextRejectedFrom s' = None \<and> sendRatchet s' = None \<and> retainedSendRatchet s' = None
        \<and> pendingEpoch s' = None \<and> groupID s' = [] \<and> sendProtocolVersion s' = 0 \<and> activeEpoch s' = activeEpoch s
      else case pendingEpoch s of
        None \<Rightarrow> activeEpoch s' = activeEpoch s \<and> sendRatchet s' = sendRatchet s \<and> pendingTransitionID s' = 0
      | Some e \<Rightarrow>
          map_option epoch_refs (activeEpoch s') = Some (epoch_refs e) \<and> sendRatchet s' = map_of (epoch_refs e) (userID s)
          \<and> sendProtocolVersion s' = protocolVersion s \<and> plaintextRejectedFrom s' \<noteq> None \<and> \<not> transportOnly s'
          \<and> activeTransitionID s' = tid \<and> pendingTransitionID s' = 0
          \<and> (if userID s \<in> fst ` set (es_senders e) then Ready s' \<and> \<not> ShouldHoldFrames s' else \<not> Ready s' \<and> ShouldHoldFrames s'))"
proof (cases "tid = pendingTransitionID s \<and> protocolVersion s \<noteq> 0 \<and> pendingEpoch s \<noteq> None")
  case False
  then show ?thesis
    by (auto simp: OnDaveExecuteTransition_def Let_def setTransportOnlyLocked_def activatePendingEpochLocked_def resetEpochReadyLocked_def
        dropSendKeysLocked_def Ready_def ShouldHoldFrames_def)
next
  case True
  then obtain e where e: "pendingEpoch s = Some e" by blast
  let ?s1 = "setTransportOnlyLocked False (s\<lparr>activeTransitionID := tid, sendProtocolVersion := protocolVersion s\<rparr>)"
  let ?s2 = "activate_epoch E e ?s1"
  define s3 where "s3 = drainProposalQueueLocked kdf E ?s2"
  have s': "OnDaveExecuteTransition kdf E tid s = s3\<lparr>pendingTransitionID := 0\<rparr>"
    using True e by (simp add: OnDaveExecuteTransition_def activatePendingEpochLocked_def s3_def setTransportOnlyLocked_def Let_def)
  have "map_option epoch_refs (activeEpoch ?s2) = Some (epoch_refs e) \<and> sendRatchet ?s2 = map_of (epoch_refs e) (userID s)"
    using activate_epoch_core [of E e ?s1] by (simp add: core_def own_ratchet setTransportOnlyLocked_def)
  then have a: "map_option epoch_refs (activeEpoch s3) = Some (epoch_refs e) \<and> sendRatchet s3 = map_of (epoch_refs e) (userID s)"
    unfolding s3_def drainProposalQueueLocked_def by (rule active.drain)
  have "settings s3 = settings ?s2" by (simp add: s3_def drainProposalQueueLocked_def settings_drain)
  then have b: "plaintextRejectedFrom s3 \<noteq> None \<and> \<not> transportOnly s3 \<and> sendProtocolVersion s3 = protocolVersion s
      \<and> protocolVersion s3 \<noteq> 0 \<and> activeTransitionID s3 = tid"
    using True unfolding settings_activate by (auto simp: settings_def setTransportOnlyLocked_def split: if_splits)
  have "map_of (epoch_refs e) (userID s) \<noteq> None \<longleftrightarrow> userID s \<in> fst ` set (es_senders e)"
    by (simp add: own_ratchet map_of_eq_None_iff)
  then show ?thesis using True e a b unfolding s' by (auto simp: Let_def Ready_def ShouldHoldFrames_def)
qed

section \<open>Plaintext stays refused\<close>

definition held :: "int \<Rightarrow> 'c Session \<Rightarrow> bool" where
  "held t s \<longleftrightarrow> plaintextRejectedFrom s = Some t \<or> transportOnly s"

lemma held_settings: "settings x = settings y \<Longrightarrow> held t x = held t y"
  by (simp add: settings_def held_def)

lemma held_quiet: "quiet x = quiet y \<Longrightarrow> held t x = held t y"
  by (rule held_settings) (simp add: quiet_def)

lemma heldI: "plaintextRejectedFrom s = Some t \<Longrightarrow> held t s"
  by (simp add: held_def)

lemma held_upd [simp]:
  "held t (s\<lparr>protocolVersion := a1\<rparr>) = held t s" "held t (s\<lparr>sendProtocolVersion := a2\<rparr>) = held t s" "held t (s\<lparr>activeTransitionID := a3\<rparr>) = held t s"
  "held t (s\<lparr>pendingTransitionID := a4\<rparr>) = held t s" "held t (s\<lparr>stats := a5\<rparr>) = held t s" "held t (s\<lparr>proposalQueue := a6\<rparr>) = held t s"
  "held t (s\<lparr>recoveryAttempts := a7\<rparr>) = held t s" "held t (s\<lparr>pendingKeyPackage := a8\<rparr>) = held t s" "held t (s\<lparr>mlsClient := a9\<rparr>) = held t s"
  "held t (s\<lparr>degradedSince := b1\<rparr>) = held t s" "held t (s\<lparr>lastProposalBatch := b2\<rparr>) = held t s" "held t (s\<lparr>channelID := b3\<rparr>) = held t s"
  "held t (s\<lparr>externalSenderPackage := b4\<rparr>) = held t s" "held t (s\<lparr>pendingEpoch := b5\<rparr>) = held t s" "held t (s\<lparr>pendingGroupID := b6\<rparr>) = held t s"
  "held t (s\<lparr>pendingCommitBytes := b7\<rparr>) = held t s" "held t (s\<lparr>preCommitGroupState := b8\<rparr>) = held t s" "held t (s\<lparr>groupID := b9\<rparr>) = held t s"
  "held t (s\<lparr>watchdogs := c1\<rparr>) = held t s"
  by (simp_all add: held_def)

lemma held_ops [simp]:
  "held t (resetEpochReadyLocked s) = held t s" "held t (watchRecoveryLocked err s) = held t s" "held t (watchDroppedSendLocked x s) = held t s"
  "held t (snd (sendLocked kdf E msg s)) = held t s" "held t (sendInvalidCommitWelcomeLocked kdf E tid s) = held t s"
  "held t (snd (createGroupWithExternalSenderLocked kdf E s)) = held t s"
  "held t (processAndCommitProposalBatchLocked kdf E batch s) = held t s" "held t (free_step kdf op s) = held t s"
  "held t (snd (freshKeyPackageLocked E s)) = held t s" "held t (snd (ensurePendingKeyPackageLocked kdf E s)) = held t s"
  "held t (snd (sendKeyPackageLocked kdf E kp s)) = held t s" "held t (snd (ensureMLSClientLocked E s)) = held t s"
  "held t (snd (joinPendingWelcomeLocked kdf E w s)) = held t s" "held t (snd (processCommitLocked kdf E c s)) = held t s"
  "held t (snd (restorePreCommitStateLocked E s)) = held t s" "held t (snd (rebuildEpochStateLocked kdf E gid s)) = held t s"
  by (rule held_quiet, simp add: quiet_commit)+

lemma held_small [simp]:
  "held t (clear_group_state s) = held t s" "held t (endDegradedLocked now s) = held t s" "held t (markDegradedLocked now s) = held t s"
  "held t (dropSendKeysLocked s) = held t s" "held t (park_send_ratchet E s) = held t s" "held t (invalidateMLSStateLocked E s) = held t s"
  "held t (retry_leave E st s) = held t s" "held t (swap_watchdog w w' s) = held t s"
proof -
  show "held t (clear_group_state s) = held t s" "held t (dropSendKeysLocked s) = held t s" "held t (swap_watchdog w w' s) = held t s"
    by (simp_all add: held_def clear_group_state_def dropSendKeysLocked_def swap_watchdog_def)
  show "held t (endDegradedLocked now s) = held t s" "held t (retry_leave E st s) = held t s"
    by (simp_all add: held_def endDegradedLocked_def retry_leave_def split: option.splits)
  show m: "held t (markDegradedLocked now s) = held t s" for now and s :: "'a Session" by (simp add: markDegradedLocked_def held_def)
  show "held t (park_send_ratchet E s) = held t s" by (simp add: park_send_ratchet_def retain_send_ratchet_def held_def)
  show "held t (invalidateMLSStateLocked E s) = held t s" by (simp add: invalidateMLSStateLocked_def Let_def m)
qed

lemma held_setTransportOnly: "plaintextRejectedFrom s = Some t \<Longrightarrow> held t (setTransportOnlyLocked b s)"
  by (simp add: setTransportOnlyLocked_def held_def Let_def)

lemma held_compound:
  "held t s \<Longrightarrow> held t (prepare_key_package kdf E s)" "held t s \<Longrightarrow> held t (invalidateAndResendKeyPackageLocked kdf E s)"
  "held t s \<Longrightarrow> held t (sendReadyForTransitionLocked kdf E tid s)"
proof -
  have k: "held t s' = held t s" if "ensurePendingKeyPackageLocked kdf E s = (r, s')" for r and s s' :: "'a Session"
    using held_ops(10) [of t kdf E s] that by simp
  have m: "held t s' = held t s" if "sendLocked kdf E msg s = (r, s')" for msg r s'
    using held_ops(4) [of t kdf E msg s] that by simp
  show "held t s \<Longrightarrow> held t (prepare_key_package kdf E s)"
    by (auto simp: prepare_key_package_def split: prod.splits sum.splits dest: k)
  show "held t s \<Longrightarrow> held t (invalidateAndResendKeyPackageLocked kdf E s)"
    by (auto simp: invalidateAndResendKeyPackageLocked_def split: prod.splits dest: k)
  show "held t s \<Longrightarrow> held t (sendReadyForTransitionLocked kdf E tid s)"
    by (auto simp: sendReadyForTransitionLocked_def split: prod.splits sum.splits dest: m)
qed

lemma held_activate: "held t s \<Longrightarrow> held t (activatePendingEpochLocked kdf E s)"
proof (cases "pendingEpoch s")
  case (Some e)
  assume h: "held t s"
  have "held t (activate_epoch E e s)" using h settings_activate [of E e s] by (auto simp: held_def settings_def)
  moreover have "held t (drain_loop kdf E n x) = held t x" for n and x :: "'a Session" by (rule held_settings) (rule settings_drain)
  ultimately show ?thesis using Some by (simp add: activatePendingEpochLocked_def drainProposalQueueLocked_def)
qed (simp add: activatePendingEpochLocked_def)

lemma held_finish: "held t s \<Longrightarrow> held t (finish_transition kdf E tid s)"
  by (simp add: finish_transition_def held_compound held_activate)

text \<open>The same facts for the results of the operations.\<close>

lemma held_results:
  "createGroupWithExternalSenderLocked kdf E s = (r, s') \<Longrightarrow> held t s' = held t s"
  "restorePreCommitStateLocked E s = (r, s') \<Longrightarrow> held t s' = held t s"
  "processCommitLocked kdf E c s = (r2, s') \<Longrightarrow> held t s' = held t s"
  "ensureMLSClientLocked E s = (r, s') \<Longrightarrow> held t s' = held t s"
  "joinPendingWelcomeLocked kdf E w s = (r, s') \<Longrightarrow> held t s' = held t s"
  "sendKeyPackageLocked kdf E kp s = (r, s') \<Longrightarrow> held t s' = held t s"
  by (metis held_ops snd_conv)+

lemma held_sole_member: "held t s \<Longrightarrow> held t (activateSoleMemberEpochLocked kdf E s)"
proof -
  assume h: "held t s"
  let ?f = "\<lambda>epoch s2. (Inr () :: session_error + unit, s2\<lparr>pendingEpoch := Some epoch, pendingGroupID := groupID s2\<rparr>)"
  obtain r1 s1 where 1: "(if length (groupID s) = 0 then createGroupWithExternalSenderLocked kdf E s else (Inr (), s)) = (r1, s1)" by fastforce
  have h1: "held t s1" using 1 h by (auto split: if_splits dest: held_results(1))
  obtain r2 s2 where 2: "(if pendingEpoch s1 = None then sbind (rebuildEpochStateLocked kdf E (groupID s1) s1) ?f else (Inr (), s1)) = (r2, s2)"
    by fastforce
  have "held t (snd (sbind (rebuildEpochStateLocked kdf E (groupID s1) s1) ?f))" using h1 by (simp add: snd_sbind split: sum.splits)
  then have "held t s2" using 2 h1 by (auto split: if_splits)
  then show ?thesis unfolding activateSoleMemberEpochLocked_def 1
    using h h1 2 by (cases r1; cases r2) (simp_all add: held_activate)
qed

lemma held_reconcile: "held t s \<Longrightarrow> held t (snd (reconcileCompetingCommitLocked kdf E tid c s))"
proof -
  assume h: "held t s"
  obtain r1 s1 where 1: "(if 0 < length (pendingCommitBytes s) then restorePreCommitStateLocked E s else (Inr (), s)) = (r1, s1)" by fastforce
  have h1: "held t s1" using 1 h by (auto split: if_splits dest: held_results(2))
  obtain r2 s2 where 2: "processCommitLocked kdf E c s1 = (r2, s2)" by fastforce
  have "held t s2" using held_results(3) [OF 2] h1 by simp
  then show ?thesis unfolding reconcileCompetingCommitLocked_def 1 using h1 2 by (cases r1; cases r2) (simp_all add: held_compound)
qed

lemma held_on_commit: "held t s \<Longrightarrow> held t (OnDaveMLSPrepareCommitTransition kdf E tid c s)"
proof -
  assume h: "held t s"
  obtain r1 s1 where 1: "ensureMLSClientLocked E (s\<lparr>pendingTransitionID := tid\<rparr>) = (r1, s1)" by fastforce
  have h1: "held t s1" using held_results(4) [OF 1] h by simp
  obtain b s2 where 2: "(if pendingEpoch s1 \<noteq> None \<and> pendingCommitBytes s1 = c then (True, s1\<lparr>pendingCommitBytes := [], preCommitGroupState := []\<rparr>)
    else reconcileCompetingCommitLocked kdf E tid c s1) = (b, s2)" by fastforce
  have "held t s2" using 2 held_reconcile [OF h1, of kdf E tid c] h1 by (auto split: if_splits)
  then show ?thesis unfolding OnDaveMLSPrepareCommitTransition_def 1 using h1 2 by (cases r1; cases b) (simp_all add: held_finish)
qed

lemma held_on_welcome: "held t s \<Longrightarrow> held t (OnDaveMLSWelcome kdf E tid w s)"
proof -
  assume h: "held t s"
  let ?s1 = "s\<lparr>pendingTransitionID := tid\<rparr>"
  let ?r = "sbind (restorePreCommitStateLocked E ?s1) (\<lambda>_ s2. (Inr (), s2\<lparr>proposalQueue := []\<rparr>))"
  obtain r2 s2 where 2: "(if 0 < length (pendingCommitBytes ?s1) then ?r else (Inr (), ?s1)) = (r2, s2)" by fastforce
  have "held t (snd ?r)" using h by (simp add: snd_sbind split: sum.splits)
  then have h2: "held t s2" using 2 h by (auto split: if_splits)
  obtain r3 s3 where 3: "ensureMLSClientLocked E s2 = (r3, s3)" by fastforce
  have h3: "held t s3" using held_results(4) [OF 3] h2 by simp
  obtain r4 s4 where 4: "joinPendingWelcomeLocked kdf E w s3 = (r4, s4)" by fastforce
  have "held t s4" using held_results(5) [OF 4] h3 by simp
  then show ?thesis unfolding OnDaveMLSWelcome_def Let_def 2 using h2 h3 3 4
    by (cases r2; cases r3; cases r4) (simp_all add: held_compound held_finish)
qed

lemma held_on_external_sender: "held t s \<Longrightarrow> held t (OnDaveMLSExternalSenderPackage kdf E package s)"
proof -
  show "held t s \<Longrightarrow> ?thesis" by (auto simp: OnDaveMLSExternalSenderPackage_def split: prod.splits sum.splits dest: held_results(1) [where t = t])
qed

lemma held_handle: "plaintextRejectedFrom s = Some t \<Longrightarrow> held t (handle kdf E h s)"
proof (cases h)
  case (SelectProtocolAck v)
  assume p: "plaintextRejectedFrom s = Some t"
  have "held t (setTransportOnlyLocked b (s\<lparr>protocolVersion := x, sendProtocolVersion := y\<rparr>))" for b x y by (rule held_setTransportOnly) (simp add: p)
  then show ?thesis unfolding SelectProtocolAck handle.simps OnSelectProtocolAck_def Let_def by (simp add: held_compound)
next
  case (PrepareEpoch epoch v)
  assume p: "plaintextRejectedFrom s = Some t"
  have "held t (setTransportOnlyLocked b (s\<lparr>protocolVersion := x\<rparr>))" "held t s" for b x by (rule held_setTransportOnly, simp add: p) (simp add: held_def p)
  then show ?thesis unfolding PrepareEpoch handle.simps OnDavePrepareEpoch_def Let_def by (simp add: held_compound)
next
  case (ExecuteTransition tid)
  assume p: "plaintextRejectedFrom s = Some t"
  have "held t (setTransportOnlyLocked b (s\<lparr>activeTransitionID := x, sendProtocolVersion := y\<rparr>))" "held t s" for b x y
    by (rule held_setTransportOnly, simp add: p) (simp add: held_def p)
  then show ?thesis unfolding ExecuteTransition handle.simps OnDaveExecuteTransition_def Let_def by (simp add: held_activate)
qed (simp_all add: held_def [THEN iffD2] held_on_commit held_on_welcome held_on_external_sender held_sole_member OnDavePrepareTransition_def
    OnDaveMLSProposals_def SetChannelID_def Let_def)

lemma held_move: "watchdog_move kdf Ok w s w' s' \<Longrightarrow> held t s \<Longrightarrow> held t s'"
proof (induction rule: watchdog_move.induct)
  case (wait_timeout E ready tid np s w s')
  let ?s2 = "invalidateMLSStateLocked E (sendInvalidCommitWelcomeLocked kdf E tid (s\<lparr>recoveryAttempts := Suc (recoveryAttempts s)\<rparr>))"
  have "s' \<in> {s, snd (freshKeyPackageLocked E ?s2)}"
    using wait_timeout(2) by (auto simp: recover_begin_def Let_def split: prod.splits sum.splits if_splits)
  then show ?case using wait_timeout(3) by auto
next
  case (attempt E ready kp i delay start s w s')
  have "held t s1" if "sendAttempt kdf E ready kp s = (r, s1)" for r s1
    using that attempt(3) by (auto simp: sendAttempt_def split: if_splits dest: held_results(6) [where t = t])
  then show ?case using attempt(2) by (auto simp: retry_attempt_def split: prod.splits sum.splits if_splits)
qed (simp_all add: recover_finish_def)

lemma held_step: "session_step kdf Ok s s' \<Longrightarrow> plaintextRejectedFrom s = Some t \<Longrightarrow> held t s'"
proof (induction rule: session_step.induct)
  case (watchdog s s')
  then show ?case by (auto elim!: watchdog_stepE dest!: held_move simp: held_def [of t s])
qed (simp_all add: held_handle heldI)

text \<open>C11 plaintext_stays_refused. Once the activation of an epoch has set the time from which plaintext is refused, no call and
  no watchdog moves that time or takes it away, except one that puts the session into transport-only
  mode. Until then, from that time on, what becomes of a frame that is no DAVE frame depends on the
  frame and the announced version alone: under a version other than 0 it is rejected unless it is the
  silence packet, so that a new Welcome, a lost commit, a recovery or a renegotiation opens no gap for
  plaintext; under version 0 it is passed through, also when the voice layer has only prepared the
  downgrade (\<open>OnDavePrepareTransition\<close> with version 0) and the session is not transport-only yet.\<close>

theorem plaintext_stays_refused:
  assumes "plaintextRejectedFrom s = Some t" "(\<lambda>x y. session_step kdf Ok x y \<and> \<not> transportOnly y)\<^sup>*\<^sup>* s s'"
    "t \<le> clk 0 0" "\<not> LooksLikeDAVEFrame f"
  shows "plaintextRejectedFrom s' = Some t \<and>
    fst (session_Decrypt kdf clk s' uid f dst) =
      (if protocolVersion s' = 0 \<or> isSilencePacket f then copyPassthrough dst f else Inl ErrDecryptionFailed)"
proof -
  have "plaintextRejectedFrom s' = Some t" using assms(2)
  proof (induction rule: rtranclp_induct)
    case (step y z)
    then show ?case using held_step [of kdf Ok y z t] by (simp add: held_def)
  qed (rule assms(1))
  then show ?thesis using assms(3,4) by (auto simp: session_Decrypt_def rejectsPlaintextLocked_def)
qed

lemma demo_joined_refuses: "plaintextRejectedFrom demo_joined = Some epochRetention" "protocolVersion demo_joined = 1" "\<not> transportOnly demo_joined"
proof -
  obtain r where j: "demo_joined = (activate_epoch demo_env demo_own (demo_pending r))\<lparr>pendingTransitionID := 0\<rparr>" using demo_joined_active by blast
  have "settings (activate_epoch demo_env demo_own (demo_pending r)) = (Some epochRetention, False, 1, 1, 0, 0)"
    unfolding settings_activate by (simp add: demo_pending_def demo_ready_def New_def Let_def time_now_def)
  then show "plaintextRejectedFrom demo_joined = Some epochRetention" "protocolVersion demo_joined = 1" "\<not> transportOnly demo_joined"
    by (simp_all add: settings_def j)
qed

text \<open>Witness of \<open>plaintext_stays_refused\<close>: the session of the example refuses plaintext after a user is
  added, and lets it through once a transition to version 0 is prepared, before it is executed.\<close>

theorem plaintext_stays_refused_witness:
  "fst (session_Decrypt pad_kdf (\<lambda>_ _. epochRetention) (AddUser demo_joined ''8'') ''8'' [1, 2, 3, 4] []) = Inl ErrDecryptionFailed \<and>
   fst (session_Decrypt pad_kdf (\<lambda>_ _. epochRetention) (OnDavePrepareTransition pad_kdf demo_env 5 0 demo_joined) ''8'' [1, 2, 3, 4] [0, 0, 0, 0])
     = Inr [1, 2, 3, 4]"
proof -
  let ?step = "\<lambda>x y :: unit Session. session_step pad_kdf (\<lambda>_. True) x y \<and> \<not> transportOnly y"
  let ?s0 = "OnDavePrepareTransition pad_kdf demo_env 5 0 demo_joined"
  have "session_step pad_kdf (\<lambda>_. True) demo_joined (free_step pad_kdf (FreeAddUser ''8'') demo_joined)" by (rule session_step.free)
  then have a: "?step\<^sup>*\<^sup>* demo_joined (AddUser demo_joined ''8'')" by (intro r_into_rtranclp) (simp add: AddUser_def demo_joined_refuses)
  have v: "protocolVersion ?s0 = 0" "\<not> transportOnly ?s0"
    by (simp_all add: OnDavePrepareTransition_def sendLocked_def demo_joined_refuses Let_def)
  have "session_step pad_kdf (\<lambda>_. True) demo_joined (handle pad_kdf demo_env (PrepareTransition 5 0) demo_joined)"
    by (rule session_step.handler) simp
  then have b: "?step\<^sup>*\<^sup>* demo_joined ?s0" using v(2) by (intro r_into_rtranclp) simp
  have f: "\<not> LooksLikeDAVEFrame [1, 2, 3, 4]" "\<not> isSilencePacket [1, 2, 3, 4]"
    by (simp_all add: LooksLikeDAVEFrame_def isSilencePacket_def)
  from plaintext_stays_refused [OF demo_joined_refuses(1) a _ f(1), of "\<lambda>_ _. epochRetention"]
    plaintext_stays_refused [OF demo_joined_refuses(1) b _ f(1), of "\<lambda>_ _. epochRetention" _ "[0, 0, 0, 0]"]
  show ?thesis
    using f v by (simp add: AddUser_def demo_joined_refuses copyPassthrough_def)
qed

end
