(* ===== verification/Session_Client.thy ===== *)
theory Session_Client
  imports Session_Protocol
begin

text \<open>
  The handlers reach the MLS client through a pointer that is nil before the first key package and after
  every reset. This theory shows that no call of theirs meets the nil pointer, and that the loop over
  a proposal batch never slices past the end of the batch.
\<close>

section \<open>The MLS client is there when it is used\<close>

definition cview :: "'c Session \<Rightarrow> bool \<times> 'c option \<times> bytes \<times> bytes \<times> bytes" where
  "cview s = (panicked s, mlsClient s, groupID s, pendingGroupID s, preCommitGroupState s)"

definition client_ok :: "'c Session \<Rightarrow> bool" where
  "client_ok s \<longleftrightarrow> \<not> panicked s \<and> (groupID s \<noteq> [] \<or> pendingGroupID s \<noteq> [] \<or> preCommitGroupState s \<noteq> [] \<longrightarrow> mlsClient s \<noteq> None)"

definition client_there :: "'c Session \<Rightarrow> bool" where
  "client_there s \<longleftrightarrow> \<not> panicked s \<and> mlsClient s \<noteq> None"

text \<open>What the loop over a proposal batch relies on: a message that was read from bytes is not longer, when it
  is marshaled again, than those bytes.\<close>

definition marshal_ok :: "'c Env \<Rightarrow> bool" where
  "marshal_ok E \<longleftrightarrow> (\<forall>b msg. UnmarshalMLSMessage E b = Inr msg \<longrightarrow> length (mm_Marshal msg) \<le> length b)"

lemma there_ok: "client_there s \<Longrightarrow> client_ok s"
  by (simp add: client_there_def client_ok_def)

lemma cview_cong: "cview s' = cview s \<Longrightarrow> client_ok s' = client_ok s \<and> client_there s' = client_there s"
  by (simp add: cview_def client_ok_def client_there_def)

lemma cview_helpers [simp]:
  "cview (resetEpochReadyLocked s) = cview s" "cview (goWatchdog w s) = cview s" "cview (watchRecoveryLocked err s) = cview s"
  "cview (watchDroppedSendLocked e s) = cview s" "cview (markDegradedLocked now s) = cview s" "cview (endDegradedLocked now s) = cview s"
  "cview (setTransportOnlyLocked b s) = cview s" "cview (dropSendKeysLocked s) = cview s" "cview (retry_leave E st s) = cview s"
  "cview (snd (sendLocked kdf E msg s)) = cview s" "cview (free_step kdf op s) = cview s" "cview (park_send_ratchet E s) = cview s"
proof -
  show r: "cview (resetEpochReadyLocked s) = cview s" for s :: "'a Session" by (simp add: cview_def resetEpochReadyLocked_def)
  show g: "cview (goWatchdog w s) = cview s" for w and s :: "'a Session" by (simp add: cview_def goWatchdog_def)
  show w: "cview (watchRecoveryLocked err s) = cview s" for err and s :: "'a Session"
    by (simp add: watchRecoveryLocked_def g Let_def) (simp add: cview_def)
  show "cview (watchDroppedSendLocked e s) = cview s" by (simp add: watchDroppedSendLocked_def w r)
  show "cview (markDegradedLocked now s) = cview s" "cview (endDegradedLocked now s) = cview s" "cview (setTransportOnlyLocked b s) = cview s"
    "cview (dropSendKeysLocked s) = cview s" "cview (retry_leave E st s) = cview s" "cview (park_send_ratchet E s) = cview s"
    by (simp_all add: cview_def markDegradedLocked_def endDegradedLocked_def setTransportOnlyLocked_def dropSendKeysLocked_def retry_leave_def
        park_send_ratchet_def retain_send_ratchet_def Let_def split: option.splits)
  show "cview (snd (sendLocked kdf E msg s)) = cview s" using rest_send [of kdf E msg s] by (simp add: rest_def cview_def)
  show "cview (free_step kdf op s) = cview s" using rest_free [of kdf op s] by (simp add: rest_def cview_def)
qed


lemma ok_cases:
  "client_ok s \<longleftrightarrow> client_there s \<or> \<not> panicked s \<and> mlsClient s = None \<and> groupID s = [] \<and> pendingGroupID s = [] \<and> preCommitGroupState s = []"
  by (auto simp: client_ok_def client_there_def)

lemma there_upd [simp]:
  "client_there (s\<lparr>groupID := a1\<rparr>) = client_there s" "client_there (s\<lparr>pendingGroupID := a2\<rparr>) = client_there s"
  "client_there (s\<lparr>preCommitGroupState := a3\<rparr>) = client_there s" "client_there (s\<lparr>pendingEpoch := a4\<rparr>) = client_there s"
  "client_there (s\<lparr>pendingCommitBytes := a5\<rparr>) = client_there s" "client_there (s\<lparr>proposalQueue := a6\<rparr>) = client_there s"
  "client_there (s\<lparr>stats := a7\<rparr>) = client_there s" "client_there (s\<lparr>pendingKeyPackage := a8\<rparr>) = client_there s"
  "client_there (s\<lparr>ratchets := a9, nextRef := b1\<rparr>) = client_there s" "client_there (s\<lparr>mlsClient := Some c\<rparr>) \<longleftrightarrow> \<not> panicked s"
  by (simp_all add: client_there_def)

lemma there_view [simp]:
  "client_there (resetEpochReadyLocked s) = client_there s" "client_there (goWatchdog w s) = client_there s"
  "client_there (watchRecoveryLocked err s) = client_there s" "client_there (watchDroppedSendLocked e s) = client_there s"
  "client_there (snd (sendLocked kdf E msg s)) = client_there s"
  by (rule cview_cong [THEN conjunct2], simp)+

lemma ok_view [simp]:
  "client_ok (resetEpochReadyLocked s) = client_ok s" "client_ok (goWatchdog w s) = client_ok s"
  "client_ok (watchRecoveryLocked err s) = client_ok s" "client_ok (watchDroppedSendLocked e s) = client_ok s"
  "client_ok (snd (sendLocked kdf E msg s)) = client_ok s" "client_ok (free_step kdf op s) = client_ok s"
  "client_ok (markDegradedLocked now s) = client_ok s" "client_ok (endDegradedLocked now s) = client_ok s"
  "client_ok (setTransportOnlyLocked b s) = client_ok s" "client_ok (dropSendKeysLocked s) = client_ok s"
  "client_ok (retry_leave E st s) = client_ok s" "client_ok (park_send_ratchet E s) = client_ok s"
  by (rule cview_cong [THEN conjunct1], simp)+

lemma ok_upd [simp]:
  "client_ok (s\<lparr>pendingEpoch := a4\<rparr>) = client_ok s" "client_ok (s\<lparr>pendingCommitBytes := a5\<rparr>) = client_ok s"
  "client_ok (s\<lparr>proposalQueue := a6\<rparr>) = client_ok s" "client_ok (s\<lparr>stats := a7\<rparr>) = client_ok s"
  "client_ok (s\<lparr>pendingKeyPackage := a8\<rparr>) = client_ok s" "client_ok (s\<lparr>pendingTransitionID := b1\<rparr>) = client_ok s"
  "client_ok (s\<lparr>activeTransitionID := b2\<rparr>) = client_ok s" "client_ok (s\<lparr>protocolVersion := b3\<rparr>) = client_ok s"
  "client_ok (s\<lparr>sendProtocolVersion := b4\<rparr>) = client_ok s" "client_ok (s\<lparr>externalSenderPackage := b5\<rparr>) = client_ok s"
  "client_ok (s\<lparr>lastProposalBatch := b6\<rparr>) = client_ok s" "client_ok (s\<lparr>channelID := b7\<rparr>) = client_ok s"
  "client_ok (s\<lparr>recoveryAttempts := b8\<rparr>) = client_ok s" "client_ok (s\<lparr>degradedSince := b9\<rparr>) = client_ok s"
  by (simp_all add: client_ok_def)

section \<open>Operations with a client\<close>

text \<open>An operation that finds the client leaves it there.\<close>

lemma there_call [simp]:
  "client_there s \<Longrightarrow> client_there (snd (client_call m f s))" "client_there s \<Longrightarrow> client_there (snd (client_read m g s))"
  by (auto simp: client_call_def client_read_def client_there_def split: prod.splits)

lemma there_bind: "client_there (snd m) \<Longrightarrow> (\<And>x s. client_there s \<Longrightarrow> client_there (snd (f x s))) \<Longrightarrow> client_there (snd (sbind m f))"
  by (simp add: snd_sbind split: sum.splits)

lemma there_ensure [simp]: "client_there s \<Longrightarrow> client_there (snd (ensureMLSClientLocked E s))"
  by (auto simp: ensureMLSClientLocked_def client_there_def)

lemma there_key_package [simp]: "client_there s \<Longrightarrow> client_there (snd (ensurePendingKeyPackageLocked kdf E s))"
  by (auto simp: ensurePendingKeyPackageLocked_def freshKeyPackageLocked_def sendKeyPackageLocked_def intro!: there_bind)

lemma there_rebuild [simp]: "client_there s \<Longrightarrow> client_there (snd (rebuildEpochStateLocked kdf E gid s))"
  unfolding rebuildEpochStateLocked_def by (intro there_bind) (auto split: sum.splits)

lemma there_join [simp]: "client_there s \<Longrightarrow> client_there (snd (joinPendingWelcomeLocked kdf E w s))"
proof -
  assume s: "client_there s"
  have j: "client_there (snd (joinGroupLocked E w s))"
    using s by (auto simp: joinGroupLocked_def client_there_def split: prod.splits outcome.splits)
  have v: "client_there (snd (validateJoinedWelcomeExternalSenderLocked E gid s))" if "client_there s" for gid and s :: "'a Session"
    using that by (auto simp: validateJoinedWelcomeExternalSenderLocked_def intro!: there_bind split: sum.splits)
  show ?thesis
    by (auto simp: joinPendingWelcomeLocked_def s intro!: there_bind [OF j] there_bind [OF v] there_bind [OF there_rebuild] split: sum.splits)
qed

lemma there_process_commit: "client_there s \<Longrightarrow> client_there (snd (processCommitLocked kdf E c s))"
  by (auto simp: processCommitLocked_def intro!: there_bind split: sum.splits)

lemma there_restore: "client_there s \<Longrightarrow> client_there (snd (restorePreCommitStateLocked E s))"
  by (auto simp: restorePreCommitStateLocked_def intro!: there_bind)

lemma there_commit_proposals: "client_there s \<Longrightarrow> client_there (snd (commitProposalsLocked kdf E s))"
proof -
  have sc: "client_there (send_commit kdf E payload s)" if "client_there s" for payload and s :: "'a Session"
  proof -
    have "client_there s1" if "sendLocked kdf E msg s = (a, s1)" for msg a s1
      using there_view(5) [of kdf E msg s] that \<open>client_there s\<close> by simp
    then show ?thesis using that by (auto simp: send_commit_def there_restore Let_def split: prod.splits sum.splits)
  qed
  assume "client_there s"
  then show ?thesis
    by (auto simp: commitProposalsLocked_def sc Let_def intro!: there_bind split: sum.splits prod.splits)
qed

lemma there_proposal_loop:
  "client_there s \<Longrightarrow> marshal_ok E \<Longrightarrow> client_there (snd (snd (proposal_loop E acc remaining s)))"
proof (induction E acc remaining s rule: proposal_loop.induct)
  case (1 E acc remaining s)
  have c: "client_there s1" if "client_call m f s = (a, s1)" for m f a s1
    using there_call(1) [OF 1(3), of m f] that by simp
  have n: "length (mm_Marshal msg) \<le> length remaining" if "UnmarshalMLSMessage E remaining = Inr msg" for msg
    using 1(4) that by (simp add: marshal_ok_def)
  show ?case
    by (subst proposal_loop.simps) (auto simp: Let_def 1(1,3,4) not_less split: sum.splits prod.splits dest: c n intro!: 1(2))
qed

lemma there_batch: "client_there s \<Longrightarrow> marshal_ok E \<Longrightarrow> client_there (snd (snd (processProposalBatchLocked E proposals s)))"
  by (simp add: processProposalBatchLocked_def processRevokeProposalsLocked_def there_proposal_loop Let_def split: sum.splits)

section \<open>Operations without a client\<close>

lemma ensure_there: "client_ok s \<Longrightarrow> ensureMLSClientLocked E s = (r, s') \<Longrightarrow> client_ok s' \<and> (r = Inr () \<longrightarrow> client_there s')"
  by (auto simp: ensureMLSClientLocked_def client_ok_def client_there_def split: option.splits sum.splits)

lemma key_package_there:
  "client_ok s \<Longrightarrow> ensurePendingKeyPackageLocked kdf E s = (r, s') \<Longrightarrow> client_ok s' \<and> (r = Inr () \<longrightarrow> client_there s')"
proof -
  assume a: "client_ok s" "ensurePendingKeyPackageLocked kdf E s = (r, s')"
  obtain r1 s1 where 1: "ensureMLSClientLocked E s = (r1, s1)" by fastforce
  show ?thesis
  proof (cases r1)
    case (Inl e)
    then show ?thesis using ensure_there [OF a(1) 1] a(2) 1 by (auto simp: ensurePendingKeyPackageLocked_def)
  next
    case (Inr u)
    then have t: "client_there s1" "mlsClient s1 \<noteq> None" using ensure_there [OF a(1) 1] by (simp_all add: client_there_def)
    then have "ensureMLSClientLocked E s1 = (Inr (), s1)" by (auto simp: ensureMLSClientLocked_def)
    then have "ensurePendingKeyPackageLocked kdf E s1 = (r, s')" using a(2) 1 Inr by (simp add: ensurePendingKeyPackageLocked_def)
    then have "client_there s'" using there_key_package [OF t(1), of kdf E] by simp
    then show ?thesis by (simp add: there_ok)
  qed
qed

lemma ok_invalidate: "\<not> panicked s \<Longrightarrow> client_ok (invalidateMLSStateLocked E s)"
  by (simp add: invalidateMLSStateLocked_def Let_def) (simp add: client_ok_def)

lemma ok_not_panicked: "client_ok s \<Longrightarrow> \<not> panicked s"
  by (simp add: client_ok_def)

lemma ok_resend: "client_ok s \<Longrightarrow> client_ok (invalidateAndResendKeyPackageLocked kdf E s)"
  using key_package_there [OF ok_invalidate [OF ok_not_panicked]]
  by (fastforce simp: invalidateAndResendKeyPackageLocked_def split: prod.splits)

lemma ok_send_invalid: "client_ok (sendInvalidCommitWelcomeLocked kdf E tid s) = client_ok s"
  by (simp add: sendInvalidCommitWelcomeLocked_def)

lemma ok_send_ready: "client_ok (sendReadyForTransitionLocked kdf E tid s) = client_ok s"
proof -
  have "client_ok s1 = client_ok s" if "sendLocked kdf E msg s = (a, s1)" for msg a s1
    using ok_view(5) [of kdf E msg s] that by simp
  then show ?thesis by (auto simp: sendReadyForTransitionLocked_def split: prod.splits sum.splits)
qed

lemma ok_prepare_key_package: "client_ok s \<Longrightarrow> client_ok (prepare_key_package kdf E s)"
  using key_package_there [of s kdf E] by (auto simp: prepare_key_package_def split: prod.splits sum.splits)

lemma ok_create_group:
  assumes "client_ok s" "createGroupWithExternalSenderLocked kdf E s = (r, s')"
  shows "client_ok s' \<and> (r = Inr () \<longrightarrow> client_there s')"
proof (cases "0 < length (groupID s) \<or> length (externalSenderPackage s) = 0 \<or> channelID s = 0")
  case True
  then show ?thesis using assms by (auto simp: createGroupWithExternalSenderLocked_def client_ok_def client_there_def split: if_splits)
next
  case False
  obtain r1 s1 where 1: "ensurePendingKeyPackageLocked kdf E s = (r1, s1)" by fastforce
  show ?thesis
  proof (cases r1)
    case (Inl e)
    then show ?thesis using False 1 assms key_package_there [OF assms(1) 1] by (auto simp: createGroupWithExternalSenderLocked_def)
  next
    case (Inr u)
    then have t: "client_there s1" using key_package_there [OF assms(1) 1] by simp
    have "client_there (snd (createGroupWithExternalSenderLocked kdf E s))"
      using False 1 Inr t by (auto simp: createGroupWithExternalSenderLocked_def intro!: there_bind)
    then show ?thesis using assms(2) by (simp add: there_ok)
  qed
qed

lemma ok_restore: "client_ok s \<Longrightarrow> client_ok (snd (restorePreCommitStateLocked E s))"
proof (cases "preCommitGroupState s = []")
  case True
  then show "client_ok s \<Longrightarrow> ?thesis" by (simp add: restorePreCommitStateLocked_def)
next
  case False
  then show "client_ok s \<Longrightarrow> ?thesis" using there_restore [of s E] by (auto simp: there_ok client_ok_def client_there_def)
qed

lemma ok_process_and_commit:
  assumes "client_ok s" "marshal_ok E"
  shows "client_ok (processAndCommitProposalBatchLocked kdf E proposals s)"
proof -
  obtain r1 s1 where 1: "ensureMLSClientLocked E s = (r1, s1)" by fastforce
  obtain acc r2 s2 where 2: "processProposalBatchLocked E proposals s1 = (acc, r2, s2)" by (metis prod.exhaust)
  note e = ensure_there [OF assms(1) 1]
  show ?thesis
  proof (cases r1)
    case (Inl x)
    then show ?thesis using 1 e by (simp add: processAndCommitProposalBatchLocked_def)
  next
    case (Inr u)
    then have "client_there s2" using e there_batch [of s1 E proposals] assms(2) 2 by simp
    then show ?thesis using 1 2 Inr there_commit_proposals [of s2 kdf E]
      by (auto simp: processAndCommitProposalBatchLocked_def there_ok split: sum.splits)
  qed
qed

lemma cview_activation [simp]:
  "cview (take_own_ratchet E e s) = cview s" "cview (switch_send_ratchet E old s) = cview s" "cview (pruneRetainedEpochsLocked now s) = cview s"
  by (simp_all add: cview_def take_own_ratchet_def switch_send_ratchet_def retain_send_ratchet_def pruneRetainedEpochsLocked_def
      signalEpochReadyLocked_def markRecoveredLocked_def markDegradedLocked_def endDegradedLocked_def Let_def split: option.splits)

lemma cview_activate: "cview (activate_epoch E e s) = (panicked s, mlsClient s, pendingGroupID s, [], preCommitGroupState s)"
  unfolding activate_epoch_def Let_def cview_activation by (simp add: cview_def split: option.splits)

lemma ok_activate_epoch: "client_ok s \<Longrightarrow> client_ok (activate_epoch E e s)"
  using cview_activate [of E e s] by (simp add: cview_def client_ok_def)

lemma ok_activate_pending: "client_ok s \<Longrightarrow> marshal_ok E \<Longrightarrow> client_ok (activatePendingEpochLocked kdf E s)"
proof -
  have d: "client_ok s \<Longrightarrow> marshal_ok E \<Longrightarrow> client_ok (drain_loop kdf E n s)" for n and s :: "'a Session"
    by (induction n arbitrary: s) (simp_all add: ok_process_and_commit)
  show "client_ok s \<Longrightarrow> marshal_ok E \<Longrightarrow> ?thesis"
    by (simp add: activatePendingEpochLocked_def drainProposalQueueLocked_def d ok_activate_epoch split: option.splits)
qed

lemma ok_sole_member:
  assumes "client_ok s" "marshal_ok E"
  shows "client_ok (activateSoleMemberEpochLocked kdf E s)"
proof -
  let ?f = "\<lambda>epoch s2. (Inr () :: session_error + unit, s2\<lparr>pendingEpoch := Some epoch, pendingGroupID := groupID s2\<rparr>)"
  let ?r1 = "if length (groupID s) = 0 then createGroupWithExternalSenderLocked kdf E s else (Inr (), s)"
  obtain r1 s1 where 1: "?r1 = (r1, s1)" by fastforce
  have o1: "client_ok s1 \<and> (r1 = Inr () \<longrightarrow> client_there s1)"
    using 1 assms(1) ok_create_group [OF assms(1)] by (auto simp: client_ok_def client_there_def split: if_splits)
  obtain r2 s2 where 2: "(if pendingEpoch s1 = None then sbind (rebuildEpochStateLocked kdf E (groupID s1) s1) ?f else (Inr (), s1)) = (r2, s2)"
    by fastforce
  have "client_ok s2" if "r1 = Inr ()"
  proof -
    have t: "client_there s1" using o1 that by simp
    have "client_there (snd (sbind (rebuildEpochStateLocked kdf E (groupID s1) s1) ?f))" by (intro there_bind) (simp_all add: t)
    then show ?thesis using 2 t by (auto simp: there_ok split: if_splits)
  qed
  then show ?thesis unfolding activateSoleMemberEpochLocked_def 1
    using assms o1 2 by (cases r1; cases r2) (simp_all add: ok_activate_pending)
qed

section \<open>Handlers\<close>

lemma ok_finish: "client_ok s \<Longrightarrow> marshal_ok E \<Longrightarrow> client_ok (finish_transition kdf E tid s)"
  by (simp add: finish_transition_def ok_send_ready ok_activate_pending)

lemma ok_cleared: "client_ok s \<Longrightarrow> client_ok ((clear_group_state s)\<lparr>mlsClient := None\<rparr>)"
  by (simp add: clear_group_state_def client_ok_def)

lemma ok_on_ack: "client_ok s \<Longrightarrow> client_ok (OnSelectProtocolAck kdf E v s)"
proof -
  assume s: "client_ok s"
  have c: "client_ok ((endDegradedLocked now (resetEpochReadyLocked ((clear_group_state s1)\<lparr>recoveryAttempts := 0\<rparr>)))
      \<lparr>pendingKeyPackage := [], mlsClient := None\<rparr>)" if "client_ok s1" for now and s1 :: "'a Session"
    using that by (simp add: clear_group_state_def client_ok_def endDegradedLocked_def resetEpochReadyLocked_def split: option.splits)
  show ?thesis unfolding OnSelectProtocolAck_def Let_def by (simp add: s c ok_prepare_key_package)
qed

lemma ok_on_prepare_epoch: "client_ok s \<Longrightarrow> client_ok (OnDavePrepareEpoch kdf E epoch v s)"
proof -
  assume s: "client_ok s"
  have c: "client_ok ((park_send_ratchet E (resetEpochReadyLocked (clear_group_state s1)))\<lparr>pendingKeyPackage := [], mlsClient := None\<rparr>)"
    if "client_ok s1" for s1 :: "'a Session"
    using that by (simp add: clear_group_state_def client_ok_def park_send_ratchet_def retain_send_ratchet_def resetEpochReadyLocked_def)
  show ?thesis unfolding OnDavePrepareEpoch_def Let_def by (simp add: s c ok_prepare_key_package)
qed

lemma ok_on_execute: "client_ok s \<Longrightarrow> marshal_ok E \<Longrightarrow> client_ok (OnDaveExecuteTransition kdf E tid s)"
proof -
  assume s: "client_ok s" "marshal_ok E"
  have c: "client_ok (s1\<lparr>pendingEpoch := None, pendingGroupID := [], pendingCommitBytes := [], preCommitGroupState := [], groupID := []\<rparr>)"
    if "client_ok s1" for s1 :: "'a Session"
    using that by (simp add: client_ok_def)
  show ?thesis by (simp add: OnDaveExecuteTransition_def Let_def s c ok_activate_pending)
qed

lemma ok_on_prepare_transition: "client_ok s \<Longrightarrow> marshal_ok E \<Longrightarrow> client_ok (OnDavePrepareTransition kdf E tid v s)"
  by (simp add: OnDavePrepareTransition_def ok_sole_member Let_def)

lemma ok_on_external_sender: "client_ok s \<Longrightarrow> client_ok (OnDaveMLSExternalSenderPackage kdf E package s)"
  using ok_create_group [of "s\<lparr>externalSenderPackage := package\<rparr>" kdf E]
  by (auto simp: OnDaveMLSExternalSenderPackage_def split: prod.splits sum.splits)

lemma ok_on_proposals: "client_ok s \<Longrightarrow> marshal_ok E \<Longrightarrow> client_ok (OnDaveMLSProposals kdf E proposals s)"
  by (simp add: OnDaveMLSProposals_def ok_process_and_commit Let_def)

lemma ok_set_channel: "client_ok s \<Longrightarrow> client_ok (SetChannelID kdf E have cid s)"
  using ok_create_group [of "s\<lparr>channelID := cid\<rparr>" kdf E, OF _ prod.collapse [symmetric]] by (simp add: SetChannelID_def Let_def)

lemma ok_reconcile: "client_ok s \<Longrightarrow> client_ok (snd (reconcileCompetingCommitLocked kdf E tid c s))"
proof -
  assume s: "client_ok s"
  obtain r1 s1 where 1: "(if 0 < length (pendingCommitBytes s) then restorePreCommitStateLocked E s else (Inr (), s)) = (r1, s1)"
    by fastforce
  have o1: "client_ok s1" using 1 ok_restore [OF s, of E] s by (auto split: if_splits)
  obtain r2 s2 where 2: "processCommitLocked kdf E c s1 = (r2, s2)" by fastforce
  have "client_ok s2"
  proof (cases "groupID s1 = []")
    case True
    then show ?thesis using 2 o1 by (auto simp: processCommitLocked_def)
  next
    case False
    then have "client_there s1" using o1 by (auto simp: client_ok_def client_there_def)
    from there_process_commit [OF this, of kdf E c] show ?thesis using 2 by (simp add: there_ok)
  qed
  then show ?thesis unfolding reconcileCompetingCommitLocked_def 1 using o1 2
    by (cases r1; cases r2) (simp_all add: ok_send_invalid ok_resend)
qed

lemma ok_on_commit: "client_ok s \<Longrightarrow> marshal_ok E \<Longrightarrow> client_ok (OnDaveMLSPrepareCommitTransition kdf E tid c s)"
proof -
  assume s: "client_ok s" "marshal_ok E"
  obtain r1 s1 where 1: "ensureMLSClientLocked E (s\<lparr>pendingTransitionID := tid\<rparr>) = (r1, s1)" by fastforce
  have o1: "client_ok s1" using ensure_there [OF _ 1] s by simp
  obtain b s2 where 2: "(if pendingEpoch s1 \<noteq> None \<and> pendingCommitBytes s1 = c then (True, s1\<lparr>pendingCommitBytes := [], preCommitGroupState := []\<rparr>)
    else reconcileCompetingCommitLocked kdf E tid c s1) = (b, s2)" by fastforce
  have "client_ok s2" using 2 ok_reconcile [OF o1, of kdf E tid c] o1 by (auto simp: client_ok_def split: if_splits)
  then show ?thesis unfolding OnDaveMLSPrepareCommitTransition_def 1 using o1 2 s(2)
    by (cases r1; cases b) (simp_all add: ok_finish)
qed

lemma ok_on_welcome: "client_ok s \<Longrightarrow> marshal_ok E \<Longrightarrow> client_ok (OnDaveMLSWelcome kdf E tid w s)"
proof -
  assume s: "client_ok s" "marshal_ok E"
  let ?s1 = "s\<lparr>pendingTransitionID := tid\<rparr>"
  let ?r = "sbind (restorePreCommitStateLocked E ?s1) (\<lambda>_ s2. (Inr (), s2\<lparr>proposalQueue := []\<rparr>))"
  obtain r2 s2 where 2: "(if 0 < length (pendingCommitBytes ?s1) then ?r else (Inr (), ?s1)) = (r2, s2)" by fastforce
  have "client_ok (snd ?r)" using ok_restore [of ?s1 E] s by (simp add: snd_sbind split: sum.splits)
  then have o2: "client_ok s2" using 2 s by (auto split: if_splits)
  obtain r3 s3 where 3: "ensureMLSClientLocked E s2 = (r3, s3)" by fastforce
  note e = ensure_there [OF o2 3]
  obtain r4 s4 where 4: "joinPendingWelcomeLocked kdf E w s3 = (r4, s4)" by fastforce
  have "client_ok s4" if "r3 = Inr ()" using there_join [of s3 kdf E w] e that 4 by (simp add: there_ok)
  then show ?thesis unfolding OnDaveMLSWelcome_def Let_def 2 using o2 e 3 4 s(2)
    by (cases r2; cases r3; cases r4) (simp_all add: ok_send_invalid ok_resend ok_finish)
qed

lemma ok_handle: "client_ok s \<Longrightarrow> marshal_ok E \<Longrightarrow> client_ok (handle kdf E h s)"
  by (cases h) (simp_all add: ok_on_ack ok_on_prepare_epoch ok_on_prepare_transition ok_on_execute ok_on_external_sender ok_on_proposals
      ok_set_channel ok_on_commit ok_on_welcome)

section \<open>Watchdogs\<close>

lemma ok_key_package_sent: "client_ok s \<Longrightarrow> client_ok (snd (sendAttempt kdf E ready kp s))"
  by (simp add: sendAttempt_def sendKeyPackageLocked_def snd_sbind split: sum.splits)

lemma ok_recover_begin: "client_ok s \<Longrightarrow> client_ok (snd (recover_begin kdf E ready tid np s))"
proof -
  assume s: "client_ok s"
  let ?s2 = "invalidateMLSStateLocked E (sendInvalidCommitWelcomeLocked kdf E tid (s\<lparr>recoveryAttempts := Suc (recoveryAttempts s)\<rparr>))"
  have 2: "client_ok ?s2" by (intro ok_invalidate ok_not_panicked) (simp add: ok_send_invalid s)
  obtain r3 s3 where 3: "ensureMLSClientLocked E ?s2 = (r3, s3)" by fastforce
  have "client_ok (snd (freshKeyPackageLocked E ?s2))"
    using ensure_there [OF 2 3] 3 there_call(1) [of s3] by (cases r3) (simp_all add: freshKeyPackageLocked_def there_ok)
  moreover have "snd (recover_begin kdf E ready tid np s) \<in> {s, snd (freshKeyPackageLocked E ?s2)}"
    by (simp add: recover_begin_def Let_def split: prod.splits sum.splits)
  ultimately show ?thesis using s by auto
qed

lemma ok_move: "watchdog_move kdf marshal_ok w s w' s' \<Longrightarrow> client_ok s \<Longrightarrow> client_ok s'"
proof (induction rule: watchdog_move.induct)
  case (wait_timeout E ready tid np s w s')
  then show ?case using ok_recover_begin [of s kdf E ready tid np] by simp
next
  case (attempt E ready kp i delay start s w s')
  then show ?case using ok_key_package_sent [of s kdf E ready kp]
    by (auto simp: retry_attempt_def split: prod.splits sum.splits if_splits)
qed (simp_all add: recover_finish_def)

lemma ok_step: "session_step kdf marshal_ok s s' \<Longrightarrow> client_ok s \<Longrightarrow> client_ok s'"
proof (induction rule: session_step.induct)
  case (watchdog s s')
  then show ?case by (cases rule: watchdog_step.cases) (auto dest: ok_move simp: swap_watchdog_def client_ok_def)
qed (simp_all add: ok_handle)

text \<open>C18 no_panic. No handler and no watchdog of a session panics, whatever the gateway and the MLS client
  answer: the MLS client is never called through the nil pointer it is before the first key package
  and after each reset, and the loop over a proposal batch never slices past its end, as long as no
  parsed message is longer when it is marshaled again than the bytes it was read from.\<close>

theorem no_panic:
  assumes "reachable kdf marshal_ok s"
  shows "\<not> panicked s \<and> (groupID s \<noteq> [] \<or> pendingGroupID s \<noteq> [] \<or> preCommitGroupState s \<noteq> [] \<longrightarrow> mlsClient s \<noteq> None)"
proof -
  have "client_ok s" using assms
    by (induction rule: reachable.induct) (auto simp: ok_step, simp add: New_def client_ok_def Let_def)
  then show ?thesis by (simp add: client_ok_def)
qed

text \<open>A session of the example that has a group, and so a client.\<close>

theorem no_panic_witness: "groupID demo_ready \<noteq> [] \<and> mlsClient demo_ready \<noteq> None \<and> \<not> panicked demo_ready"
proof -
  have "reachable pad_kdf marshal_ok demo_ready" unfolding demo_steps [symmetric]
    by (intro reachable.step [OF _ session_step.handler] reachable.start) (simp_all add: marshal_ok_def demo_env_def)
  from no_panic [OF this] show ?thesis by (simp add: demo_ready_def)
qed

end
