(* ===== verification/Session_Waiting.thy ===== *)
theory Session_Waiting
  imports Session_Transitions Session_Client
begin

text \<open>
  The calls that block: \<open>WaitReady\<close> of \<open>session/state.go\<close> and \<open>WaitShutdown\<close> of \<open>session/close.go\<close>. A call of
  \<open>WaitReady\<close> is a small state machine beside the session: it looks at the session, blocks on the
  channel it saw, and looks again when that channel is closed. Other calls and the watchdogs run in between.
\<close>

section \<open>Definitions\<close>

text \<open>A call of \<open>WaitReady\<close> with its start time: about to look at the session, blocked on a channel, or returned
  with a duration or the error of its context.\<close>

datatype waiter =
    Checking int
  | Blocked int nat
  | Returned "session_error + int"

definition WaitReady_start :: "int \<Rightarrow> 'c Session \<Rightarrow> waiter" where
  "WaitReady_start now s = Checking (case degradedSince s of None \<Rightarrow> now | Some t \<Rightarrow> t)"

definition e2ee_ready :: "'c Session \<Rightarrow> bool" where
  "e2ee_ready s \<longleftrightarrow> activeEpoch s \<noteq> None \<and> sendRatchet s \<noteq> None"

text \<open>One turn of the loop is a look and a wait; \<open>now\<close> is the clock when the call returns.\<close>

fun WaitReady_next :: "int \<Rightarrow> waiter \<Rightarrow> 'c Session \<Rightarrow> waiter" where
  "WaitReady_next now (Checking start) s = (if e2ee_ready s then Returned (Inr (now - start)) else Blocked start (epochReady s))"
| "WaitReady_next now (Blocked start ch) s = (if isClosed s ch then Checking start else Blocked start ch)"
| "WaitReady_next now (Returned r) s = Returned r"

text \<open>A call of \<open>WaitReady\<close> beside a session; a blocked call also returns when its context is done.\<close>

inductive waiting :: "kdf \<Rightarrow> ('c Env \<Rightarrow> bool) \<Rightarrow> waiter \<Rightarrow> 'c Session \<Rightarrow> bool"
  for kdf :: kdf and Ok :: "'c Env \<Rightarrow> bool" where
  call: "reachable kdf Ok s \<Longrightarrow> waiting kdf Ok (WaitReady_start now s) s"
| other: "waiting kdf Ok w s \<Longrightarrow> session_step kdf Ok s s' \<Longrightarrow> waiting kdf Ok w s'"
| turn: "waiting kdf Ok w s \<Longrightarrow> waiting kdf Ok (WaitReady_next now w s) s"
| cancelled: "waiting kdf Ok (Blocked start ch) s \<Longrightarrow> waiting kdf Ok (Returned (Inl ContextCanceled)) s"

text \<open>The channel \<open>shutdownDone\<close> is closed once \<open>Close\<close> was called and all watchdogs have ended; \<open>WaitShutdown\<close>
  returns nil then, and the error of its context when that is done first.\<close>

definition WaitShutdown :: "bool \<Rightarrow> 'c Session \<Rightarrow> (session_error option) option" where
  "WaitShutdown ctxDone s =
     (if shutdown s \<and> watchdogs s = [] then Some None
      else if ctxDone then Some (Some ContextCanceled)
      else None)"

section \<open>No lost wake-up\<close>

text \<open>What keeps a call blocked on \<open>ch\<close> from sleeping through: the channel is closed, or it is still the current
  one and the session is not ready.\<close>

definition wakes :: "nat \<Rightarrow> 'c Session \<Rightarrow> bool" where
  "wakes ch s \<longleftrightarrow> ch \<in> closedChans s \<or> epochReady s = ch \<and> \<not> e2ee_ready s"

interpretation wakeups: handler_invariant kdf "wakes ch" for kdf ch
proof (unfold_locales, goal_cases)
  case (2 s op)
  have "closedChans (media_step kdf op s) = closedChans s" "epochReady (media_step kdf op s) = epochReady s"
    using rest_media [of kdf op s] by (simp_all add: rest_def)
  moreover have "sendRatchet (media_step kdf op s) = sendRatchet s"
    "map_option epoch_refs (activeEpoch (media_step kdf op s)) = map_option epoch_refs (activeEpoch s)"
    using media_same [of s kdf op] by (simp_all add: same_keys_def)
  then have "e2ee_ready (media_step kdf op s) = e2ee_ready s" by (metis e2ee_ready_def map_option_is_None)
  ultimately show ?case using 2 by (simp add: wakes_def)
next
  case (4 s E gid e s')
  then show ?case using rebuilt_shape [OF 4(2)] by (auto simp: wakes_def e2ee_ready_def)
next
  case (7 s e E)
  then show ?case using activate_epoch_core [of E e s]
    by (auto simp: core_def wakes_def e2ee_ready_def split: if_splits)
qed (auto simp: core_def wakes_def e2ee_ready_def resetEpochReadyLocked_def restart_def clear_group_state_def dropSendKeysLocked_def)

lemma wakes_step: "session_step kdf Ok s s' \<Longrightarrow> wakes ch s \<Longrightarrow> wakes ch s'"
proof (induction rule: session_step.induct)
  case (watchdog s s')
  then show ?case by (auto elim!: watchdog_stepE dest!: wakeups.move simp: swap_watchdog_def wakes_def e2ee_ready_def)
qed (simp_all add: wakeups.handle wakeups.free_step)

lemma waiting_wakes: "waiting kdf Ok w s \<Longrightarrow> w = Blocked start ch \<Longrightarrow> wakes ch s"
proof (induction arbitrary: start ch rule: waiting.induct)
  case (other w s s')
  then show ?case using wakes_step by blast
next
  case (turn w s now)
  then show ?case by (cases w) (auto simp: wakes_def split: if_splits)
qed (auto simp: WaitReady_start_def)

text \<open>C21 waitready_returns. A call of \<open>WaitReady\<close> does not sleep through: whatever calls and watchdogs ran since it
  looked at the session, as soon as an epoch is active and has a send ratchet, a call that was about
  to look returns, and a blocked one is woken, because the channel it blocks on is closed, looks
  again and returns with the time since its start.\<close>

theorem waitready_returns:
  assumes "waiting kdf Ok w s" "e2ee_ready s"
  shows "case w of
      Checking start \<Rightarrow> WaitReady_next now w s = Returned (Inr (now - start))
    | Blocked start ch \<Rightarrow> WaitReady_next now (WaitReady_next before w s) s = Returned (Inr (now - start))
    | Returned r \<Rightarrow> True"
proof (cases w)
  case (Blocked start ch)
  then have "ch \<in> closedChans s" using waiting_wakes [OF assms(1)] assms(2) by (auto simp: wakes_def)
  then show ?thesis using Blocked assms(2) by (simp add: isClosed_def)
qed (simp_all add: assms(2))

text \<open>The session of the example: a call made before the epoch blocks on channel 1 and returns after it.\<close>

theorem waitready_returns_witness:
  "\<exists>ch. waiting pad_kdf (\<lambda>E. E = demo_env) (Blocked 3 ch) demo_joined
     \<and> WaitReady_next 9 (WaitReady_next 8 (Blocked 3 ch) demo_joined) demo_joined = Returned (Inr 6)"
proof -
  let ?W = "waiting pad_kdf (\<lambda>E. E = demo_env)"
  have r: "reachable pad_kdf (\<lambda>E. E = demo_env) demo_ready" unfolding demo_steps [symmetric]
    by (intro reachable.step [OF _ session_step.handler] reachable.start) simp_all
  have d: "degradedSince demo_ready = None" "epochReady demo_ready = 1" "\<not> e2ee_ready demo_ready"
    by (simp_all add: demo_ready_def New_def Let_def e2ee_ready_def)
  have "?W (WaitReady_next 3 (WaitReady_start 3 demo_ready) demo_ready) demo_ready" by (intro waiting.turn waiting.call r)
  then have "?W (Blocked 3 1) demo_ready" by (simp add: WaitReady_start_def d)
  then have w: "?W (Blocked 3 1) demo_joined" unfolding demo_joined_def by (rule waiting.other) (rule session_step.handler, simp)
  have e: "e2ee_ready demo_joined" by (simp add: e2ee_ready_def demo_joined_fields)
  have "WaitReady_next 9 (WaitReady_next 8 (Blocked 3 1) demo_joined) demo_joined = Returned (Inr (9 - 3))"
    using waitready_returns [OF w e, of 9 8] by (simp only: waiter.case)
  then show ?thesis using w by (intro exI [of _ 1]) (simp del: WaitReady_next.simps)
qed

section \<open>A wait that does not block\<close>

text \<open>An environment in which the next commit leaves the session's own user out of the group.\<close>

definition removing_env :: "unit Env" where
  "removing_env = demo_env\<lparr>ListMembers := (\<lambda>c g. Inr [[0, 0, 0, 0, 0, 0, 0, 8]]),
     UnmarshalMLSMessage := (\<lambda>b. Inr \<lparr>mm_Public = Some \<lparr>pm_SenderType = 2, pm_ContentType = 3, pm_ProposalData = None, pm_CommitData = Some [1]\<rparr>,
       mm_Welcome = None, mm_Marshal = b\<rparr>)\<rparr>"

lemma removing_available: "epoch_available pad_kdf removing_env c g"
proof -
  have "\<exists>b. DeriveSenderBaseSecret (Some (adapter_exporter pad_kdf removing_env (Some c) g)) 8 = Inr b \<and> length b = 16"
    by (simp add: DeriveSenderBaseSecret_def adapter_exporter_def exporterAdapter_Export_def removing_env_def demo_env_def ExportWithMLSExporterSecret_def
        pad_kdf_def BaseSecretLen_def)
  then obtain b where "DeriveSenderBaseSecret (Some (adapter_exporter pad_kdf removing_env (Some c) g)) 8 = Inr b" "length b = 16" by blast
  moreover have "identityBytesToUserID [0, 0, 0, 0, 0, 0, 0, 8] = Inr (''8'', 8)" by code_simp
  ultimately have "epoch_spec (adapter_exporter pad_kdf removing_env (Some c) g) [[0, 0, 0, 0, 0, 0, 0, 8]] [(''8'', b)]"
    by (simp add: epoch_spec_def)
  moreover have "ListMembers removing_env c g = Inr [[0, 0, 0, 0, 0, 0, 0, 8]]" "Epoch removing_env c g = Inr 1" by (simp_all add: removing_env_def)
  ultimately show ?thesis unfolding epoch_available_def by blast
qed

text \<open>The epoch of that group does not list user 7.\<close>

lemma removing_epoch:
  assumes "rebuildEpochStateLocked pad_kdf removing_env gid s = (Inr e, s')" "mlsClient s = Some c"
  shows "map_of (es_senders e) ''7'' = None"
proof -
  have i: "identityBytesToUserID [0, 0, 0, 0, 0, 0, 0, 8] = Inr (''8'', 8)" by code_simp
  obtain members where "ListMembers removing_env c gid = Inr members"
    "epoch_spec (adapter_exporter pad_kdf removing_env (Some c) gid) members (epoch_bases (ratchets s') e)"
    using rebuilt_spec [OF assms(2,1)] by blast
  then have "map fst (epoch_bases (ratchets s') e) = [''8'']"
    by (auto simp: removing_env_def epoch_spec_def list_all2_Cons1 i)
  moreover have "map fst (epoch_bases (ratchets s') e) = map fst (es_senders e)" by (simp add: epoch_bases_def comp_def case_prod_beta)
  ultimately have "fst ` set (es_senders e) = {''8''}" by (metis list.set(1,2) set_map)
  then show ?thesis by (simp add: map_of_eq_None_iff)
qed

lemma demo_joined_group:
  "mlsClient demo_joined = Some ()" "groupID demo_joined = [0, 0, 0, 0, 0, 0, 0, 5]" "pendingCommitBytes demo_joined = []" "proposalQueue demo_joined = []"
proof -
  obtain r where j: "demo_joined = (activate_epoch demo_env demo_own (demo_pending r))\<lparr>pendingTransitionID := 0\<rparr>" using demo_joined_active by blast
  show "mlsClient demo_joined = Some ()" "groupID demo_joined = [0, 0, 0, 0, 0, 0, 0, 5]"
    using cview_activate [of demo_env demo_own "demo_pending r"] by (simp_all add: j cview_def) (simp_all add: demo_pending_def demo_ready_def)
  show "pendingCommitBytes demo_joined = []" "proposalQueue demo_joined = []"
    by (simp_all add: j activate_epoch_keeps) (simp_all add: demo_pending_def demo_ready_def New_def Let_def)
qed

definition demo_removed :: "unit Session" where
  "demo_removed = handle pad_kdf removing_env (PrepareCommitTransition 0 [2]) demo_joined"

lemma demo_removed_fields: "sendRatchet demo_removed = None" "epochReady demo_removed = 1" "closedChans demo_removed = {0, 1}"
proof -
  let ?s1 = "demo_joined\<lparr>pendingTransitionID := 0\<rparr>" and ?gid = "[0, 0, 0, 0, 0, 0, 0, 5]"
  obtain b s2 where b: "rebuildEpochStateLocked pad_kdf removing_env ?gid ?s1 = (b, s2)" by fastforce
  then obtain e where e: "b = Inr e" using rebuild_iff [OF _ b, of "()"] removing_available by (auto simp: demo_joined_group)
  have own: "map_of (es_senders e) ''7'' = None" using removing_epoch b e by (simp add: demo_joined_group)
  obtain rs n where s2: "s2 = ?s1\<lparr>ratchets := rs, nextRef := n\<rparr>" using rebuilt_shape [OF b [unfolded e]] by blast
  let ?s3 = "s2\<lparr>pendingEpoch := Some e, pendingGroupID := ?gid\<rparr>"
  have v: "validateCommitProposalRefs removing_env [2] = Inr ()"
    by (simp add: validateCommitProposalRefs_def removing_env_def demo_env_def)
  have c: "client_call ''process commit'' (ProcessCommit removing_env ?gid [2]) ?s1 = (Inr (), ?s1)"
    by (simp add: client_call_def demo_joined_group removing_env_def demo_env_def)
  have p: "processCommitLocked pad_kdf removing_env [2] ?s1 = (Inr (), ?s3)"
    using b e c v s2 by (simp add: processCommitLocked_def demo_joined_group)
  let ?s4 = "?s3\<lparr>stats := (stats ?s3)\<lparr>CommitsProcessed := CommitsProcessed (stats ?s3) + 1\<rparr>, activeTransitionID := 0\<rparr>"
  have "ensureMLSClientLocked removing_env ?s1 = (Inr (), ?s1)" by (simp add: ensureMLSClientLocked_def demo_joined_group)
  then have d: "demo_removed = (activatePendingEpochLocked pad_kdf removing_env ?s4)\<lparr>pendingTransitionID := 0\<rparr>"
    by (simp add: demo_removed_def OnDaveMLSPrepareCommitTransition_def reconcileCompetingCommitLocked_def demo_joined_fields demo_joined_group p
        finish_transition_def)
  have "proposalQueue (activate_epoch removing_env e ?s4) = []" by (simp add: activate_epoch_keeps s2 demo_joined_group)
  then have "core demo_removed = core (activate_epoch removing_env e ?s4)"
    unfolding d by (simp add: activatePendingEpochLocked_def drainProposalQueueLocked_def)
  then show "sendRatchet demo_removed = None" "epochReady demo_removed = 1" "closedChans demo_removed = {0, 1}"
    by (simp_all add: activate_epoch_core) (simp_all add: core_def s2 own demo_joined_fields)
qed

text \<open>C22 waitready_spins. \<open>WaitReady\<close> can spin: when an epoch that does not list the session's own user is activated, the send ratchet
  goes away but the channel that the previous epoch closed stays the current one, so a call finds the
  session not ready and its channel closed, over and over, and never blocks.\<close>

theorem waitready_spins:
  "\<exists>s :: unit Session. reachable pad_kdf (\<lambda>_. True) s \<and> \<not> e2ee_ready s
     \<and> (\<forall>now start. WaitReady_next now (WaitReady_next now (Checking start) s) s = Checking start)"
proof -
  have "reachable pad_kdf (\<lambda>_. True) demo_joined"
  proof -
    have h: "reachable pad_kdf (\<lambda>_. True) (handle pad_kdf demo_env x s)" if "reachable pad_kdf (\<lambda>_. True) s" for x s
      by (rule reachable.step [OF that session_step.handler]) simp
    have "reachable pad_kdf (\<lambda>_. True) demo_ready" unfolding demo_steps [symmetric] by (intro h reachable.start)
    then show ?thesis unfolding demo_joined_def by (rule h)
  qed
  then have "reachable pad_kdf (\<lambda>_. True) demo_removed" unfolding demo_removed_def by (rule reachable.step [OF _ session_step.handler]) simp
  then show ?thesis by (intro exI [of _ demo_removed]) (simp add: e2ee_ready_def isClosed_def demo_removed_fields)
qed

section \<open>Shutdown\<close>

text \<open>The moves a watchdog can still make after \<open>Close\<close>.\<close>

fun closing_moves :: "watchdog \<Rightarrow> nat" where
  "closing_moves (Waiting ready tid np) = 1"
| "closing_moves (Finishing ready err) = 1"
| "closing_moves (Sending ready kp i delay start) = 2"
| "closing_moves (Backoff ready kp i delay start) = 3"

lemma canceled_not_shard: "\<not> isShardNotReady ContextCanceled"
  by code_simp

lemma closing_move:
  "watchdog_move kdf Ok w s w' s' \<Longrightarrow> shutdown s \<Longrightarrow> shutdown s' \<and> watchdogs s' = watchdogs s
    \<and> (case w' of None \<Rightarrow> True | Some x \<Rightarrow> closing_moves x < closing_moves w)"
proof (induction rule: watchdog_move.induct)
  case (attempt E ready kp i delay start s w s')
  then show ?case
    by (auto simp: retry_attempt_def sendAttempt_def canceled_not_shard retry_leave_def split: option.splits)
qed (auto simp: recover_begin_def recover_finish_def retry_leave_def split: option.splits)

lemma closing_pos: "0 < closing_moves w"
  by (cases w) simp_all

lemma closing_step:
  "watchdog_step kdf Ok s s' \<Longrightarrow> shutdown s \<Longrightarrow> shutdown s'
    \<and> (\<Sum>w\<leftarrow>watchdogs s'. closing_moves w) < (\<Sum>w\<leftarrow>watchdogs s. closing_moves w)"
proof (induction rule: watchdog_step.induct)
  case (1 w s w' s')
  have m: "shutdown s'" "watchdogs s' = watchdogs s" "case w' of None \<Rightarrow> True | Some x \<Rightarrow> closing_moves x < closing_moves w"
    using closing_move [OF 1(2,3)] by simp_all
  have "(\<Sum>w\<leftarrow>watchdogs s. closing_moves w) = closing_moves w + (\<Sum>w\<leftarrow>remove1 w (watchdogs s). closing_moves w)"
    using sum_list_map_remove1 [OF 1(1)] by blast
  then show ?case using m closing_pos [of w] by (auto simp: swap_watchdog_def split: option.splits)
qed

lemma closing_progress: "shutdown s \<Longrightarrow> watchdogs s \<noteq> [] \<Longrightarrow> Ok E \<Longrightarrow> \<exists>s'. watchdog_step kdf Ok s s'"
proof -
  assume a: "shutdown s" "watchdogs s \<noteq> []" "Ok E"
  have "\<exists>w' s'. watchdog_move kdf Ok (hd (watchdogs s)) s w' s'"
  proof (cases "hd (watchdogs s)")
    case (Sending ready kp i delay start)
    obtain w s' where "retry_attempt kdf E ready kp i delay start s = (w, s')" by fastforce
    then show ?thesis using watchdog_move.attempt [of Ok E] a(3) Sending by metis
  qed (use a watchdog_move.wait_over watchdog_move.backoff_timer watchdog_move.finish in \<open>metis\<close>)+
  then show ?thesis using a(2) watchdog_step.intros [of "hd (watchdogs s)" s] by (metis hd_in_set)
qed

text \<open>C23 shutdown_completes. \<open>Close\<close> ends the watchdogs: after it they make at most three moves each, whatever the
  gateway does, and as long as one is left one of them can move. When none is left, \<open>WaitShutdown\<close>
  returns without an error.\<close>

theorem shutdown_completes:
  assumes "Ok E" "(watchdog_step kdf Ok ^^ n) (Close s) s'"
  shows "n \<le> 3 * length (watchdogs s) \<and> (WaitShutdown False s' = Some None \<or> (\<exists>s''. watchdog_step kdf Ok s' s''))"
proof -
  let ?m = "\<lambda>s :: 'a Session. \<Sum>w\<leftarrow>watchdogs s. closing_moves w"
  have "shutdown s' \<and> n + ?m s' \<le> ?m (Close s)" using assms(2)
  proof (induction n arbitrary: s')
    case (Suc n)
    then obtain t where t: "(watchdog_step kdf Ok ^^ n) (Close s) t" "watchdog_step kdf Ok t s'" by auto
    then show ?case using Suc.IH [OF t(1)] closing_step [OF t(2)] by simp
  qed (simp add: Close_def)
  moreover have "closing_moves w \<le> 3" for w by (cases w) simp_all
  then have "?m (Close s) \<le> 3 * length (watchdogs s)" using sum_list_mono [of "watchdogs s" closing_moves "\<lambda>_. 3"]
    by (simp add: Close_def sum_list_triv)
  ultimately show ?thesis using closing_progress [of s' Ok E kdf] assms(1) by (auto simp: WaitShutdown_def)
qed

theorem shutdown_completes_witness:
  "\<exists>s'. (watchdog_step pad_kdf (\<lambda>_. True) ^^ 1) (Close demo_dropped) s' \<and> WaitShutdown False s' = Some None \<and> (1 :: nat) \<le> 3 * length (watchdogs demo_dropped)"
proof -
  let ?c = "Close demo_dropped"
  have f: "shutdown ?c" "watchdogs ?c = [Waiting 2 0 False]" by (simp_all add: Close_def demo_dropped_fields)
  let ?s = "swap_watchdog (Waiting 2 0 False) None ?c"
  have "watchdog_step pad_kdf (\<lambda>_. True) ?c ?s"
    by (intro watchdog_step.intros watchdog_move.wait_over) (simp_all add: f)
  then have r: "(watchdog_step pad_kdf (\<lambda>_. True) ^^ 1) ?c ?s" by auto
  have "watchdogs ?s = []" by (simp add: swap_watchdog_def f)
  then have "\<not> (\<exists>s''. watchdog_step pad_kdf (\<lambda>_. True) ?s s'')" by (auto elim: watchdog_stepE)
  then show ?thesis using shutdown_completes [of "\<lambda>_. True" demo_env, OF TrueI r] r by blast
qed

section \<open>Ready and told to hold\<close>

text \<open>A transport-only session that is told to prepare a transition to version 1 reports both that frames can be
  sent and that they should be held, until the transition is executed.\<close>

theorem ready_while_held: "\<exists>s :: unit Session. reachable pad_kdf (\<lambda>_. True) s \<and> Ready s \<and> ShouldHoldFrames s"
proof -
  let ?s = "handle pad_kdf demo_env (PrepareTransition 1 1) (handle pad_kdf demo_env (SelectProtocolAck 0) (New ''7'' True []))"
  have "reachable pad_kdf (\<lambda>_. True) ?s" by (intro reachable.step [OF _ session_step.handler] reachable.start) simp_all
  moreover have "Ready ?s \<and> ShouldHoldFrames ?s"
    by (simp add: handler_defs New_def Let_def Ready_def ShouldHoldFrames_def)
  ultimately show ?thesis by blast
qed

end
