(* ===== verification/Session_Group.thy ===== *)
theory Session_Group
  imports Session_Waiting
begin

text \<open>
  Sessions of one group: what two sessions share once each has built the epoch of the group from its own
  MLS client, and what a member needs to hear another.
\<close>

section \<open>Epochs of one group\<close>

text \<open>The specification of an epoch has one solution.\<close>

lemma epoch_spec_unique:
  assumes "epoch_spec export members xs" "epoch_spec export members ys"
  shows "xs = ys"
proof -
  have z: "list_all2 (\<lambda>identity (u, base). \<exists>n. identityBytesToUserID identity = Inr (u, n)
      \<and> DeriveSenderBaseSecret (Some export) n = Inr base \<and> length base = 16) members zs \<Longrightarrow>
    zs = map (\<lambda>identity. case identityBytesToUserID identity of Inr (u, n) \<Rightarrow> (u, projr (DeriveSenderBaseSecret (Some export) n))) members" for zs
    by (induction rule: list_all2_induct) auto
  have "list_all2 (\<lambda>identity (u, base). \<exists>n. identityBytesToUserID identity = Inr (u, n)
      \<and> DeriveSenderBaseSecret (Some export) n = Inr base \<and> length base = 16) members zs" if "zs \<in> {xs, ys}" for zs
    using assms that unfolding epoch_spec_def by blast
  from z [OF this, of xs] z [OF this, of ys] show ?thesis by simp
qed

text \<open>A member of a rebuilt epoch: a ratchet at generation 0 of its base secret, nothing received from it yet.\<close>

lemma rebuilt_member:
  assumes "rebuildEpochStateLocked kdf E gid s = (Inr e, s')" "map_of (es_senders e) u = Some x"
  shows "\<exists>r. ratchets s' (ss_ratchet x) = Some r \<and> NewKeyRatchet (baseSecret r) [] = Inr r \<and> map_of (epoch_bases (ratchets s') e) u = Some (baseSecret r)
    \<and> ss_expander x = NewNonceExpander \<and> ss_replay x = newReplayWindow"
proof -
  obtain export members where l: "list_all2 (fresh_entry export (ratchets s')) members (es_senders e)" using rebuilt_epoch [OF assms(1)] by blast
  have "(u, x) \<in> set (es_senders e)" using assms(2) by (rule map_of_SomeD)
  then obtain i where "i < length (es_senders e)" "es_senders e ! i = (u, x)" by (metis in_set_conv_nth)
  then have "fresh_entry export (ratchets s') (members ! i) (u, x)" using list_all2_nthD2 [OF l] by metis
  then obtain base r where r: "NewKeyRatchet base [] = Inr r" "ratchets s' (ss_ratchet x) = Some r" "ss_expander x = NewNonceExpander"
    "ss_replay x = newReplayWindow" by (auto simp: fresh_entry_def)
  have "map_of (epoch_bases (ratchets s') e) u = map_option (\<lambda>x. case ratchets s' (ss_ratchet x) of Some r \<Rightarrow> baseSecret r | None \<Rightarrow> []) (map_of (es_senders e) u)"
    unfolding epoch_bases_def by (rule map_of_map [THEN fun_cong, unfolded comp_def])
  then show ?thesis using r assms(2) new_ratchet_base [OF r(1)] by auto
qed

lemma new_ratchet_serves: "NewKeyRatchet base [] = Inr r \<Longrightarrow> served now r 0 \<and> baseGeneration r = 0"
  by (auto simp: NewKeyRatchet_def served_def split: if_splits)

text \<open>The base secret of a ratchet at generation 0.\<close>

lemma inv_base: "ratchet_inv kdf s0 r \<Longrightarrow> baseGeneration r = 0 \<Longrightarrow> s0 = baseSecret r"
  by (simp add: ratchet_inv_def)

lemma small_generation: "c < 2 ^ 24 \<Longrightarrow> (ucast (drop_bit 24 c) :: u32) = 0" for c :: u64
proof -
  assume "c < 2 ^ 24"
  then have "unat c < 2 ^ 24" by (simp add: word_less_nat_alt)
  then have "unat (drop_bit 24 c) = 0" by (simp add: unat_drop_bit_eq drop_bit_eq_div unat_div)
  then show ?thesis by (simp add: unat_eq_zero)
qed

section \<open>Entering an epoch\<close>

text \<open>A session builds the epoch of a group and activates it.\<close>

definition enters :: "kdf \<Rightarrow> 'c Env \<Rightarrow> bytes \<Rightarrow> 'c Session \<Rightarrow> epochState \<Rightarrow> 'c Session \<Rightarrow> bool" where
  "enters kdf E gid s e s' \<longleftrightarrow>
     (\<exists>s1. rebuildEpochStateLocked kdf E gid s = (Inr e, s1) \<and> s' = activate_epoch E e (s1\<lparr>pendingEpoch := Some e, pendingGroupID := gid\<rparr>))"

lemma enters_fields:
  assumes "enters kdf E gid s e s'" "map_of (es_senders e) u = Some x"
  shows "activeEpoch s' = Some e \<and> userID s' = userID s \<and> (u = userID s \<longrightarrow> sendRatchet s' = Some (ss_ratchet x))
    \<and> (\<exists>r. ratchets s' (ss_ratchet x) = Some r \<and> NewKeyRatchet (baseSecret r) [] = Inr r \<and> map_of (epoch_bases (ratchets s') e) u = Some (baseSecret r))
    \<and> ss_expander x = NewNonceExpander \<and> ss_replay x = newReplayWindow"
proof -
  obtain s1 where s1: "rebuildEpochStateLocked kdf E gid s = (Inr e, s1)"
    "s' = activate_epoch E e (s1\<lparr>pendingEpoch := Some e, pendingGroupID := gid\<rparr>)" using assms(1) by (auto simp: enters_def)
  obtain rs n where "s1 = s\<lparr>ratchets := rs, nextRef := n\<rparr>" using rebuilt_shape [OF s1(1)] by blast
  then have u: "userID s1 = userID s" by simp
  have c: "activeEpoch s' = Some e" "userID s' = userID s1" "ratchets s' = ratchets s1"
    "sendRatchet s' = map_option ss_ratchet (map_of (es_senders e) (userID s1))"
    using activate_epoch_core [of E e "s1\<lparr>pendingEpoch := Some e, pendingGroupID := gid\<rparr>"] by (simp_all add: s1(2) core_def)
  show ?thesis using rebuilt_member [OF s1(1) assms(2)] c u assms(2) by auto
qed

lemma enters_inv: "keys_inv kdf s \<Longrightarrow> enters kdf E gid s e s' \<Longrightarrow> keys_inv kdf s'"
proof -
  assume a: "keys_inv kdf s" "enters kdf E gid s e s'"
  then obtain s1 where s1: "rebuildEpochStateLocked kdf E gid s = (Inr e, s1)"
    "s' = activate_epoch E e (s1\<lparr>pendingEpoch := Some e, pendingGroupID := gid\<rparr>)" by (auto simp: enters_def)
  have "keys_inv kdf (s1\<lparr>pendingEpoch := Some e\<rparr>)" by (rule keys_inv_rebuilt [OF a(1) s1(1)])
  then have "keys_inv kdf (s1\<lparr>pendingEpoch := Some e, pendingGroupID := gid\<rparr>)"
    by (simp add: keys_inv_def media_inv_def candidates_def cipher_ok_def held_refs_def send_refs_def)
  then show ?thesis unfolding s1(2) by (rule keys_inv_activate) simp
qed

lemma enters_bases:
  assumes "enters kdf E gid s e s'" "mlsClient s = Some c" "ListMembers E c gid = Inr members"
  shows "epoch_spec (adapter_exporter kdf E (Some c) gid) members (epoch_bases (ratchets s') e)"
proof -
  obtain s1 where s1: "rebuildEpochStateLocked kdf E gid s = (Inr e, s1)"
    "s' = activate_epoch E e (s1\<lparr>pendingEpoch := Some e, pendingGroupID := gid\<rparr>)" using assms(1) by (auto simp: enters_def)
  have "ratchets s' = ratchets s1"
    using activate_epoch_core [of E e "s1\<lparr>pendingEpoch := Some e, pendingGroupID := gid\<rparr>"] by (simp add: s1(2) core_def)
  then show ?thesis using rebuilt_spec [OF assms(2) s1(1)] assms(3) by auto
qed

text \<open>A frame sent on the fresh ratchet of an epoch is received by every session with the same base secrets.\<close>

lemma fresh_exchange:
  assumes "kdf_ok kdf" "keys_inv kdf S" "keys_inv kdf R" "enters kdf ES gid S eS S'" "enters kdf ER gid R eR R'"
    and "epoch_bases (ratchets S') eS = epoch_bases (ratchets R') eR" "userID S \<in> fst ` set (es_senders eS)"
    and "retainedSendRatchet S' = None" "next_counter S' < 2 ^ 24" "encrypt_kind S' ssrc = CodecOpus"
    and "length f < 2 ^ 32" "length f + 16 \<le> length dst" "length f \<le> length dst'"
  shows "\<exists>out S'' R''. session_Encrypt kdf clk S' ssrc f dst = (Inr out, S'') \<and> LooksLikeDAVEFrame out
    \<and> session_Decrypt kdf clk' R' (userID S) out dst' = (Inr f, R'')"
proof -
  have fst_bases: "map fst (epoch_bases rs e) = map fst (es_senders e)" for rs e by (simp add: epoch_bases_def comp_def case_prod_beta)
  have "set (map fst (es_senders eR)) = set (map fst (es_senders eS))" by (metis fst_bases assms(6))
  then have "userID S \<in> fst ` set (es_senders eR)" using assms(7) by simp
  then obtain x y where x: "map_of (es_senders eS) (userID S) = Some x" and y: "map_of (es_senders eR) (userID S) = Some y"
    using assms(7) by (metis map_of_eq_None_iff option.exhaust)
  note s = enters_fields [OF assms(4) x] and r = enters_fields [OF assms(5) y]
  from s obtain rS where rS: "ratchets S' (ss_ratchet x) = Some rS" "NewKeyRatchet (baseSecret rS) [] = Inr rS"
    "map_of (epoch_bases (ratchets S') eS) (userID S) = Some (baseSecret rS)" by blast
  from r obtain rR where rR: "ratchets R' (ss_ratchet y) = Some rR" "NewKeyRatchet (baseSecret rR) [] = Inr rR"
    "map_of (epoch_bases (ratchets R') eR) (userID S) = Some (baseSecret rR)" by blast
  obtain secS secR where inv: "media_inv kdf secS S'" "media_inv kdf secR R'"
    using enters_inv [OF assms(2,4)] enters_inv [OF assms(3,5)] unfolding keys_inv_def by blast
  have "ratchet_inv kdf (secS (ss_ratchet x)) rS" "ratchet_inv kdf (secR (ss_ratchet y)) rR"
    using inv rS(1) rR(1) by (simp_all add: media_inv_def ratchets_ok_def)
  then have same: "secR (ss_ratchet y) = secS (ss_ratchet x)"
    using inv_base new_ratchet_serves rS(2,3) rR(2,3) assms(6) by (metis option.inject)
  let ?c = "next_counter S'"
  have g: "(ucast (drop_bit 24 ?c) :: u32) = 0" by (rule small_generation [OF assms(9)])
  have sel: "selectSendRatchetLocked (clk 0) S' = (Some (ss_ratchet x), S')"
    using s assms(8) by (simp add: selectSendRatchetLocked_def)
  have near: "expander_near (ss_expander y) ?c" using r assms(9) by (simp add: expander_near_def NewNonceExpander_def word_less_nat_alt)
  have fresh: "?c \<notin> refused (ss_replay y)" using r by (simp add: refused_def newReplayWindow_def)
  show ?thesis
    by (rule session_exchange [where clk = clk and clk' = clk' and secS = secS and secR = secR, OF _ _ inv(1) sel rS(1) assms(10) refl refl _ inv(2) _ y rR(1) _ same near fresh assms(11-13)])
      (use assms(1) g new_ratchet_serves [OF rS(2)] new_ratchet_serves [OF rR(2)] r in \<open>simp_all add: kdf_ok_def\<close>)
qed

end
