(* ===== verification/Session_Lifecycle.thy ===== *)
theory Session_Lifecycle
  imports Session_Group
begin

text \<open>
  The life of the keys of a session, as a machine of its own: which epochs are known, which key encrypts,
  and when a key is left for good. The machine knows nothing of MLS, of codecs, of time or of locks;
  the session of \<open>Session_Handlers\<close> refines it, so what holds of the machine holds of every session.
\<close>

section \<open>The machine\<close>

text \<open>An epoch is its members with a key each. Keys are numbered as they are made. \<open>lc_send\<close> is the key of the active
  epoch, \<open>lc_old\<close> an earlier one that is still used instead; \<open>lc_log\<close> has the keys of all frames so far.\<close>

type_synonym roster = "(UserID \<times> rref) list"

record lifecycle =
  lc_active :: "roster option"
  lc_pending :: "roster option"
  lc_retained :: "roster set"
  lc_send :: "rref option"
  lc_old :: "rref option"
  lc_fresh :: rref
  lc_log :: "rref list"

definition lc_key :: "lifecycle \<Rightarrow> rref option" where
  "lc_key a = (if lc_old a \<noteq> None then lc_old a else lc_send a)"

definition adds_member :: "roster option \<Rightarrow> roster \<Rightarrow> bool" where
  "adds_member old new = (case old of None \<Rightarrow> True | Some xs \<Rightarrow> \<not> fst ` set new \<subseteq> fst ` set xs)"

definition promote :: "UserID \<Rightarrow> roster \<Rightarrow> roster set \<Rightarrow> lifecycle \<Rightarrow> lifecycle" where
  "promote u new keep a = a\<lparr>lc_active := Some new, lc_pending := None, lc_retained := keep,
     lc_old := (if lc_send a = None then lc_old a else if adds_member (lc_active a) new then None else lc_send a),
     lc_send := map_of new u\<rparr>"

definition lc_restart :: "lifecycle \<Rightarrow> lifecycle" where
  "lc_restart a = a\<lparr>lc_active := None, lc_pending := None, lc_retained := {}, lc_send := None,
     lc_old := (if lc_send a = None then lc_old a else lc_send a)\<rparr>"

inductive lifecycle_step :: "UserID \<Rightarrow> lifecycle \<Rightarrow> lifecycle \<Rightarrow> bool" for u :: UserID where
  stage: "map snd new = [lc_fresh a..<n] \<Longrightarrow> lc_fresh a \<le> n \<Longrightarrow> distinct (map fst new) \<Longrightarrow>
    lifecycle_step u a (a\<lparr>lc_pending := Some new, lc_fresh := n\<rparr>)"
| unstage: "lifecycle_step u a (a\<lparr>lc_pending := None\<rparr>)"
| activate: "lc_pending a = Some new \<Longrightarrow> keep \<subseteq> lc_retained a \<union> set_option (lc_active a) \<Longrightarrow> lifecycle_step u a (promote u new keep a)"
| restart: "lifecycle_step u a (lc_restart a)"
| silence: "lifecycle_step u a (a\<lparr>lc_send := None, lc_old := None\<rparr>)"
| forget: "keep \<subseteq> lc_retained a \<Longrightarrow> lifecycle_step u a (a\<lparr>lc_retained := keep\<rparr>)"
| expire: "lifecycle_step u a (a\<lparr>lc_old := None\<rparr>)"
| seal: "lc_key a = Some k \<Longrightarrow> lifecycle_step u a (a\<lparr>lc_log := lc_log a @ [k]\<rparr>)"

definition lc_start :: lifecycle where
  "lc_start = \<lparr>lc_active = None, lc_pending = None, lc_retained = {}, lc_send = None, lc_old = None, lc_fresh = 0, lc_log = []\<rparr>"

section \<open>Keys only move forward\<close>

text \<open>The keys in use and to come are in the order in which they were made: the keys of frames, the old key, the
  send key, the keys of the pending epoch. The keys of the active epoch are older than those of the
  pending one.\<close>

definition opt_list :: "'a option \<Rightarrow> 'a list" where
  "opt_list x = (case x of None \<Rightarrow> [] | Some y \<Rightarrow> [y])"

lemma opt_list_simps [simp]: "opt_list None = []" "opt_list (Some y) = [y]"
  by (simp_all add: opt_list_def)

definition lc_line :: "lifecycle \<Rightarrow> rref list" where
  "lc_line a = lc_log a @ opt_list (lc_old a) @ opt_list (lc_send a)"

definition staged_keys :: "lifecycle \<Rightarrow> rref set" where
  "staged_keys a = (case lc_pending a of None \<Rightarrow> {} | Some p \<Rightarrow> snd ` set p)"

definition keys_ordered :: "lifecycle \<Rightarrow> bool" where
  "keys_ordered a \<longleftrightarrow> sorted (lc_line a) \<and> (\<forall>k \<in> set (lc_line a). k < lc_fresh a \<and> (\<forall>x \<in> staged_keys a. k < x)) \<and> (\<forall>x \<in> staged_keys a. x < lc_fresh a)"

lemmas line_defs = keys_ordered_def lc_line_def staged_keys_def

lemma keys_ordered_step: "lifecycle_step u a b \<Longrightarrow> keys_ordered a \<Longrightarrow> keys_ordered b"
proof (induction rule: lifecycle_step.induct)
  case (stage new a n)
  have "snd ` set new = {lc_fresh a..<n}" using stage(1) by (metis list.set_map set_upt)
  then have "staged_keys (a\<lparr>lc_pending := Some new, lc_fresh := n\<rparr>) = {lc_fresh a..<n}" by (simp add: staged_keys_def)
  moreover have "lc_line (a\<lparr>lc_pending := Some new, lc_fresh := n\<rparr>) = lc_line a" by (simp add: lc_line_def)
  ultimately show ?case using stage(2,4) by (simp add: keys_ordered_def) (fastforce intro: less_le_trans)
next
  case (activate a new keep)
  have "k \<in> staged_keys a" if "map_of new u = Some k" for k using that activate(1) by (force simp: staged_keys_def dest: map_of_SomeD)
  then have new: "\<forall>x\<in>set (lc_line a). x < k" "k < lc_fresh a" if "map_of new u = Some k" for k
    using that activate(3) by (auto simp: keys_ordered_def)
  have "keys_ordered (a\<lparr>lc_pending := None\<rparr>)" using activate(3) by (auto simp: line_defs)
  then show ?case using new
    by (cases "lc_send a"; cases "lc_old a"; cases "map_of new u") (simp_all add: line_defs promote_def sorted_append less_imp_le)
next
  case (seal a k)
  then show ?case by (cases "lc_send a"; cases "lc_old a") (simp_all add: line_defs lc_key_def sorted_append)
next
  case (restart a)
  then show ?case by (cases "lc_send a"; cases "lc_old a") (simp_all add: line_defs lc_restart_def sorted_append)
next
  case (silence a)
  then show ?case by (simp add: line_defs sorted_append)
next
  case (expire a)
  then show ?case by (cases "lc_old a") (simp_all add: line_defs sorted_append)
qed (simp_all add: line_defs)

lemma keys_ordered_run: "(lifecycle_step u)\<^sup>*\<^sup>* a b \<Longrightarrow> keys_ordered a \<Longrightarrow> keys_ordered b"
  by (induction rule: rtranclp_induct) (simp_all add: keys_ordered_step)

lemma keys_ordered_start: "keys_ordered lc_start"
  by (simp add: line_defs lc_start_def)

section \<open>The refinement\<close>

definition lifecycle_of :: "'c Session \<Rightarrow> lifecycle" where
  "lifecycle_of s = \<lparr>lc_active = map_option epoch_refs (activeEpoch s), lc_pending = map_option epoch_refs (pendingEpoch s),
     lc_retained = epoch_refs ` set (retainedEpoch s), lc_send = sendRatchet s, lc_old = retainedSendRatchet s,
     lc_fresh = nextRef s, lc_log = map fst (sealed s)\<rparr>"

lemma lifecycle_core: "core s' = core s \<Longrightarrow> lifecycle_of s' = lifecycle_of s"
  by (simp add: core_def lifecycle_of_def)

lemma lifecycle_decrypt:
  assumes "same_keys s s'" "sealed s' = sealed s" "retainedSendRatchet s' = retainedSendRatchet s"
  shows "lifecycle_step u (lifecycle_of s) (lifecycle_of s')"
proof -
  have "lifecycle_of s' = (lifecycle_of s)\<lparr>lc_retained := epoch_refs ` set (retainedEpoch s')\<rparr>" using assms by (simp add: same_keys_def lifecycle_of_def)
  moreover have "epoch_refs ` set (retainedEpoch s') \<subseteq> lc_retained (lifecycle_of s)" using assms(1) by (simp add: same_keys_def lifecycle_of_def)
  ultimately show ?thesis using lifecycle_step.forget by metis
qed

lemma lifecycle_select:
  assumes "selectSendRatchetLocked now s = (x, s1)"
  shows "(lifecycle_step u)\<^sup>*\<^sup>* (lifecycle_of s) (lifecycle_of s1) \<and> lc_key (lifecycle_of s1) = x"
proof (cases "s1 = s")
  case True
  then show ?thesis using assms
    by (auto simp: selectSendRatchetLocked_def lc_key_def lifecycle_of_def split: option.splits if_splits dest: arg_cong [where f = retainedSendRatchet])
next
  case False
  then have "lifecycle_of s1 = (lifecycle_of s)\<lparr>lc_old := None\<rparr>" "x = sendRatchet s"
    using assms by (auto simp: selectSendRatchetLocked_def lifecycle_of_def split: option.splits if_splits)
  then show ?thesis using lifecycle_step.expire [of u "lifecycle_of s"] by (auto simp: lc_key_def lifecycle_of_def)
qed

lemma select_between:
  assumes "selectSendRatchetLocked now s = (x, s1)" "same_keys s s'"
  shows "same_keys s1 s' \<and> sealed s1 = sealed s"
  using assms by (auto simp: selectSendRatchetLocked_def same_keys_def split: option.splits if_splits)

lemma lifecycle_encrypt:
  assumes "session_Encrypt kdf clk s ssrc f dst = (res, s')"
  shows "(lifecycle_step u)\<^sup>*\<^sup>* (lifecycle_of s) (lifecycle_of s')"
  using assms
proof (cases rule: session_Encrypt_fields)
  case (none s1)
  have k: "same_keys s1 s'" "sealed s' = sealed s1" using select_between [OF none(1,2)] none(3) by simp_all
  show ?thesis using lifecycle_select [OF none(1), of u] lifecycle_decrypt [OF k none(5), of u] by auto
next
  case (ratchet ref s1)
  let ?s2 = "s1\<lparr>sealed := sealed s1 @ [(ref, next_counter s1)]\<rparr>"
  have k: "same_keys ?s2 s'" "sealed s' = sealed ?s2" "retainedSendRatchet s' = retainedSendRatchet ?s2"
    using select_between [OF ratchet(1,2)] ratchet(3,5) by (simp_all add: same_keys_def)
  have "lifecycle_of ?s2 = (lifecycle_of s1)\<lparr>lc_log := lc_log (lifecycle_of s1) @ [ref]\<rparr>" by (simp add: lifecycle_of_def)
  then have "lifecycle_step u (lifecycle_of s1) (lifecycle_of ?s2)"
    using lifecycle_step.seal [of "lifecycle_of s1" ref u] lifecycle_select [OF ratchet(1)] by simp
  then show ?thesis using lifecycle_select [OF ratchet(1), of u] lifecycle_decrypt [OF k, of u] by auto
qed

lemma lifecycle_media: "(lifecycle_step u)\<^sup>*\<^sup>* (lifecycle_of s) (lifecycle_of (media_step kdf op s))"
proof (cases op)
  case (OpEncrypt clk ssrc f dst)
  then show ?thesis using lifecycle_encrypt [of kdf clk s ssrc f dst] by (metis media_step.simps(1) prod.collapse)
next
  case (OpDecrypt clk uid f dst)
  have "lifecycle_step u (lifecycle_of s) (lifecycle_of (media_step kdf op s))"
    using OpDecrypt session_Decrypt_fields [of kdf clk s uid f dst] lifecycle_decrypt by (metis media_step.simps(2) prod.collapse)
  then show ?thesis by blast
qed

lemma adds_member_iff: "newEpochAddsSender old (Some e) = adds_member (map_option epoch_refs old) (epoch_refs e)"
  by (cases old) (auto simp: newEpochAddsSender_def adds_member_def epoch_refs_def list_ex_iff map_of_eq_None_iff image_image split_beta)

lemma lifecycle_activate:
  assumes "pendingEpoch s = Some e"
  shows "lifecycle_step (userID s) (lifecycle_of s) (lifecycle_of (activate_epoch E e s))"
proof -
  let ?s' = "activate_epoch E e s"
  have "map_of (epoch_refs e) v = map_option ss_ratchet (map_of (es_senders e) v)" for v
    unfolding epoch_refs_def by (rule map_of_map [THEN fun_cong, unfolded comp_def])
  then have "lifecycle_of ?s' = promote (userID s) (epoch_refs e) (epoch_refs ` set (retainedEpoch ?s')) (lifecycle_of s)"
    using activate_epoch_core [of E e s] by (simp add: core_def lifecycle_of_def promote_def adds_member_iff)
  moreover have "epoch_refs ` set (retainedEpoch ?s') \<subseteq> lc_retained (lifecycle_of s) \<union> set_option (lc_active (lifecycle_of s))"
    using activate_epoch_core [of E e s] by (auto simp: core_def lifecycle_of_def epoch_refs_def split: option.splits)
  ultimately show ?thesis using lifecycle_step.activate [of "lifecycle_of s" "epoch_refs e"] assms by (simp add: lifecycle_of_def)
qed

lemma lifecycle_rebuilt:
  assumes "rebuildEpochStateLocked kdf E gid s = (Inr e, s')"
  shows "userID s' = userID s \<and> lifecycle_step u (lifecycle_of s) (lifecycle_of (s'\<lparr>pendingEpoch := Some e\<rparr>))"
proof -
  have r: "map snd (epoch_refs e) = [nextRef s..<nextRef s']" "nextRef s \<le> nextRef s'" "distinct (map fst (es_senders e))"
    and "s' = s\<lparr>ratchets := ratchets s', nextRef := nextRef s'\<rparr>" using rebuilt_epoch [OF assms] by blast+
  then obtain rs n where s': "s' = s\<lparr>ratchets := rs, nextRef := n\<rparr>" by blast
  have "map fst (epoch_refs e) = map fst (es_senders e)" by (simp add: epoch_refs_def split_beta)
  then have "lifecycle_step u (lifecycle_of s) ((lifecycle_of s)\<lparr>lc_pending := Some (epoch_refs e), lc_fresh := n\<rparr>)"
    using r by (intro lifecycle_step.stage) (simp_all add: lifecycle_of_def s')
  then show ?thesis by (simp add: s' lifecycle_of_def)
qed

text \<open>Runs of the machine from a given state \<open>a\<close>: every operation of a session prolongs them.\<close>

interpretation life: handler_invariant kdf "\<lambda>s. userID s = u \<and> (lifecycle_step u)\<^sup>*\<^sup>* a (lifecycle_of s)" for kdf u a
proof (unfold_locales, goal_cases)
  case (1 s' s)
  then show ?case using lifecycle_core [OF 1(1)] by (simp add: core_def)
next
  case (2 s op)
  then show ?case using lifecycle_media [of u s kdf op] media_same [of s kdf op] by (auto simp: same_keys_def)
next
  case (3 s)
  then show ?case using lifecycle_step.unstage [of u "lifecycle_of s"] by (auto simp: lifecycle_of_def)
next
  case (4 s E gid e s')
  then show ?case using lifecycle_rebuilt [OF 4(2), of u] by auto
next
  case (7 s e E)
  then show ?case using lifecycle_activate [OF 7(2), of E] activate_epoch_core [of E e s] by (auto simp: core_def)
next
  case (8 s)
  have "lifecycle_of (restart s) = lc_restart (lifecycle_of s)"
    by (simp add: lifecycle_of_def lc_restart_def restart_def clear_group_state_def)
  then show ?case using 8 lifecycle_step.restart [of u "lifecycle_of s"] by (auto simp: restart_def clear_group_state_def)
next
  case (9 s)
  then show ?case using lifecycle_step.silence [of u "lifecycle_of s"] by (auto simp: lifecycle_of_def dropSendKeysLocked_def)
qed (simp_all add: lifecycle_of_def resetEpochReadyLocked_def)

lemma lifecycle_swap [simp]: "lifecycle_of (swap_watchdog w w' s) = lifecycle_of s" "userID (swap_watchdog w w' s) = userID s"
  by (simp_all add: lifecycle_of_def swap_watchdog_def)

lemma life_step:
  assumes "session_step kdf Ok s s'" "userID s = u \<and> (lifecycle_step u)\<^sup>*\<^sup>* a (lifecycle_of s)"
  shows "userID s' = u \<and> (lifecycle_step u)\<^sup>*\<^sup>* a (lifecycle_of s')"
  using assms
proof (induction rule: session_step.induct)
  case (handler E s h)
  then show ?case by (intro life.handle)
next
  case (free s op)
  then show ?case by (intro life.free_step)
next
  case (watchdog s s')
  then obtain w w' t where t: "watchdog_move kdf Ok w s w' t" "s' = swap_watchdog w w' t" by (auto elim!: watchdog_stepE)
  show ?case using life.move [OF t(1) watchdog(2)] by (simp add: t(2))
qed

lemma lifecycle_new: "lifecycle_of (New uid callbacks opts) = lc_start"
  by (simp add: lifecycle_of_def lc_start_def New_def Let_def)

lemma life_reachable: "reachable kdf Ok s \<Longrightarrow> (lifecycle_step (userID s))\<^sup>*\<^sup>* lc_start (lifecycle_of s)"
proof (induction rule: reachable.induct)
  case (start uid callbacks opts)
  then show ?case by (simp add: lifecycle_new)
next
  case (step s s')
  then show ?case using life_step [OF step(2), of "userID s" lc_start] by auto
qed

text \<open>C2 session_refines_lifecycle. A session refines the machine: a new session is its start, and every step of a session, be
  it a handler with all that it sends and lets in, a media call, or a move of a watchdog, is a run of
  the machine on what \<open>lifecycle_of\<close> shows of the session. So epochs are only ever staged with fresh
  keys, activated from the pending one, dropped, retained and forgotten, and the send key is the
  session's own in the active epoch or the one before it.\<close>

theorem session_refines_lifecycle:
  "lifecycle_of (New uid callbacks opts) = lc_start
    \<and> (session_step kdf Ok s s' \<longrightarrow> userID s' = userID s \<and> (lifecycle_step (userID s))\<^sup>*\<^sup>* (lifecycle_of s) (lifecycle_of s'))"
  using life_step [of kdf Ok s s' "userID s" "lifecycle_of s"] lifecycle_new by blast

theorem session_refines_lifecycle_witness:
  "(lifecycle_step ''7'')\<^sup>*\<^sup>* (lifecycle_of demo_ready) (lifecycle_of demo_joined)
     \<and> lc_active (lifecycle_of demo_ready) = None \<and> lc_active (lifecycle_of demo_joined) = Some [(''7'', 0)] \<and> lc_send (lifecycle_of demo_joined) = Some 0"
proof -
  have "session_step pad_kdf (\<lambda>E. E = demo_env) demo_ready demo_joined" unfolding demo_joined_def by (rule session_step.handler) simp
  then have "(lifecycle_step (userID demo_ready))\<^sup>*\<^sup>* (lifecycle_of demo_ready) (lifecycle_of demo_joined)"
    using session_refines_lifecycle [of uid callbacks opts pad_kdf "\<lambda>E. E = demo_env" demo_ready demo_joined] by blast
  moreover have "userID demo_ready = ''7''" "activeEpoch demo_ready = None" by (simp_all add: demo_ready_def New_def Let_def)
  ultimately show ?thesis using demo_joined_fields by (simp add: lifecycle_of_def demo_own_def epoch_refs_def)
qed

text \<open>C3 keys_move_forward. Keys only move forward: in every reachable state the ratchets that encrypted the frames so far,
  in the order of the frames, are in the order in which they were made, and the ratchet that the
  next frame takes, at whatever time, is not older than any of them. A session that has left a
  ratchet, through a transition, a reset, a rollback or the end of a retention, never comes back to it.\<close>

theorem keys_move_forward:
  assumes "reachable kdf Ok s" "fst (selectSendRatchetLocked now s) = Some k"
  shows "sorted (map fst (sealed s) @ [k]) \<and> k < nextRef s"
proof -
  obtain s1 where s1: "selectSendRatchetLocked now s = (Some k, s1)" using assms(2) by (metis prod.collapse)
  have "(lifecycle_step (userID s))\<^sup>*\<^sup>* lc_start (lifecycle_of s1)"
    using life_reachable [OF assms(1)] lifecycle_select [OF s1] by (metis rtranclp_trans)
  then have "keys_ordered (lifecycle_of s1)" using keys_ordered_run keys_ordered_start by blast
  moreover have "sealed s1 = sealed s" "nextRef s1 = nextRef s" using select_same [OF s1] by (simp_all add: same_keys_def)
  moreover have "lc_key (lifecycle_of s1) = Some k" using lifecycle_select [OF s1] by blast
  ultimately show ?thesis
    by (cases "retainedSendRatchet s1"; cases "sendRatchet s1") (simp_all add: line_defs lifecycle_of_def lc_key_def sorted_append)
qed

theorem keys_move_forward_witness:
  "sorted (map fst (sealed demo_sent) @ [0]) \<and> map fst (sealed demo_sent) = [0, 0]"
proof -
  let ?op = "FreeMedia (OpEncrypt (\<lambda>_. 0) 1 [1] (replicate 64 0))"
  have "sendRatchet (free_step pad_kdf ?op demo_joined) = Some 0" "retainedSendRatchet (free_step pad_kdf ?op demo_joined) = None"
    using demo_encrypt [OF demo_joined_fields(1,2), of pad_kdf] unfolding Let_def by blast+
  then have "sendRatchet demo_sent = Some 0" "retainedSendRatchet demo_sent = None"
    using demo_encrypt [of "free_step pad_kdf ?op demo_joined" 0 pad_kdf] unfolding Let_def demo_sent_def by blast+
  then have "fst (selectSendRatchetLocked 0 demo_sent) = Some 0" by (simp add: selectSendRatchetLocked_def)
  from keys_move_forward [OF demo_sealed(2) this] show ?thesis by (simp add: demo_sealed(1))
qed

section \<open>What a sender may rely on\<close>

text \<open>A frame under end-to-end encryption: a DAVE frame that some key opens to the input.\<close>

definition encrypted_form :: "bytes \<Rightarrow> bytes \<Rightarrow> bool" where
  "encrypted_form f out \<longleftrightarrow> LooksLikeDAVEFrame out \<and> (\<exists>k tn. Decrypt \<lparr>dp_Ciphertext = out, dp_Key = k\<rparr> = Inr (f, tn))"

lemma encrypt_forms:
  assumes "keys_inv kdf s" "kdf_ok kdf" "length f < 2 ^ 32" "session_Encrypt kdf clk s ssrc f dst = (Inr out, s')"
  shows "if fst (selectSendRatchetLocked (clk 0) s) = None then out = f \<and> (strictEncrypt s \<longrightarrow> sendProtocolVersion s = 0) else encrypted_form f out"
proof -
  obtain sec where "media_inv kdf sec s" using assms(1) by (auto simp: keys_inv_def)
  with assms(4) show ?thesis
  proof (cases rule: session_Encrypt_cases)
    case (none s1)
    then show ?thesis by (auto simp: copyPassthrough_def split: if_splits)
  next
    case (ratchet ref s1 s2)
    then show ?thesis using encrypt_frame_out [OF ratchet(2,3)] assms(2,3) by (auto simp: encrypted_form_def kdf_ok_def)
  qed
qed

text \<open>C10 gates_hold. What a sender may rely on that asks before it sends: in every reachable session, when
  \<open>ShouldHoldFrames\<close> says no although a protocol version above 0 is announced, or when \<open>Ready\<close> says yes
  although the session is not transport-only, a frame that \<open>Encrypt\<close> returns is encrypted. In all other
  cases it is encrypted or the input itself, the latter not in a strict session that sends under a
  version above 0.\<close>

theorem gates_hold:
  assumes "reachable kdf Ok s" "kdf_ok kdf" "length f < 2 ^ 32" "session_Encrypt kdf clk s ssrc f dst = (Inr out, s')"
  shows "if \<not> ShouldHoldFrames s \<and> protocolVersion s \<noteq> 0 \<or> Ready s \<and> \<not> transportOnly s then encrypted_form f out
    else encrypted_form f out \<or> out = f \<and> \<not> (strictEncrypt s \<and> sendProtocolVersion s \<noteq> 0)"
proof -
  have "keys_inv kdf s" using keys.reachable [OF assms(1)] assms(2) by blast
  note forms = encrypt_forms [OF this assms(2-4)]
  have "sendRatchet s \<noteq> None \<Longrightarrow> fst (selectSendRatchetLocked (clk 0) s) \<noteq> None"
    by (auto simp: selectSendRatchetLocked_def split: option.splits)
  then show ?thesis using forms by (auto simp: ShouldHoldFrames_def Ready_def Let_def split: if_splits)
qed

lemma demo_joined_encrypts:
  "\<exists>out s'. session_Encrypt pad_kdf (\<lambda>_. 5) demo_joined 1 [4, 5, 6] (replicate 64 0) = (Inr out, s')"
proof -
  obtain r where r: "rebuildEpochStateLocked pad_kdf demo_env [0, 0, 0, 0, 0, 0, 0, 5] demo_ready = (Inr demo_own, demo_ready\<lparr>ratchets := [0 \<mapsto> r], nextRef := 1\<rparr>)"
    using demo_rebuild by blast
  have j: "core demo_joined = core (activate_epoch demo_env demo_own (demo_pending r))" "ssrcCodecs demo_joined = Map.empty"
    unfolding demo_joined_eq [OF r] by (simp_all add: activate_epoch_keeps) (simp add: demo_pending_def demo_ready_def New_def Let_def)
  then have rs: "ratchets demo_joined 0 = Some r" by (simp add: activate_epoch_core) (simp add: core_def demo_pending_def)
  have k: "NewKeyRatchet (baseSecret r) [] = Inr r" using rebuilt_member [OF r, of "''7''"] by (simp add: demo_own_def)
  have ok: "kdf_ok pad_kdf" using pad_kdf by (simp add: kdf_ok_def)
  then have "keys_inv pad_kdf demo_joined" using keys.reachable [OF demo_reachable] by blast
  then obtain sec where sec: "media_inv pad_kdf sec demo_joined" by (auto simp: keys_inv_def)
  have sel: "selectSendRatchetLocked now demo_joined = (Some 0, demo_joined)" for now
    using demo_joined_fields by (simp add: selectSendRatchetLocked_def)
  have c: "(ucast (drop_bit 24 (next_counter demo_joined)) :: u32) = 0" using demo_joined_fields(4) by (simp add: next_counter_def)
  show ?thesis
    using session_Encrypt_ok [OF sec pad_kdf sel rs c [symmetric] _ _, of "\<lambda>_. 5" 1 "[4, 5, 6]" "replicate 64 0"] new_ratchet_serves [OF k] j(2)
    by (auto simp: encrypt_kind_def)
qed

theorem gates_hold_witness:
  "\<exists>out s'. session_Encrypt pad_kdf (\<lambda>_. 5) demo_joined 1 [4, 5, 6] (replicate 64 0) = (Inr out, s') \<and> encrypted_form [4, 5, 6] out"
proof -
  obtain out s' where e: "session_Encrypt pad_kdf (\<lambda>_. 5) demo_joined 1 [4, 5, 6] (replicate 64 0) = (Inr out, s')"
    using demo_joined_encrypts by blast
  have ok: "kdf_ok pad_kdf" using pad_kdf by (simp add: kdf_ok_def)
  have "Ready demo_joined" "\<not> transportOnly demo_joined"
    using demo_joined_fields(1,5) demo_joined_refuses(3) by (simp_all add: Ready_def)
  then show ?thesis using gates_hold [OF demo_reachable ok _ e] e by auto
qed

end
