(* ===== verification/Voice_Player.thy ===== *)
theory Voice_Player
  imports Dave_Prelude
begin

text \<open>
  The audio loops of the example programs (\<open>examples/interop/main.go\<close>, \<open>examples/voice/main.go\<close>): reading a file of
  Opus frames in the DCA0 format and writing them frame by frame, and draining incoming packets.

  The file is its bytes. The UDP connection belongs to disgo and is a parameter: what it answers to
  a write, given the writes before it. It is taken to be a plain \<open>io.Writer\<close>. A loop runs once per tick of its
  ticker, so it recurses on the ticks that have happened; for the loop that can hold frames, each
  tick comes with what \<open>hold\<close> returns then. The rest of the programs sets up disgo and is not modelled.
\<close>

section \<open>Definitions\<close>

datatype io_error = IoEOF | IoUnexpectedEOF | IoError go_error

type_synonym io_writer = "bytes list \<Rightarrow> bytes \<Rightarrow> io_error option"

text \<open>\<open>binary.Read\<close> of an \<open>int16\<close> in little-endian order, with the rest of the file.\<close>

fun binary_Read_int16 :: "bytes \<Rightarrow> io_error + 16 word \<times> bytes" where
  "binary_Read_int16 [] = Inl IoEOF"
| "binary_Read_int16 [b] = Inl IoUnexpectedEOF"
| "binary_Read_int16 (b0 # b1 # rest) = Inr (word_of_nat (unat b0 + 256 * unat b1), rest)"

text \<open>\<open>io.CopyN\<close> from the file, with the rest of the file and the writes: nothing happens for a length that is not
  positive, and a file that ends early is written as far as it goes. A length below \<open>2 ^ 15\<close> is
  copied through one buffer, so by one write.\<close>

definition io_CopyN :: "io_writer \<Rightarrow> int \<Rightarrow> bytes \<Rightarrow> bytes list \<Rightarrow> io_error option \<times> bytes \<times> bytes list" where
  "io_CopyN w n bs written =
     (if n \<le> 0 then (None, bs, written)
      else
        (let chunk = take (nat n) bs; rest = drop (nat n) bs in
         if chunk = [] then (Some IoEOF, rest, written)
         else case w written chunk of
           Some e \<Rightarrow> (Some e, rest, written @ [chunk])
         | None \<Rightarrow> (if length chunk < nat n then Some IoEOF else None, rest, written @ [chunk])))"

text \<open>How a loop stands: it returned, it panicked, or it goes on with the rest of the file.\<close>

datatype playback = PlayReturned "io_error option" | PlayPanicked | Playing bytes

fun play_loop :: "io_writer \<Rightarrow> bool list \<Rightarrow> bytes \<Rightarrow> bytes list \<Rightarrow> bytes list \<times> playback" where
  "play_loop w [] bs written = (written, Playing bs)"
| "play_loop w (hold # holds) bs written =
     (if hold then play_loop w holds bs written
      else case binary_Read_int16 bs of
        Inl IoEOF \<Rightarrow> (written, PlayReturned None)
      | Inl _ \<Rightarrow> (written, PlayPanicked)
      | Inr (frameLen, rest) \<Rightarrow>
          (case io_CopyN w (sint frameLen) rest written of
             (None, rest', written') \<Rightarrow> play_loop w holds rest' written'
           | (Some IoEOF, _, written') \<Rightarrow> (written', PlayReturned None)
           | (Some e, _, written') \<Rightarrow> (written', PlayReturned (Some e))))"

text \<open>\<open>writeOpus\<close> of the interop example; \<open>None\<close> is a file that cannot be opened.\<close>

definition interop_writeOpus :: "io_writer \<Rightarrow> bool list \<Rightarrow> bytes option \<Rightarrow> bytes list \<times> playback" where
  "interop_writeOpus w holds dcaFile = (case dcaFile of None \<Rightarrow> ([], PlayPanicked) | Some bs \<Rightarrow> play_loop w holds bs [])"

text \<open>\<open>writeOpus\<close> of the voice example: it never holds, and goes on after the end of the file inside a frame.\<close>

fun voice_loop :: "io_writer \<Rightarrow> nat \<Rightarrow> bytes \<Rightarrow> bytes list \<Rightarrow> bytes list \<times> playback" where
  "voice_loop w 0 bs written = (written, Playing bs)"
| "voice_loop w (Suc ticks) bs written =
     (case binary_Read_int16 bs of
        Inl IoEOF \<Rightarrow> (written, PlayReturned None)
      | Inl _ \<Rightarrow> (written, PlayPanicked)
      | Inr (frameLen, rest) \<Rightarrow>
          (case io_CopyN w (sint frameLen) rest written of
             (None, rest', written') \<Rightarrow> voice_loop w ticks rest' written'
           | (Some IoEOF, rest', written') \<Rightarrow> voice_loop w ticks rest' written'
           | (Some _, _, written') \<Rightarrow> (written', PlayReturned None)))"

definition voice_writeOpus :: "io_writer \<Rightarrow> nat \<Rightarrow> bytes option \<Rightarrow> bytes list \<times> playback" where
  "voice_writeOpus w ticks dcaFile = (case dcaFile of None \<Rightarrow> ([], PlayPanicked) | Some bs \<Rightarrow> voice_loop w ticks bs [])"

text \<open>\<open>readUDP\<close> of the interop example, on the results of \<open>ReadPacket\<close>: \<open>None\<close> is a packet, an error says whether it is
  \<open>net.ErrClosed\<close> and whether it is \<open>session.ErrDecryptionFailed\<close>. It counts in \<open>decryptFailures\<close>; the result also
  says whether the loop has ended.\<close>

fun readUDP :: "(bool \<times> bool) option list \<Rightarrow> u64 \<Rightarrow> u64 \<times> bool" where
  "readUDP [] decryptFailures = (decryptFailures, False)"
| "readUDP (None # results) decryptFailures = readUDP results decryptFailures"
| "readUDP (Some (closed, undecryptable) # results) decryptFailures =
     (if closed then (decryptFailures, True)
      else readUDP results (if undecryptable then decryptFailures + 1 else decryptFailures))"

section \<open>Reading what was written\<close>

text \<open>A DCA0 file: each frame behind its length.\<close>

definition dca_frame :: "bytes \<Rightarrow> bytes" where
  "dca_frame f = [word_of_nat (length f), word_of_nat (length f div 256)] @ f"

definition dca_file :: "bytes list \<Rightarrow> bytes" where
  "dca_file frames = concat (map dca_frame frames)"

lemma read_dca_frame:
  assumes "length f < 2 ^ 15"
  shows "\<exists>n. binary_Read_int16 (dca_frame f @ rest) = Inr (n, f @ rest) \<and> sint n = int (length f)"
proof -
  have "length f div 256 < 256" using assms by simp
  then have b: "unat (word_of_nat (length f) :: u8) + 256 * unat (word_of_nat (length f div 256) :: u8) = length f"
    by (simp add: unat_of_nat)
  have "sint (word_of_nat (length f) :: 16 word) = int (length f)"
    using assms by (simp add: signed_of_nat signed_take_bit_int_eq_self)
  then show ?thesis by (simp add: dca_frame_def b)
qed

lemma copy_frame:
  "f \<noteq> [] \<Longrightarrow> io_CopyN w (int (length f)) (f @ rest) written = (w written f, rest, written @ [f])"
  by (simp add: io_CopyN_def split: option.split)

text \<open>What a connection makes of a list of writes: it takes all of them, or they stop with the first one
  that it answers with an error.\<close>

definition offered :: "io_writer \<Rightarrow> bytes list \<Rightarrow> bytes list \<Rightarrow> playback \<Rightarrow> bytes list \<times> playback \<Rightarrow> bool" where
  "offered w written fs after out \<longleftrightarrow>
     (\<forall>j<length fs. w (written @ take j fs) (fs ! j) = None) \<and> out = (written @ fs, after) \<or>
     (\<exists>j e. j < length fs \<and> (\<forall>i<j. w (written @ take i fs) (fs ! i) = None) \<and>
        w (written @ take j fs) (fs ! j) = Some e \<and>
        out = (written @ take (Suc j) fs, PlayReturned (if e = IoEOF then None else Some e)))"

lemma offered_Nil [simp]: "offered w written [] after out \<longleftrightarrow> out = (written, after)"
  by (simp add: offered_def)

lemma offered_fails:
  "w written f = Some e \<Longrightarrow> offered w written (f # fs) after (written @ [f], PlayReturned (if e = IoEOF then None else Some e))"
  unfolding offered_def by (intro disjI2 exI [of _ 0] exI [of _ e]) simp

lemma offered_taken:
  assumes f: "w written f = None" and o: "offered w (written @ [f]) fs after out"
  shows "offered w written (f # fs) after out"
  using o unfolding offered_def [of w "written @ [f]"]
proof (elim disjE exE conjE)
  assume "\<forall>j<length fs. w ((written @ [f]) @ take j fs) (fs ! j) = None" "out = ((written @ [f]) @ fs, after)"
  with f show ?thesis
    unfolding offered_def by (intro disjI1) (simp add: All_less_Suc2)
next
  fix j e
  assume "j < length fs" "\<forall>i<j. w ((written @ [f]) @ take i fs) (fs ! i) = None"
    "w ((written @ [f]) @ take j fs) (fs ! j) = Some e"
    "out = ((written @ [f]) @ take (Suc j) fs, PlayReturned (if e = IoEOF then None else Some e))"
  with f show ?thesis
    unfolding offered_def by (intro disjI2 exI [of _ "Suc j"] exI [of _ e]) (simp add: All_less_Suc2)
qed

text \<open>The frames that \<open>k\<close> ticks take from the file, without the empty ones, which are read and not
  written.\<close>

abbreviation due :: "nat \<Rightarrow> bytes list \<Rightarrow> bytes list" where
  "due k frames \<equiv> filter (\<lambda>f. f \<noteq> []) (take k frames)"

lemma play_loop_offered:
  "\<forall>f \<in> set frames. length f < 2 ^ 15 \<Longrightarrow> k = length (filter Not holds) \<Longrightarrow>
     offered w written (due k frames) (if k \<le> length frames then Playing (dca_file (drop k frames)) else PlayReturned None)
       (play_loop w holds (dca_file frames) written)"
proof (induction holds arbitrary: k frames written)
  case (Cons h holds)
  consider (hold) "h \<or> frames = []" | (play) f fs where "frames = f # fs" "\<not> h"
    by (meson list.exhaust)
  then show ?case
  proof cases
    case hold
    then show ?thesis using Cons by (auto simp: dca_file_def)
  next
    case play
    obtain n where n: "binary_Read_int16 (dca_frame f @ dca_file fs) = Inr (n, f @ dca_file fs)" "sint n = int (length f)"
      using read_dca_frame [of f "dca_file fs"] Cons.prems(1) play(1) by auto
    have file_eq: "dca_file (f # fs) = dca_frame f @ dca_file fs" by (simp add: dca_file_def)
    note IH = Cons.IH [OF _ refl, of fs]
    have fs: "\<forall>f \<in> set fs. length f < 2 ^ 15" using Cons.prems(1) play(1) by simp
    show ?thesis
    proof (cases "f = []")
      case True
      then have "io_CopyN w (sint n) (f @ dca_file fs) written = (None, dca_file fs, written)"
        by (simp add: n(2) io_CopyN_def)
      then show ?thesis using IH [OF fs, of written] Cons.prems(2) play n file_eq True by (simp split: if_splits)
    next
      case False
      note copy = copy_frame [OF False, of w "dca_file fs" written, folded n(2)]
      show ?thesis
      proof (cases "w written f")
        case None
        then show ?thesis
          using offered_taken [OF None IH [OF fs, of "written @ [f]"]] Cons.prems(2) play n False copy
          by (simp add: file_eq split: if_splits)
      next
        case (Some e)
        then show ?thesis
          using offered_fails [of w written f e] Cons.prems(2) play n False copy
          by (cases e) (simp_all add: file_eq)
      qed
    qed
  qed
qed simp

text \<open>C40 dca_playback. The player of the interop example on a DCA0 file whose frames have lengths that an \<open>int16\<close> holds,
  for any connection. With \<open>k\<close> ticks at which it need not hold, however the others lie between them,
  it takes the first \<open>k\<close> frames off the file and writes those that are not empty, in order, none twice
  and none left out. If the connection accepts them all, the file stands before the next frame, or
  the player has ended without an error if there were more ticks than frames. Otherwise it stops with
  the first write that fails and returns its error, or none if that is \<open>io.EOF\<close>.\<close>

theorem dca_playback:
  assumes "\<forall>f \<in> set frames. length f < 2 ^ 15"
    and "k = length (filter Not holds)" and "ws = filter (\<lambda>f. f \<noteq> []) (take k frames)"
  shows "(\<forall>j<length ws. w (take j ws) (ws ! j) = None) \<and>
      interop_writeOpus w holds (Some (dca_file frames)) =
        (ws, if k \<le> length frames then Playing (dca_file (drop k frames)) else PlayReturned None) \<or>
    (\<exists>j e. j < length ws \<and> (\<forall>i<j. w (take i ws) (ws ! i) = None) \<and> w (take j ws) (ws ! j) = Some e \<and>
      interop_writeOpus w holds (Some (dca_file frames)) =
        (take (Suc j) ws, PlayReturned (if e = IoEOF then None else Some e)))"
  using play_loop_offered [OF assms(1,2), of w "[]"]
  unfolding offered_def assms(3) interop_writeOpus_def append_Nil option.case .

text \<open>Witness of \<open>dca_playback\<close>: a file with an empty frame, ticks at which the player holds, and a
  connection that refuses its second write.\<close>

theorem dca_playback_witness:
  "interop_writeOpus (\<lambda>ws _. if ws = [] then None else Some (IoError ''closed'')) [False, True, False, False, True]
     (Some (dca_file [[1, 2], [], [3], [4]])) = ([[1, 2], [3]], PlayReturned (Some (IoError ''closed'')))"
proof -
  let ?w = "\<lambda>ws :: bytes list. \<lambda>_ :: bytes. if ws = [] then None else Some (IoError ''closed'')"
  have "\<forall>f \<in> set [[1, 2], [], [3], [4 :: u8]]. length f < 2 ^ 15" by simp
  from dca_playback [OF this, of 3 "[False, True, False, False, True]" "[[1, 2], [3]]" ?w] show ?thesis
    by (auto simp: less_Suc_eq numeral_2_eq_2 split: if_splits)
qed

section \<open>Any file\<close>

text \<open>On any file, however cut off, a player comes to an end: every tick at which it does not hold takes two bytes at least.\<close>

lemma copy_rest: "io_CopyN w n bs written = (None, rest, written') \<Longrightarrow> length rest \<le> length bs"
  by (auto simp: io_CopyN_def Let_def split: if_splits option.splits)

lemma play_ends: "length bs < 2 * length (filter Not holds) \<Longrightarrow> \<nexists>rest. snd (play_loop w holds bs written) = Playing rest"
proof (induction holds arbitrary: bs written)
  case (Cons hold holds)
  show ?case
  proof (cases "hold \<or> (\<exists>e. binary_Read_int16 bs = Inl e)")
    case True
    then show ?thesis using Cons by (auto split: io_error.splits)
  next
    case False
    then obtain n rest where r: "binary_Read_int16 bs = Inr (n, rest)" by (metis old.sum.exhaust prod.exhaust)
    then have "length bs = length rest + 2" by (cases bs rule: binary_Read_int16.cases) auto
    moreover have "length bs < 2 * length (filter Not holds) + 2" using Cons.prems False by simp
    ultimately have "length rest < 2 * length (filter Not holds)" by simp
    then show ?thesis using r False Cons.IH
      by (auto split: io_error.splits option.splits prod.splits dest!: copy_rest dest: le_less_trans)
  qed
qed simp

text \<open>The two players write the same as long as the connection takes what it is given.\<close>

lemma players_agree:
  assumes "\<And>ws f. w ws f = None"
  shows "fst (voice_writeOpus w n dcaFile) = fst (interop_writeOpus w (replicate n False) dcaFile)"
proof -
  have "fst (voice_loop w n bs written) = fst (play_loop w (replicate n False) bs written)" for bs written
  proof (induction n arbitrary: bs written)
    case (Suc n)
    have eof: "fst (voice_loop w n [] ws) = ws" for ws by (cases n) simp_all
    have cut: "io_CopyN w m f written = (Some e, rest, written') \<Longrightarrow> e = IoEOF \<and> rest = []" for m f e rest written'
      by (auto simp: io_CopyN_def Let_def assms split: if_splits)
    show ?case using Suc.IH eof by (auto split: sum.splits io_error.splits option.splits prod.splits dest!: cut)
  qed simp
  then show ?thesis by (simp add: voice_writeOpus_def interop_writeOpus_def split: option.splits)
qed

text \<open>The reader ends with the first closed connection and counts the undecryptable packets before it.\<close>

lemma readUDP_counts:
  "readUDP results n = (n + of_nat (length (filter (\<lambda>r. r = Some (False, True)) (takeWhile (\<lambda>r. r \<notin> {Some (True, False), Some (True, True)}) results))),
     list_ex (\<lambda>r. r \<in> {Some (True, False), Some (True, True)}) results)"
  by (induction results n rule: readUDP.induct) (auto simp: ac_simps)

end
