(* ===== verification/Spec2Isabelle.thy ===== *)
theory Spec2Isabelle
  imports Frame_Buffer Codecs Nonce Ratchet Media_Keys Replay Session_Properties Session_Lifecycle Voice_Player
begin

text \<open>
  A verification of dave-go, the Go implementation of Discord's DAVE protocol (end-to-end encryption of
  audio and video) under \<open>src/\<close>. Every definition translates a piece of the Go source; Go's integers
  are words or ints with the wrap-around written out, errors and panics are values, locks decide
  which pieces of a call are one step.

  \<^bold>\<open>The program.\<close> A voice layer owns one session per connection. Gateway messages reach the
  handlers \<open>On...\<close> of \<open>session/session.go\<close>, which drive an MLS client (the library mls-go) through
  \<open>session/mls.go\<close> and turn each MLS epoch into one key ratchet per member (\<open>mediakeys/\<close>). Media
  frames go through \<open>Encrypt\<close> and \<open>Decrypt\<close> of the session, which pick a ratchet, a nonce and a codec
  (\<open>codecs/\<close>) and read or write the frame format (\<open>frame/\<close>); a replay window (\<open>session/replay.go\<close>)
  guards each sender. Watchdog goroutines recover a session whose handshake hangs (\<open>session/retry.go\<close>).

  \<^bold>\<open>Theories, in the order of the calls.\<close>
  \<^item> \<open>Dave_Prelude\<close>: types, the error monad, Go's int and slices, lemmas on words and lists.
  \<^item> \<open>Uleb128\<close> (\<open>frame/uleb128.go\<close>), \<open>Ranges\<close> (\<open>frame/ranges.go\<close> and the range code of
    \<open>frame/encrypt.go\<close>): loops over 32-bit words; the decoder accepts exactly the canonical encodings,
    the range operations refine masks over the frame.
  \<^item> \<open>Std_Crypto\<close>: AES and GCM of Go's standard library, as executable functions. \<open>Gcm8\<close>
    (\<open>frame/gcm8.go\<close>): the 8-byte tags.
  \<^item> \<open>Frame\<close> (\<open>frame/frame.go\<close>, \<open>frame/encrypt.go\<close>): parsing, encryption and decryption of frames with all
    variants; round trip, that exactly the encrypted frames are accepted, all errors. \<open>Frame_Buffer\<close>: the
    variants that write into a caller's buffer, with the buffer as an array, \<open>append\<close> with its
    capacity and the final copy.
  \<^item> \<open>Codecs\<close> (\<open>codecs/\<close>): the codec gate, H.26x start codes and nonce retries, VP8, AV1.
  \<^item> \<open>Nonce\<close>, \<open>Ratchet\<close>, \<open>Media_Keys\<close> (\<open>mediakeys/\<close>): counters and expanders, the key ratchet with its
    cache, sender secrets and displayable codes.
  \<^item> \<open>Replay\<close> (\<open>session/replay.go\<close>): the 1024-bit ring, a refinement of a set of seen nonces.
  \<^item> \<open>Session_State\<close>: the \<open>Session\<close> record with epochs, options, statistics and small helpers. Ratchets are
    shared by epochs and the sender in Go, so the record has a store of ratchets and references into
    it; \<open>closedChans\<close> and \<open>epochReady\<close> stand for the channels, \<open>sent\<close> for the messages given to the
    callbacks, \<open>watchdogs\<close> for the goroutines. \<open>sealed\<close> (ratchets and counters used for encryption)
    and \<open>panicked\<close> are history variables.
  \<^item> \<open>Session_Media\<close>: \<open>Encrypt\<close> and \<open>Decrypt\<close> of the session. \<open>Mls_Wire\<close>: identities, vector lengths and
    revoke batches of \<open>session/mls.go\<close>.
  \<^item> \<open>Session_Mls\<close>: the group operations of \<open>session/mls.go\<close>. mls-go, the gateway callbacks and the clock
    are the record \<open>Env\<close>, an argument that may differ from call to call.
  \<^item> \<open>Session_Handlers\<close>: all handlers, the activation of epochs, the watchdogs as state machines, and the
    transition system \<open>session_step\<close> with \<open>reachable\<close>. A handler holds \<open>sendMu\<close> and is one step; while
    it sends, calls that need only \<open>mu\<close> may run (\<open>env_during\<close>); watchdogs move between handlers.
  \<^item> \<open>Session_Invariants\<close>: the locales \<open>epoch_keeping\<close>, \<open>handler_invariant\<close> and \<open>session_invariant\<close>.
    \<open>Session_Safety\<close>: their interpretations \<open>nonces\<close>, \<open>keys\<close> and \<open>watchers\<close>; \<open>Session_Transitions\<close> adds \<open>active\<close>,
    \<open>Session_Waiting\<close> adds \<open>wakeups\<close> and \<open>Session_Lifecycle\<close> adds \<open>life\<close>.
  \<^item> \<open>Session_Example\<close>: a run for the witnesses. \<open>Session_Properties\<close>: no nonce is used twice, and every
    reachable session is well-formed. \<open>Session_Recovery\<close>: the watchdogs come to an end, and what one of them
    sends in its whole life. \<open>Session_Protocol\<close>: which proposals pass, and the proposal queue. \<open>Session_Client\<close>: no
    nil client is called. \<open>Session_Transitions\<close>: how an epoch is built, which Welcomes and commits are
    taken, rollback, the execution of transitions, and when plaintext is refused.
    \<open>Session_Waiting\<close>: \<open>WaitReady\<close> and \<open>WaitShutdown\<close>. \<open>Session_Lifecycle\<close>: an abstract machine of epochs and send keys,
    that every session refines it, and what follows for the order of keys and for a sender that asks
    before it sends. \<open>Session_Group\<close> and this theory: sessions of one group.
  \<^item> \<open>Voice_Player\<close>: the audio and receive loops of the programs under \<open>examples/\<close>.

  \<^bold>\<open>What the lemmas show.\<close> Frames: what is encrypted decrypts to the same, and nothing else decrypts;
  a frame written into a buffer is the one that would be allocated, and no byte behind the buffer changes.
  Keys: two ratchets of one secret agree whatever their histories as long as the key derivation does not
  fail, and what is left of a ratchet if it does. Sessions: authenticity, freshness
  and no reuse of nonces in every reachable state; forged frames change nothing; the MLS client sees
  exactly the admissible messages; epochs are exactly those of the group; send keys only move
  forward; a frame is encrypted whenever the session says it may be sent under E2EE; lost commits are undone;
  downgrades happen only through protocol version 0; no handler panics; watchdogs, queues and waits
  come to an end.

  \<^bold>\<open>Hypotheses on code outside the repository.\<close> \<open>kdf_total\<close> and \<open>kdf_key_length\<close>: the key derivation of mls-go
  does not fail and gives keys of the requested length. \<open>marshal_ok\<close>: a parsed MLS message is not
  longer when it is marshaled again. \<open>store_law\<close>: the store returns the group state saved last.
  The theorem on two sessions of one group assumes that their MLS clients agree on its members and
  secrets. Each hypothesis occurs only in the theorems that name it.

  \<^bold>\<open>Loops and bounds.\<close> Loops are recursion with termination proofs. The loop over the proposal queue has the
  queue's length as its bound, and it is proved that it stops because the Go condition is
  false. The loop over a proposal batch recurses on the bytes left. Watchdogs and \<open>WaitReady\<close> are step
  relations, so they may take any time.

  \<^bold>\<open>Not modelled.\<close> Of the programs under \<open>examples/\<close> what starts a Discord library, moves its connections and
  logs, which is glue around that library; logging,
  the random session id, the session hook and \<open>CreateFunc\<close>, which carry no protocol state; real time
  (timers may fire at any moment); timing of comparisons and wiping of memory; a plaintext that
  overlaps the buffer it is encrypted into, which the Go comments forbid; GCM's limit of 64 GiB per
  message. Ratchets are told apart as objects: that no nonce is used twice is shown for every ratchet, and
  not for two ratchets with equal secrets that two builds of one MLS epoch would give.
\<close>

section \<open>From the group to the frame\<close>

text \<open>C7 members_hear_each_other. Two sessions of one group understand each other: when the MLS clients of two reachable
  sessions list the same members of the group and export the same secrets, which is what MLS
  guarantees for members of one epoch, and both sessions have entered the epoch, then a frame that
  the first one encrypts on its new ratchet decrypts to the same frame in the second one, where it is
  attributed to the first one's user id. Nothing but the group is shared between them.\<close>

theorem members_hear_each_other:
  assumes "kdf_ok kdf" "reachable kdf OkS S" "reachable kdf OkR R"
    and "mlsClient S = Some cS" "mlsClient R = Some cR" "ListMembers ES cS gid = Inr members" "ListMembers ER cR gid = Inr members"
      "adapter_exporter kdf ES (Some cS) gid = adapter_exporter kdf ER (Some cR) gid"
    and "enters kdf ES gid S eS S'" "enters kdf ER gid R eR R'" "userID S \<in> fst ` set (es_senders eS)"
    and "retainedSendRatchet S' = None" "next_counter S' < 2 ^ 24" "encrypt_kind S' ssrc = CodecOpus"
    and "length f < 2 ^ 32" "length f + 16 \<le> length dst" "length f \<le> length dst'"
  shows "\<exists>out S'' R''. session_Encrypt kdf clk S' ssrc f dst = (Inr out, S'') \<and> LooksLikeDAVEFrame out
    \<and> session_Decrypt kdf clk' R' (userID S) out dst' = (Inr f, R'')"
proof (rule fresh_exchange [OF assms(1) _ _ assms(9,10) _ assms(11-17)])
  show "keys_inv kdf S" "keys_inv kdf R" using keys.reachable [OF assms(2)] keys.reachable [OF assms(3)] assms(1) by blast+
  show "epoch_bases (ratchets S') eS = epoch_bases (ratchets R') eR"
    using enters_bases [OF assms(9,4,6)] enters_bases [OF assms(10,5,7)] assms(8) epoch_spec_unique by metis
qed

text \<open>Two sessions that start like the one of the example.\<close>

theorem members_hear_each_other_witness:
  "\<exists>S' R' out S'' R''. enters pad_kdf demo_env [0, 0, 0, 0, 0, 0, 0, 5] demo_ready demo_own S'
     \<and> enters pad_kdf demo_env [0, 0, 0, 0, 0, 0, 0, 5] demo_ready demo_own R'
     \<and> session_Encrypt pad_kdf (\<lambda>_. 5) S' 1 [4, 5, 6] (replicate 64 0) = (Inr out, S'')
     \<and> session_Decrypt pad_kdf (\<lambda>_ _. 6) R' ''7'' out (replicate 64 0) = (Inr [4, 5, 6], R'')"
proof -
  let ?gid = "[0, 0, 0, 0, 0, 0, 0, 5]"
  obtain r where r: "rebuildEpochStateLocked pad_kdf demo_env ?gid demo_ready = (Inr demo_own, demo_ready\<lparr>ratchets := [0 \<mapsto> r], nextRef := 1\<rparr>)"
    using demo_rebuild by blast
  let ?S = "activate_epoch demo_env demo_own (demo_pending r)"
  have e: "enters pad_kdf demo_env ?gid demo_ready demo_own ?S" using r by (auto simp: enters_def demo_pending_def)
  have s: "reachable pad_kdf (\<lambda>E. E = demo_env) demo_ready" unfolding demo_steps [symmetric]
    by (intro reachable.step [OF _ session_step.handler] reachable.start) simp_all
  have f: "mlsClient demo_ready = Some ()" "userID demo_ready = ''7''" "ListMembers demo_env () ?gid = Inr [[0, 0, 0, 0, 0, 0, 0, 7]]"
    by (simp_all add: demo_ready_def New_def Let_def)
  have c: "retainedSendRatchet ?S = None" "next_counter ?S = 1"
    using activate_epoch_core [of demo_env demo_own "demo_pending r"]
    by (simp_all add: core_def next_counter_def) (simp_all add: demo_pending_def demo_ready_def New_def Let_def NewNonceCounter_def)
  have k: "encrypt_kind ?S 1 = CodecOpus" by (simp add: encrypt_kind_def activate_epoch_keeps) (simp add: demo_pending_def demo_ready_def New_def Let_def)
  have ok: "kdf_ok pad_kdf" using pad_kdf by (simp add: kdf_ok_def)
  have "userID demo_ready \<in> fst ` set (es_senders demo_own)" by (simp add: f demo_own_def)
  from members_hear_each_other [where clk = "\<lambda>_. 5" and clk' = "\<lambda>_ _. 6" and f = "[4, 5, 6]" and dst = "replicate 64 0" and dst' = "replicate 64 0",
      OF ok s s f(1,1,3,3) refl e e this c(1) _ k] show ?thesis using e by (auto simp: f c(2))
qed

end
